(* ===== verification/Prelude.thy ===== *)
theory Prelude
  imports Main "HOL-Library.Word"
begin

text \<open>
  Shared vocabulary of the development: the widths of the C++ integer types, the
  little-endian layout in which structures lie in files and on the wire, sums of
  unsigned quantities, and the generic facts on lists and words that the component
  theories rely on.  Facts that describe the shape of the order book are collected in
  \<open>book_simps\<close>, facts that describe byte layouts in \<open>layout_simps\<close>.
\<close>

section \<open>Machine integers\<close>

type_synonym u8 = "8 word"
type_synonym u32 = "32 word"
type_synonym u64 = "64 word"

named_theorems book_simps
named_theorems layout_simps

lemma unat_u64_less [simp]: "unat (x :: u64) < 18446744073709551616"
  using unsigned_less [of x] by simp

lemma unat_u64_sub: "(b :: u64) \<le> a \<Longrightarrow> unat (a - b) = unat a - unat b"
  by (simp add: unat_sub word_le_nat_alt)

lemma unat_u64_add:
  "unat (a :: u64) + unat b < 18446744073709551616 \<Longrightarrow> unat (a + b) = unat a + unat b"
  by (simp add: unat_word_ariths)

lemma unat_u64_Suc:
  "unat (a :: u64) + 1 < 18446744073709551616 \<Longrightarrow> unat (a + 1) = unat a + 1"
  by (simp add: unat_word_ariths)

lemma u64_gt0_unat: "(0 < (x :: u64)) = (0 < unat x)"
  by (simp add: word_less_nat_alt)

lemma u64_neq0_unat: "((x :: u64) \<noteq> 0) = (0 < unat x)"
  by (simp add: unat_gt_0)

section \<open>Little-endian byte layout\<close>

text \<open>
  \<open>le_bytes n v\<close> is the little-endian image of \<open>v\<close> in \<open>n\<close> bytes, the layout of an
  integer member of a structure on the x86-64 target; \<open>le_nat\<close> reads it back.
\<close>

fun le_bytes :: "nat \<Rightarrow> nat \<Rightarrow> u8 list" where
  "le_bytes 0 v = []"
| "le_bytes (Suc n) v = of_nat (v mod 256) # le_bytes n (v div 256)"

fun le_nat :: "u8 list \<Rightarrow> nat" where
  "le_nat [] = 0"
| "le_nat (b # bs) = unat b + 256 * le_nat bs"

definition enc_u64 :: "u64 \<Rightarrow> u8 list" where
  "enc_u64 w = le_bytes 8 (unat w)"

definition dec_u64 :: "u8 list \<Rightarrow> u64" where
  "dec_u64 bs = of_nat (le_nat bs)"

lemma length_le_bytes [simp, layout_simps]: "length (le_bytes n v) = n"
  by (induction n arbitrary: v) auto

lemma unat_of_nat_byte: "unat (of_nat (v mod 256) :: u8) = v mod 256"
  by (simp add: unat_of_nat)

lemma le_nat_le_bytes: "le_nat (le_bytes n v) = v mod 256 ^ n"
proof (induction n arbitrary: v)
  case 0
  then show ?case by simp
next
  case (Suc n)
  have "v mod 256 ^ Suc n = v mod 256 + 256 * (v div 256 mod 256 ^ n)"
    using mod_mult2_eq [of v 256 "256 ^ n"] by (simp add: mult.commute add.commute)
  with Suc.IH [of "v div 256"] show ?case by (simp add: unat_of_nat_byte)
qed

lemma le_nat_less: "le_nat bs < 256 ^ length bs"
proof (induction bs)
  case Nil
  then show ?case by simp
next
  case (Cons b bs)
  have "unat b < 256" using unsigned_less [of b] by simp
  with Cons.IH show ?case by simp
qed

lemma le_bytes_le_nat: "le_bytes (length bs) (le_nat bs) = bs"
proof (induction bs)
  case Nil
  then show ?case by simp
next
  case (Cons b bs)
  have b: "unat b < 256" using unsigned_less [of b] by simp
  have "(unat b + 256 * le_nat bs) mod 256 = unat b" and
    "(unat b + 256 * le_nat bs) div 256 = le_nat bs"
    using b by simp_all
  with Cons.IH show ?case by simp
qed

lemma length_enc_u64 [simp, layout_simps]: "length (enc_u64 w) = 8"
  by (simp add: enc_u64_def)

lemma dec_enc_u64 [simp, layout_simps]: "dec_u64 (enc_u64 w) = w"
  by (simp add: dec_u64_def enc_u64_def le_nat_le_bytes)

lemma enc_dec_u64: "length bs = 8 \<Longrightarrow> enc_u64 (dec_u64 bs) = bs"
proof -
  assume l: "length bs = 8"
  from le_nat_less [of bs] l have "unat (dec_u64 bs) = le_nat bs"
    by (simp add: dec_u64_def unat_of_nat)
  with le_bytes_le_nat [of bs] l show ?thesis by (simp add: enc_u64_def)
qed

section \<open>Lists\<close>

lemma sum_list_map_filter_split:
  "sum_list (map f xs) =
     sum_list (map f (filter P xs)) + (sum_list (map f (filter (\<lambda>x. \<not> P x) xs)) :: nat)"
  by (induction xs) auto

lemma sorted_wrt_pairsI:
  "(\<And>x y. x \<in> set xs \<Longrightarrow> y \<in> set xs \<Longrightarrow> R x y) \<Longrightarrow> sorted_wrt R xs"
  by (induction xs) auto

lemma filter_sorted_split:
  assumes "sorted_wrt R xs" and "\<And>x y. R x y \<Longrightarrow> P y \<Longrightarrow> P x"
  shows "xs = filter P xs @ filter (\<lambda>x. \<not> P x) xs"
  using assms(1)
proof (induction xs)
  case Nil
  then show ?case by simp
next
  case (Cons x xs)
  show ?case
  proof (cases "P x")
    case True
    with Cons show ?thesis by simp
  next
    case False
    with Cons.prems assms(2) have "filter P xs = []"
      by (auto simp: filter_empty_conv)
    with False Cons show ?thesis by (metis append_Nil filter.simps(2) sorted_wrt.simps(2))
  qed
qed

lemma take_drop_chunk:
  assumes "length a = n"
  shows "take n (a @ b) = a" and "drop n (a @ b) = b"
  using assms by simp_all

end
