(* ===== verification/Binary64.thy ===== *)
theory Binary64
  imports Prelude
begin

text \<open>
  The C++ type \<open>double\<close> of the x86-64 target: IEEE 754 binary64 with round-to-nearest,
  ties-to-even.  Prices are doubles throughout the program, so comparison, the four
  arithmetic operations of the price collar and the special values (signed zeros,
  infinities, NaN) are all modelled, on the 64-bit pattern itself.

  A magnitude is the 63-bit integer below the sign bit.  Magnitudes order the
  non-negative doubles, and \<open>sval\<close> gives the value a magnitude stands for, in units of
  the smallest subnormal \<open>2 ^ -1074\<close>, so that every finite value is an integer and
  rounding is integer arithmetic.
\<close>

section \<open>Patterns and comparison\<close>

datatype double = F64 (bits_of: u64)

definition mag :: "double \<Rightarrow> nat" where
  "mag x = unat (bits_of x) mod 2 ^ 63"

definition dneg :: "double \<Rightarrow> bool" where
  "dneg x = (2 ^ 63 \<le> unat (bits_of x))"

definition inf_mag :: nat where
  "inf_mag = 9218868437227405312"

definition is_nan :: "double \<Rightarrow> bool" where
  "is_nan x = (inf_mag < mag x)"

definition is_inf :: "double \<Rightarrow> bool" where
  "is_inf x = (mag x = inf_mag)"

definition is_finite :: "double \<Rightarrow> bool" where
  "is_finite x = (mag x < inf_mag)"

definition mk :: "bool \<Rightarrow> nat \<Rightarrow> double" where
  "mk s m = F64 (of_nat (m + (if s then 2 ^ 63 else 0)))"

definition qnan :: double where
  "qnan = mk False (inf_mag + 2 ^ 51)"

text \<open>Sign and magnitude as one integer: the order of the non-NaN doubles.\<close>

definition dkey :: "double \<Rightarrow> int" where
  "dkey x = (if dneg x then - int (mag x) else int (mag x))"

instantiation double :: ord
begin

definition less_double :: "double \<Rightarrow> double \<Rightarrow> bool" where
  "less_double x y = (\<not> is_nan x \<and> \<not> is_nan y \<and> dkey x < dkey y)"

definition less_eq_double :: "double \<Rightarrow> double \<Rightarrow> bool" where
  "less_eq_double x y = (\<not> is_nan x \<and> \<not> is_nan y \<and> dkey x \<le> dkey y)"

instance ..

end

section \<open>Values and rounding\<close>

text \<open>
  The value of a magnitude in units of \<open>2 ^ -1074\<close>.  The biased exponent is
  \<open>n div 2 ^ 52\<close>, the fraction \<open>n mod 2 ^ 52\<close>; exponent 0 is the subnormal range.
\<close>

definition sval :: "nat \<Rightarrow> nat" where
  "sval n = (if n < 2 ^ 52 then n else (2 ^ 52 + n mod 2 ^ 52) * 2 ^ (n div 2 ^ 52 - 1))"

text \<open>The greatest magnitude whose value is at most \<open>t\<close>.\<close>

fun mag_floor :: "nat \<Rightarrow> nat" where
  "mag_floor t = (if t < 2 ^ 53 then t else 2 ^ 52 + mag_floor (t div 2))"

declare mag_floor.simps [simp del]

text \<open>The magnitude nearest to the quotient \<open>num / den\<close>, the even one on a tie.\<close>

definition round_mag :: "nat \<Rightarrow> nat \<Rightarrow> nat" where
  "round_mag num den =
     (let n = mag_floor (num div den);
          mid = (sval n + sval (n + 1)) * den
      in if 2 * num < mid then n
         else if mid < 2 * num then n + 1
         else if even n then n else n + 1)"

text \<open>Rounding past the largest finite double gives an infinity.\<close>

definition of_ratio :: "bool \<Rightarrow> nat \<Rightarrow> nat \<Rightarrow> double" where
  "of_ratio s num den = mk s (min inf_mag (round_mag num den))"

definition ival :: "double \<Rightarrow> int" where
  "ival x = (if dneg x then - int (sval (mag x)) else int (sval (mag x)))"

instantiation double :: "{plus, minus, uminus, times, inverse}"
begin

definition uminus_double :: "double \<Rightarrow> double" where
  "uminus_double x = mk (\<not> dneg x) (mag x)"

definition plus_double :: "double \<Rightarrow> double \<Rightarrow> double" where
  "plus_double x y =
     (if is_nan x \<or> is_nan y \<or> (is_inf x \<and> is_inf y \<and> dneg x \<noteq> dneg y) then qnan
      else if is_inf x then x
      else if is_inf y then y
      else let s = ival x + ival y
           in if s = 0 then mk (dneg x \<and> dneg y) 0
              else of_ratio (s < 0) (nat \<bar>s\<bar>) 1)"

definition minus_double :: "double \<Rightarrow> double \<Rightarrow> double" where
  "minus_double x y = x + (- y)"

definition times_double :: "double \<Rightarrow> double \<Rightarrow> double" where
  "times_double x y =
     (if is_nan x \<or> is_nan y \<or> (is_inf x \<and> mag y = 0) \<or> (mag x = 0 \<and> is_inf y) then qnan
      else if is_inf x \<or> is_inf y then mk (dneg x \<noteq> dneg y) inf_mag
      else of_ratio (dneg x \<noteq> dneg y) (sval (mag x) * sval (mag y)) (2 ^ 1074))"

definition divide_double :: "double \<Rightarrow> double \<Rightarrow> double" where
  "divide_double x y =
     (if is_nan x \<or> is_nan y \<or> (is_inf x \<and> is_inf y) \<or> (mag x = 0 \<and> mag y = 0) then qnan
      else if is_inf x \<or> mag y = 0 then mk (dneg x \<noteq> dneg y) inf_mag
      else if is_inf y then mk (dneg x \<noteq> dneg y) 0
      else of_ratio (dneg x \<noteq> dneg y) (sval (mag x) * 2 ^ 1074) (sval (mag y)))"

definition inverse_double :: "double \<Rightarrow> double" where
  "inverse_double x = divide (F64 0x3ff0000000000000) x"

instance ..

end

section \<open>Rounding is monotone and exact\<close>

lemma sval_small: "n < 2 ^ 53 \<Longrightarrow> sval n = n"
proof (cases "n < 2 ^ 52")
  case False
  assume "n < 2 ^ 53"
  with False have "n div 2 ^ 52 = 1"
    by (intro div_nat_eqI) auto
  moreover from this have "n mod 2 ^ 52 = n - 2 ^ 52"
    by (simp add: modulo_nat_def)
  ultimately show ?thesis using False by (simp add: sval_def)
qed (simp add: sval_def)

lemma sval_rec:
  assumes "2 ^ 53 \<le> n"
  shows "sval n = 2 * sval (n - 2 ^ 52)"
proof -
  define k where "k = n div 2 ^ 52 - 2"
  from assms have "2 \<le> n div 2 ^ 52"
    using div_le_mono [OF assms, of "2 ^ 52"] by simp
  then have n: "n div 2 ^ 52 = k + 2" by (simp add: k_def)
  from assms have d: "(n - 2 ^ 52) div 2 ^ 52 = k + 1" and
    m: "(n - 2 ^ 52) mod 2 ^ 52 = n mod 2 ^ 52"
    using n by (simp_all add: le_div_geq le_mod_geq)
  from assms have "\<not> n < 2 ^ 52" "\<not> n - 2 ^ 52 < 2 ^ 52" by simp_all
  with n d m show ?thesis by (simp add: sval_def)
qed

lemma sval_Suc_less: "sval n < sval (n + 1)"
proof (induction n rule: less_induct)
  case (less n)
  consider "n + 1 < 2 ^ 53" | "n + 1 = 2 ^ 53" | "2 ^ 53 \<le> n" by linarith
  then show ?case
  proof cases
    case 1
    then show ?thesis by (simp add: sval_small)
  next
    case 2
    then have "sval (n + 1) = 2 * sval (2 ^ 52)" by (subst sval_rec) simp_all
    with 2 show ?thesis by (simp add: sval_small)
  next
    case 3
    then have "n + 1 - 2 ^ 52 = (n - 2 ^ 52) + 1" by simp
    moreover from 3 have "n - 2 ^ 52 < n" by simp
    ultimately show ?thesis
      using less.IH [of "n - 2 ^ 52"] 3 by (simp add: sval_rec)
  qed
qed

lemma sval_strict_mono: "m < n \<Longrightarrow> sval m < sval n"
  using lift_Suc_mono_less [of sval m n] sval_Suc_less by simp

lemma sval_less_iff [simp]: "(sval m < sval n) = (m < n)"
  by (metis linorder_neqE_nat not_less_iff_gr_or_eq sval_strict_mono)

lemma sval_le_iff [simp]: "(sval m \<le> sval n) = (m \<le> n)"
  by (simp add: linorder_not_less [symmetric])

lemma sval_eq_iff [simp]: "(sval m = sval n) = (m = n)"
  by (metis nat_neq_iff sval_less_iff)

lemma sval_0 [simp]: "sval 0 = 0"
  by (simp add: sval_small)

lemma sval_eq_0_iff [simp]: "(sval n = 0) = (n = 0)"
  using sval_eq_iff [of n 0] by simp

lemma sval_gt_0_iff [simp]: "(0 < sval n) = (0 < n)"
  using sval_less_iff [of 0 n] by simp

lemma mag_floor_ge: "2 ^ 52 \<le> t \<Longrightarrow> 2 ^ 52 \<le> mag_floor t"
  by (subst mag_floor.simps) simp

lemma mag_floor_bounds: "sval (mag_floor t) \<le> t \<and> t < sval (mag_floor t + 1)"
proof (induction t rule: mag_floor.induct)
  case (1 t)
  show ?case
  proof (cases "t < 2 ^ 53")
    case True
    then have "mag_floor t = t" and "sval t = t"
      by (simp_all add: mag_floor.simps sval_small)
    with sval_Suc_less [of t] show ?thesis by simp
  next
    case False
    define n where "n = mag_floor (t div 2)"
    from False have eq: "mag_floor t = 2 ^ 52 + n"
      by (subst mag_floor.simps) (simp add: n_def)
    from False have "2 ^ 52 \<le> n" unfolding n_def by (intro mag_floor_ge) simp
    then have s: "sval (2 ^ 52 + n) = 2 * sval n" "sval (2 ^ 52 + n + 1) = 2 * sval (n + 1)"
      by (simp_all add: sval_rec)
    from "1.IH" [OF False] have "sval n \<le> t div 2" "t div 2 < sval (n + 1)"
      by (simp_all add: n_def)
    with eq s show ?thesis by auto
  qed
qed

lemma mag_floor_unique:
  assumes "sval n \<le> t" and "t < sval (n + 1)"
  shows "mag_floor t = n"
proof -
  from mag_floor_bounds [of t] assms
  have "sval (mag_floor t) < sval (n + 1)" and "sval n < sval (mag_floor t + 1)"
    by linarith+
  then show ?thesis by simp
qed

lemma mag_floor_mono: "s \<le> t \<Longrightarrow> mag_floor s \<le> mag_floor t"
proof -
  assume "s \<le> t"
  with mag_floor_bounds [of s] mag_floor_bounds [of t]
  have "sval (mag_floor s) < sval (mag_floor t + 1)" by linarith
  then show ?thesis by simp
qed

lemma mag_floor_eval:
  assumes "2 ^ (52 + e) \<le> t" and "t < 2 ^ (53 + e)"
  shows "mag_floor t = e * 2 ^ 52 + t div 2 ^ e"
  using assms
proof (induction e arbitrary: t)
  case 0
  then show ?case by (simp add: mag_floor.simps)
next
  case (Suc e)
  have "(2::nat) ^ 53 \<le> 2 ^ (52 + Suc e)" by (rule power_increasing) simp_all
  with Suc.prems have "\<not> t < 2 ^ 53" by linarith
  then have "mag_floor t = 2 ^ 52 + mag_floor (t div 2)"
    by (subst mag_floor.simps) simp
  moreover have "2 ^ (52 + e) \<le> t div 2" and "t div 2 < 2 ^ (53 + e)"
    using Suc.prems unfolding add_Suc_right power_Suc by linarith+
  ultimately show ?case using Suc.IH [of "t div 2"] by (simp add: div_mult2_eq)
qed

lemma round_mag_exact: "0 < den \<Longrightarrow> round_mag (sval n * den) den = n"
proof -
  assume d: "0 < den"
  then have n: "mag_floor (sval n * den div den) = n"
    using sval_Suc_less [of n] by (intro mag_floor_unique) simp_all
  have "2 * (sval n * den) < (sval n + sval (n + 1)) * den"
    using sval_Suc_less [of n] d by (simp add: algebra_simps)
  with n show ?thesis by (simp add: round_mag_def)
qed

lemma round_mag_between:
  "mag_floor (num div den) \<le> round_mag num den \<and>
   round_mag num den \<le> mag_floor (num div den) + 1"
  by (simp add: round_mag_def Let_def)

lemma round_mag_mono:
  assumes d: "0 < den" "0 < den'" and le: "num * den' \<le> num' * den"
  shows "round_mag num den \<le> round_mag num' den'"
proof -
  let ?n = "mag_floor (num div den)" and ?n' = "mag_floor (num' div den')"
  have "num div den * den * den' \<le> num' * den"
    using le by (meson div_times_less_eq_dividend le_trans mult_le_mono1)
  then have "num div den * den' \<le> num'" using d by simp
  then have "num div den \<le> num' div den'"
    using d by (simp add: less_eq_div_iff_mult_less_eq)
  then have nn: "?n \<le> ?n'" by (rule mag_floor_mono)
  show ?thesis
  proof (cases "?n = ?n'")
    case False
    with nn round_mag_between [of num den] round_mag_between [of num' den']
    show ?thesis by linarith
  next
    case True
    let ?c = "sval ?n + sval (?n + 1)"
    have up: "2 * num * den' \<le> 2 * num' * den" using le by simp
    have a: "?c * den \<le> 2 * num \<Longrightarrow> ?c * den' \<le> 2 * num'"
    proof -
      assume "?c * den \<le> 2 * num"
      then have "?c * den * den' \<le> 2 * num' * den"
        using up by (meson le_trans mult_le_mono1)
      then show ?thesis using d by (simp add: mult.assoc mult.commute [of den])
    qed
    have b: "?c * den < 2 * num \<Longrightarrow> ?c * den' < 2 * num'"
    proof -
      assume "?c * den < 2 * num"
      then have "?c * den * den' < 2 * num' * den"
        using up d by (meson le_trans less_le_trans mult_less_mono1 nat_mult_less_cancel1)
      then show ?thesis using d by (simp add: mult.assoc mult.commute [of den])
    qed
    show ?thesis using True a b by (auto simp: round_mag_def Let_def)
  qed
qed

section \<open>Sign, magnitude and order\<close>

lemma mag_less [simp]: "mag x < 9223372036854775808"
  by (simp add: mag_def)

lemma inf_mag_less [simp]: "inf_mag < 9223372036854775808"
  by (simp add: inf_mag_def)

lemma unat_mk:
  "m < 9223372036854775808 \<Longrightarrow> unat (bits_of (mk s m)) = m + (if s then 2 ^ 63 else 0)"
  unfolding mk_def by (simp add: unat_of_nat del: of_nat_add)

lemma mag_mk [simp]: "m < 9223372036854775808 \<Longrightarrow> mag (mk s m) = m"
  unfolding mag_def by (subst unat_mk) simp_all

lemma dneg_mk [simp]: "m < 9223372036854775808 \<Longrightarrow> dneg (mk s m) = s"
  unfolding dneg_def by (subst unat_mk) simp_all

lemma mk_dneg_mag [simp]: "mk (dneg x) (mag x) = x"
proof (cases x)
  case (F64 w)
  have "(if 2 ^ 63 \<le> unat w then 2 ^ 63 else 0) = 2 ^ 63 * (unat w div 2 ^ 63)"
    using unat_u64_less [of w] div_nat_eqI [of "2 ^ 63" 1 "unat w"] by auto
  then have "unat w mod 2 ^ 63 + (if 2 ^ 63 \<le> unat w then 2 ^ 63 else 0) = unat w"
    by (simp only: mod_mult_div_eq)
  with F64 show ?thesis by (simp add: mk_def dneg_def mag_def)
qed

lemma nan_or_inf_or_finite: "\<not> is_nan x \<Longrightarrow> is_inf x \<or> is_finite x"
  by (auto simp: is_nan_def is_inf_def is_finite_def)

lemma finite_not_nan [simp]: "is_finite x \<Longrightarrow> \<not> is_nan x"
  by (simp add: is_nan_def is_finite_def)

lemma finite_not_inf [simp]: "is_finite x \<Longrightarrow> \<not> is_inf x"
  by (simp add: is_inf_def is_finite_def)

lemma mag_uminus [simp]: "mag (- (x :: double)) = mag x"
  by (simp add: uminus_double_def)

lemma dneg_uminus [simp]: "dneg (- (x :: double)) = (\<not> dneg x)"
  by (simp add: uminus_double_def)

lemma class_uminus [simp]:
  "is_nan (- x) = is_nan x" "is_inf (- x) = is_inf x" "is_finite (- x) = is_finite x"
  by (simp_all add: is_nan_def is_inf_def is_finite_def)

text \<open>On finite doubles the order of the patterns is the order of the values.\<close>

lemma neg_int_less_int: "(- int a < int b) = (0 < a \<or> 0 < b)" and
  int_less_neg_int: "\<not> int a < - int b"
  by auto

lemma dkey_less_ival: "(dkey x < dkey y) = (ival x < ival y)"
  by (cases "dneg x"; cases "dneg y")
    (simp_all add: dkey_def ival_def neg_int_less_int int_less_neg_int)

lemma less_double_ival:
  "is_finite x \<Longrightarrow> is_finite y \<Longrightarrow> (x < y) = (ival x < ival y)"
  by (simp add: less_double_def dkey_less_ival)

lemma double_less_irrefl [simp]: "\<not> (x :: double) < x"
  by (simp add: less_double_def)

lemma double_less_trans: "(x :: double) < y \<Longrightarrow> y < z \<Longrightarrow> x < z"
  by (auto simp: less_double_def)

lemma double_less_asym: "(x :: double) < y \<Longrightarrow> \<not> y < x"
  by (auto simp: less_double_def)

lemma double_less_cotrans:
  "(x :: double) < z \<Longrightarrow> \<not> is_nan y \<Longrightarrow> x < y \<or> y < z"
  by (auto simp: less_double_def)

lemma not_less_double: "\<not> is_nan x \<Longrightarrow> \<not> is_nan y \<Longrightarrow> (\<not> x < y) = (y \<le> x)"
  by (auto simp: less_double_def less_eq_double_def)

lemma nan_unordered [simp]:
  "is_nan x \<Longrightarrow> \<not> x < y" "is_nan y \<Longrightarrow> \<not> x < y"
  "is_nan x \<Longrightarrow> \<not> x \<le> y" "is_nan y \<Longrightarrow> \<not> x \<le> y"
  by (simp_all add: less_double_def less_eq_double_def)

section \<open>Monotonicity of the arithmetic\<close>

lemma mag_of_ratio [simp]: "mag (of_ratio s a b) = min inf_mag (round_mag a b)"
  unfolding of_ratio_def by (rule mag_mk) (simp add: min.strict_coboundedI1)

lemma dneg_of_ratio [simp]: "dneg (of_ratio s a b) = s"
  unfolding of_ratio_def by (rule dneg_mk) (simp add: min.strict_coboundedI1)

lemma of_ratio_not_nan [simp]: "\<not> is_nan (of_ratio s a b)"
  by (simp add: is_nan_def)

lemma round_mag_exact1: "round_mag (sval n) 1 = n"
  using round_mag_exact [of 1 n] by simp

lemma times_double_shrinks:
  assumes x: "is_finite x" "\<not> dneg x" and f: "is_finite f" "\<not> dneg f"
    and le1: "sval (mag f) \<le> 2 ^ 1074"
  shows "is_finite (x * f) \<and> \<not> dneg (x * f) \<and> mag (x * f) \<le> mag x"
proof -
  have "round_mag (sval (mag x) * sval (mag f)) (2 ^ 1074)
      \<le> round_mag (sval (mag x) * 2 ^ 1074) (2 ^ 1074)"
    using le1 by (intro round_mag_mono) simp_all
  also have "\<dots> = mag x" by (rule round_mag_exact) simp
  finally show ?thesis
    using x f by (auto simp: times_double_def is_finite_def min_def)
qed

lemma plus_double_nonneg:
  assumes x: "is_finite x" "\<not> dneg x" and b: "is_finite b" "\<not> dneg b"
  shows "x + b = (let s = sval (mag x) + sval (mag b)
                  in if s = 0 then mk False 0 else of_ratio False s 1)"
proof -
  have "ival x + ival b = int (sval (mag x) + sval (mag b))"
    using x b by (simp add: ival_def)
  then show ?thesis using x b by (simp add: plus_double_def Let_def del: of_nat_add)
qed

lemma minus_double_nonneg:
  assumes x: "is_finite x" "\<not> dneg x" and b: "is_finite b" "\<not> dneg b" and le: "mag b \<le> mag x"
  shows "x - b = (let s = sval (mag x) - sval (mag b)
                  in if s = 0 then mk False 0 else of_ratio False s 1)"
proof -
  have "sval (mag b) \<le> sval (mag x)" using le by simp
  then have "ival x + ival (- b) = int (sval (mag x) - sval (mag b))"
    using x b by (simp add: ival_def)
  then show ?thesis
    using x b by (simp add: minus_double_def plus_double_def Let_def del: of_nat_diff)
qed

lemma plus_double_ge:
  assumes x: "is_finite x" "\<not> dneg x" and b: "is_finite b" "\<not> dneg b"
  shows "x \<le> x + b"
proof -
  let ?s = "sval (mag x) + sval (mag b)"
  have "round_mag (sval (mag x)) 1 \<le> round_mag ?s 1"
    by (rule round_mag_mono) simp_all
  then have "mag x \<le> round_mag ?s 1" by (simp only: round_mag_exact1)
  then show ?thesis
    using x plus_double_nonneg [OF x b]
    by (auto simp: less_eq_double_def dkey_def is_finite_def is_nan_def Let_def)
qed

lemma minus_double_le:
  assumes x: "is_finite x" "\<not> dneg x" and b: "is_finite b" "\<not> dneg b" and le: "mag b \<le> mag x"
  shows "x - b \<le> x \<and> \<not> dneg (x - b)"
proof -
  let ?s = "sval (mag x) - sval (mag b)"
  have "round_mag ?s 1 \<le> round_mag (sval (mag x)) 1"
    by (rule round_mag_mono) simp_all
  then have "round_mag ?s 1 \<le> mag x" by (simp only: round_mag_exact1)
  then show ?thesis
    using x minus_double_nonneg [OF x b le]
    by (auto simp: less_eq_double_def dkey_def is_finite_def is_nan_def Let_def)
qed

text \<open>Negation commutes with rounding, so products and sums mirror at zero.\<close>

lemma uminus_mk: "m < 9223372036854775808 \<Longrightarrow> - mk s m = mk (\<not> s) m"
  by (simp add: uminus_double_def)

lemma uminus_of_ratio: "- of_ratio s a b = of_ratio (\<not> s) a b"
  unfolding of_ratio_def by (rule uminus_mk) (simp add: min.strict_coboundedI1)

lemma times_double_uminus_left:
  "is_finite x \<Longrightarrow> is_finite y \<Longrightarrow> (- x) * y = - (x * (y :: double))"
  by (auto simp: times_double_def uminus_of_ratio)

lemma plus_double_uminus:
  "is_finite x \<Longrightarrow> is_finite y \<Longrightarrow> ival x + ival y \<noteq> 0 \<Longrightarrow> (- x) + (- y) = - (x + (y :: double))"
proof -
  assume f: "is_finite x" "is_finite y" and nz: "ival x + ival y \<noteq> 0"
  have "ival (- x) + ival (- y) = - (ival x + ival y)" by (simp add: ival_def)
  moreover have "(- (ival x + ival y) < 0) = (\<not> ival x + ival y < 0)" using nz by linarith
  moreover have "\<bar>- ival x - ival y\<bar> = \<bar>ival x + ival y\<bar>" by linarith
  ultimately show ?thesis using f nz by (simp add: plus_double_def Let_def uminus_of_ratio)
qed

section \<open>Evaluating rounded results\<close>

text \<open>
  Where a quotient is scaled into one binade, rounding is the half-even rounding of an
  integer quotient; these rules evaluate an operation on literals without expanding the
  powers of two.
\<close>

definition rne :: "nat \<Rightarrow> nat \<Rightarrow> nat" where
  "rne n d =
     (let q = n div d
      in if 2 * (n mod d) < d then q
         else if d < 2 * (n mod d) then q + 1
         else if even q then q else q + 1)"

lemma sval_normal:
  assumes "2 ^ 52 \<le> m" and "m \<le> 2 ^ 53"
  shows "sval (k * 2 ^ 52 + m) = m * 2 ^ k"
proof (induction k)
  case 0
  have "sval (2 ^ 53) = 2 * sval (2 ^ 53 - 2 ^ 52)" by (rule sval_rec) simp
  then show ?case using assms by (cases "m < 2 ^ 53") (simp_all add: sval_small)
next
  case (Suc k)
  have "sval (Suc k * 2 ^ 52 + m) = 2 * sval (Suc k * 2 ^ 52 + m - 2 ^ 52)"
    using assms by (intro sval_rec) simp
  with Suc.IH show ?case by simp
qed

lemma round_mag_scaled:
  assumes d: "0 < d" "0 < den" and eq: "num * d = n * 2 ^ e * den"
    and lo: "2 ^ 52 * d \<le> n" and hi: "n < 2 ^ 53 * d"
  shows "round_mag num den = e * 2 ^ 52 + rne n d"
proof -
  define q r where "q = n div d" and "r = n mod d"
  have n: "n = q * d + r" and r: "r < d" using d by (simp_all add: q_def r_def)
  define N where "N = e * 2 ^ 52 + q"
  have q: "2 ^ 52 \<le> q" "q < 2 ^ 53"
    using lo hi d by (simp_all add: q_def less_eq_div_iff_mult_less_eq less_mult_imp_div_less)
  have s: "sval N = q * 2 ^ e" "sval (N + 1) = (q + 1) * 2 ^ e"
    using q sval_normal [of q e] sval_normal [of "q + 1" e] by (simp_all add: N_def add.assoc)
  define c where "c = 2 ^ e * den"
  have c: "0 < c" using d by (simp add: c_def)
  have eq': "num * d = n * c" using eq by (simp add: c_def mult.assoc)
  have "q * c * d \<le> num * d" unfolding eq' n by (simp add: algebra_simps)
  then have a: "q * c \<le> num" using d by simp
  have "num * d < (q + 1) * c * d" unfolding eq' n using r c by (simp add: algebra_simps)
  then have b: "num < (q + 1) * c" using d by simp
  have fl: "mag_floor (num div den) = N"
  proof (rule mag_floor_unique)
    show "sval N \<le> num div den"
      using a d by (simp add: s c_def less_eq_div_iff_mult_less_eq mult.assoc)
    show "num div den < sval (N + 1)"
      unfolding s using b by (intro less_mult_imp_div_less) (simp add: c_def algebra_simps)
  qed
  have mid: "(sval N + sval (N + 1)) * den = (2 * q + 1) * c"
    unfolding s by (simp add: c_def algebra_simps)
  have l: "2 * num * d = (2 * q * d + 2 * r) * c" using eq' n by (simp add: algebra_simps)
  have m: "(2 * q + 1) * c * d = (2 * q * d + d) * c" by (simp add: algebra_simps)
  have "(2 * num < (2 * q + 1) * c) = (2 * num * d < (2 * q + 1) * c * d)" using d by simp
  moreover have "((2 * q + 1) * c < 2 * num) = ((2 * q + 1) * c * d < 2 * num * d)" using d by simp
  ultimately have "(2 * num < (2 * q + 1) * c) = (2 * r < d)"
    and "((2 * q + 1) * c < 2 * num) = (d < 2 * r)"
    unfolding l m using c by simp_all
  then show ?thesis
    unfolding round_mag_def Let_def fl mid rne_def q_def [symmetric] r_def [symmetric]
    by (simp add: N_def)
qed

lemma round_mag_times:
  assumes "m * 2 ^ k = sx" "n * 2 ^ l = sy" "k + l + j = 1074 + e"
    and "2 ^ 52 * 2 ^ j \<le> m * n" "m * n < 2 ^ 53 * 2 ^ j"
  shows "round_mag (sx * sy) (2 ^ 1074) = e * 2 ^ 52 + rne (m * n) (2 ^ j)"
proof (rule round_mag_scaled)
  have "(2::nat) ^ k * 2 ^ l * 2 ^ j = 2 ^ e * 2 ^ 1074"
    using assms(3) by (simp only: power_add [symmetric] add.commute)
  then show "sx * sy * 2 ^ j = m * n * 2 ^ e * 2 ^ 1074"
    unfolding assms(1,2) [symmetric] by (simp only: ac_simps)
qed (use assms in simp_all)

lemma round_mag_divide:
  assumes "m * 2 ^ k = sx" "n * 2 ^ l = sy" "k + 1074 = l + j + e"
    and "2 ^ 52 * n \<le> m * 2 ^ j" "m * 2 ^ j < 2 ^ 53 * n"
  shows "round_mag (sx * 2 ^ 1074) sy = e * 2 ^ 52 + rne (m * 2 ^ j) n"
proof (rule round_mag_scaled)
  have "(2::nat) ^ k * 2 ^ 1074 = 2 ^ l * 2 ^ j * 2 ^ e"
    using assms(3) by (simp only: power_add [symmetric])
  then show "sx * 2 ^ 1074 * n = m * 2 ^ j * 2 ^ e * sy"
    unfolding assms(1,2) [symmetric] by (simp only: ac_simps)
  show "0 < n" using assms(4,5) by (cases n) simp_all
  then show "0 < sy" using assms(2) by auto
qed (use assms in simp_all)

lemma round_mag_int:
  assumes "s = M * 2 ^ l" "2 ^ 52 * 2 ^ j \<le> M" "M < 2 ^ 53 * 2 ^ j"
  shows "round_mag s 1 = (l + j) * 2 ^ 52 + rne M (2 ^ j)"
  by (rule round_mag_scaled) (use assms in \<open>simp_all add: power_add\<close>)

end
