(* ===== verification/Orders.thy ===== *)
theory Orders
  imports Binary64
begin

text \<open>
  The data model of \<open>include/order.hpp\<close>: sides, order types, orders and trades, and the
  fixed-size symbol.  A \<open>std::string\<close> and a \<open>char\<close> array are lists of bytes; an order's
  symbol array always has \<open>kSymbolLen\<close> bytes (\<open>order_wf\<close>).
\<close>

datatype Side = BUY | SELL
datatype OrderType = LIMIT | MARKET

definition kSymbolLen :: nat where
  "kSymbolLen = 8"

record Order =
  order_id :: u64
  client_id :: u64
  side :: Side
  otype :: OrderType
  symbol :: "u8 list"
  price :: double
  quantity :: u64
  remaining_quantity :: u64
  timestamp :: u64

record Trade =
  buy_order_id :: u64
  sell_order_id :: u64
  t_price :: double
  t_quantity :: u64
  t_timestamp :: u64

text \<open>The member initialisers of \<open>Order\<close>.\<close>

definition default_order :: Order where
  "default_order =
     \<lparr>order_id = 0, client_id = 0, side = BUY, otype = LIMIT,
      symbol = replicate kSymbolLen 0, price = F64 0, quantity = 0,
      remaining_quantity = 0, timestamp = 0\<rparr>"

text \<open>\<open>memset\<close> of the whole array, then \<open>memcpy\<close> of at most \<open>kSymbolLen\<close> bytes.\<close>

definition set_symbol :: "u8 list \<Rightarrow> Order \<Rightarrow> Order" where
  "set_symbol s o1 =
     (let cleared = replicate kSymbolLen 0; n = min (length s) kSymbolLen
      in o1\<lparr>symbol := take n s @ drop n cleared\<rparr>)"

text \<open>\<open>std::string(symbol, strnlen(symbol, kSymbolLen))\<close>.\<close>

definition symbol_str :: "Order \<Rightarrow> u8 list" where
  "symbol_str o1 = takeWhile (\<lambda>c. c \<noteq> 0) (take kSymbolLen (symbol o1))"

definition order_wf :: "Order \<Rightarrow> bool" where
  "order_wf o1 = (length (symbol o1) = kSymbolLen)"

fun side_to_string :: "Side \<Rightarrow> string" where
  "side_to_string s = (if s = BUY then ''BUY'' else ''SELL'')"

fun type_to_string :: "OrderType \<Rightarrow> string" where
  "type_to_string t = (if t = LIMIT then ''LIMIT'' else ''MARKET'')"

lemma Side_neq_iff [simp]: "(s \<noteq> BUY) = (s = SELL)" "(s \<noteq> SELL) = (s = BUY)"
  by (cases s; simp)+

lemma OrderType_neq_iff [simp]: "(t \<noteq> LIMIT) = (t = MARKET)" "(t \<noteq> MARKET) = (t = LIMIT)"
  by (cases t; simp)+

lemma takeWhile_replicate_zero: "takeWhile (\<lambda>c. c \<noteq> 0) (xs @ replicate n (0 :: u8)) = takeWhile (\<lambda>c. c \<noteq> 0) xs"
  by (induction xs) (cases n; simp)+

lemma set_symbol_layout:
  "symbol (set_symbol s o1) = take 8 s @ replicate (8 - length s) 0"
  by (simp add: set_symbol_def kSymbolLen_def min_def)

lemma set_symbol_wf: "order_wf (set_symbol s o1)"
  by (simp add: order_wf_def set_symbol_layout kSymbolLen_def)

lemma symbol_str_length: "length (symbol_str o1) \<le> 8"
  unfolding symbol_str_def kSymbolLen_def
  by (rule le_trans [OF length_takeWhile_le]) simp

text \<open>
  A symbol read back from an order is the stored string cut at its first NUL byte and at
  eight bytes.
\<close>

lemma symbol_str_set_symbol:
  "symbol_str (set_symbol s o1) = takeWhile (\<lambda>c. c \<noteq> 0) (take 8 s)"
  by (simp add: symbol_str_def set_symbol_layout kSymbolLen_def takeWhile_replicate_zero)

lemma takeWhile_all: "\<forall>x \<in> set xs. P x \<Longrightarrow> takeWhile P xs = xs"
  by (induction xs) auto

end
