(* ===== verification/Std_Map.thy ===== *)
theory Std_Map
  imports Prelude
begin

text \<open>
  \<open>std::map\<close> with a comparator: the in-order sequence of its entries.  The operations
  locate a key as \<open>lower_bound\<close> does, by the comparator alone: the first entry whose key
  is not before the argument, which is the entry sought when the argument is not before
  it either.  Two keys are the same entry when neither is before the other, and an entry
  keeps the key it was created with.  The laws hold where the comparator is a strict weak
  order, the requirement \<open>std::map\<close> puts on its user, stated here as the locale
  \<open>key_order\<close> over the keys that satisfy \<open>ok\<close>.
\<close>

section \<open>Operations\<close>

type_synonym ('k, 'v) smap = "('k \<times> 'v) list"

fun smap_find :: "('k \<Rightarrow> 'k \<Rightarrow> bool) \<Rightarrow> 'k \<Rightarrow> ('k, 'v) smap \<Rightarrow> 'v option" where
  "smap_find lt k [] = None"
| "smap_find lt k ((k', v) # m) =
     (if lt k' k then smap_find lt k m else if lt k k' then None else Some v)"

text \<open>\<open>m[k] = f(m[k])\<close>, where \<open>operator[]\<close> creates the entry with value \<open>d\<close>.\<close>

fun smap_update ::
  "('k \<Rightarrow> 'k \<Rightarrow> bool) \<Rightarrow> 'k \<Rightarrow> ('v \<Rightarrow> 'v) \<Rightarrow> 'v \<Rightarrow> ('k, 'v) smap \<Rightarrow> ('k, 'v) smap" where
  "smap_update lt k f d [] = [(k, f d)]"
| "smap_update lt k f d ((k', v) # m) =
     (if lt k' k then (k', v) # smap_update lt k f d m
      else if lt k k' then (k, f d) # (k', v) # m
      else (k', f v) # m)"

text \<open>\<open>it->second = v\<close> for the iterator \<open>it\<close> that \<open>find(k)\<close> returned.\<close>

fun smap_assign :: "('k \<Rightarrow> 'k \<Rightarrow> bool) \<Rightarrow> 'k \<Rightarrow> 'v \<Rightarrow> ('k, 'v) smap \<Rightarrow> ('k, 'v) smap" where
  "smap_assign lt k v [] = []"
| "smap_assign lt k v ((k', v') # m) =
     (if lt k' k then (k', v') # smap_assign lt k v m
      else if lt k k' then (k', v') # m
      else (k', v) # m)"

text \<open>\<open>erase(it)\<close> for the iterator \<open>it\<close> that \<open>find(k)\<close> returned.\<close>

fun smap_erase :: "('k \<Rightarrow> 'k \<Rightarrow> bool) \<Rightarrow> 'k \<Rightarrow> ('k, 'v) smap \<Rightarrow> ('k, 'v) smap" where
  "smap_erase lt k [] = []"
| "smap_erase lt k ((k', v) # m) =
     (if lt k' k then (k', v) # smap_erase lt k m
      else if lt k k' then (k', v) # m
      else m)"

definition smap_sorted :: "('k \<Rightarrow> 'k \<Rightarrow> bool) \<Rightarrow> ('k \<Rightarrow> bool) \<Rightarrow> ('k, 'v) smap \<Rightarrow> bool" where
  "smap_sorted lt ok m = (sorted_wrt lt (map fst m) \<and> list_all ok (map fst m))"

lemma smap_sorted_Nil [simp]: "smap_sorted lt ok []"
  by (simp add: smap_sorted_def)

lemma smap_sorted_Cons [simp]:
  "smap_sorted lt ok ((k, v) # m) =
     (ok k \<and> (\<forall>k' \<in> fst ` set m. lt k k') \<and> smap_sorted lt ok m)"
  by (auto simp: smap_sorted_def)

section \<open>The comparator's contract and what it gives\<close>

locale key_order =
  fixes lt :: "'k \<Rightarrow> 'k \<Rightarrow> bool" and ok :: "'k \<Rightarrow> bool"
  assumes lt_irrefl: "\<not> lt x x"
    and lt_trans: "lt x y \<Longrightarrow> lt y z \<Longrightarrow> lt x z"
    and lt_cotrans: "lt x z \<Longrightarrow> ok y \<Longrightarrow> lt x y \<or> lt y z"
begin

lemma lt_asym: "lt x y \<Longrightarrow> \<not> lt y x"
  using lt_irrefl lt_trans by blast

lemma equiv_lt_left: "\<not> lt x y \<Longrightarrow> \<not> lt y x \<Longrightarrow> ok y \<Longrightarrow> lt x z \<Longrightarrow> lt y z"
  using lt_cotrans by blast

lemma equiv_lt_right: "\<not> lt x y \<Longrightarrow> \<not> lt y x \<Longrightarrow> ok y \<Longrightarrow> lt z x \<Longrightarrow> lt z y"
  using lt_cotrans by blast

lemma keys_update:
  "(k', v) \<in> set (smap_update lt k f d m) \<Longrightarrow> k' = k \<or> k' \<in> fst ` set m"
  by (induction m) (force split: if_splits)+

lemma keys_assign: "map fst (smap_assign lt k v m) = map fst m"
  by (induction m) auto

lemma set_erase: "set (smap_erase lt k m) \<subseteq> set m"
  by (induction m) (auto split: if_splits)

lemma sorted_update:
  "smap_sorted lt ok m \<Longrightarrow> ok k \<Longrightarrow> smap_sorted lt ok (smap_update lt k f d m)"
proof (induction m)
  case Nil
  then show ?case by simp
next
  case (Cons e m)
  obtain k' v where e: "e = (k', v)" by fastforce
  consider "lt k' k" | "\<not> lt k' k" "lt k k'" | "\<not> lt k' k" "\<not> lt k k'" by blast
  then show ?case
  proof cases
    case 1
    then show ?thesis using Cons e by (auto dest!: keys_update)
  next
    case 2
    then show ?thesis using Cons.prems e lt_trans by auto
  next
    case 3
    then show ?thesis using Cons.prems e by simp
  qed
qed

lemma sorted_assign: "smap_sorted lt ok m \<Longrightarrow> smap_sorted lt ok (smap_assign lt k v m)"
  by (simp add: smap_sorted_def keys_assign)

lemma sorted_erase: "smap_sorted lt ok m \<Longrightarrow> smap_sorted lt ok (smap_erase lt k m)"
proof (induction m)
  case Nil
  then show ?case by simp
next
  case (Cons e m)
  then show ?case using set_erase [of k m] by (cases e) auto
qed

lemma find_update_same:
  "smap_find lt k (smap_update lt k f d m) =
     Some (f (case smap_find lt k m of None \<Rightarrow> d | Some v \<Rightarrow> v))"
  by (induction m) (auto simp: lt_irrefl)

lemma find_erase_same:
  "smap_sorted lt ok m \<Longrightarrow> ok k \<Longrightarrow> smap_find lt k (smap_erase lt k m) = None"
proof (induction m)
  case Nil
  then show ?case by simp
next
  case (Cons e m)
  obtain k' v where e: "e = (k', v)" by fastforce
  have "smap_find lt k m = None" if "\<not> lt k' k" "\<not> lt k k'"
  proof (cases m)
    case (Cons e' m')
    moreover obtain k'' v'' where "e' = (k'', v'')" by fastforce
    moreover have "lt k k''"
      using Cons.prems e that calculation equiv_lt_left [of k' k k''] by auto
    ultimately show ?thesis using lt_asym [of k k''] by simp
  qed simp
  with Cons e show ?case by auto
qed

lemma find_in: "smap_find lt k m = Some v \<Longrightarrow> \<exists>k'. (k', v) \<in> set m \<and> \<not> lt k' k \<and> \<not> lt k k'"
  by (induction m) (auto split: if_splits)

end

end
