(* ===== verification/OrderBook.thy ===== *)
theory OrderBook
  imports Orders Std_Map
begin

text \<open>
  The order book of \<open>include/order_book.hpp\<close> and \<open>src/order_book.cpp\<close>: two price-level
  maps and the cancel index.  Each side is an \<open>smap\<close> from a price to the FIFO deque of
  the orders resting there, with the side's comparator (\<open>std::greater\<close> for bids,
  \<open>std::less\<close> for asks), so that the first entry is the best price of its side.

  \<open>book_ok\<close> is the shape every operation keeps: levels strictly sorted by price, no empty
  level, every order on its side and at its price with something left to fill.
  \<open>index_ok\<close> says that the cancel index describes exactly the resting orders; it needs
  order ids to be distinct, which the book does not check.
\<close>

section \<open>State and operations\<close>

type_synonym levels = "(double, Order list) smap"

record CancelInfo =
  ci_side :: Side
  ci_price :: double

record OrderBook =
  bids :: levels
  asks :: levels
  cancel_index :: "u64 \<rightharpoonup> CancelInfo"

definition empty_book :: OrderBook where
  "empty_book = \<lparr>bids = [], asks = [], cancel_index = Map.empty\<rparr>"

text \<open>The comparators of \<open>BidMap\<close> (\<open>std::greater\<close>) and \<open>AskMap\<close> (\<open>std::less\<close>).\<close>

fun side_lt :: "Side \<Rightarrow> double \<Rightarrow> double \<Rightarrow> bool" where
  "side_lt BUY x y = (x > y)"
| "side_lt SELL x y = (x < y)"

definition add_resting_order :: "Order \<Rightarrow> OrderBook \<Rightarrow> OrderBook" where
  "add_resting_order o1 b =
     (let oid = order_id o1; s = side o1; p = price o1;
          b' = (if s = BUY
                then b\<lparr>bids := smap_update (side_lt BUY) p (\<lambda>dq. dq @ [o1]) [] (bids b)\<rparr>
                else b\<lparr>asks := smap_update (side_lt SELL) p (\<lambda>dq. dq @ [o1]) [] (asks b)\<rparr>)
      in b'\<lparr>cancel_index := (cancel_index b')(oid \<mapsto> \<lparr>ci_side = s, ci_price = p\<rparr>)\<rparr>)"

text \<open>
  The scan over a level's deque: \<open>Some\<close> of the deque without the first order that has the
  id, \<open>None\<close> when the loop runs to the end.
\<close>

fun erase_by_id :: "u64 \<Rightarrow> Order list \<Rightarrow> Order list option" where
  "erase_by_id oid [] = None"
| "erase_by_id oid (o1 # dq) =
     (if order_id o1 = oid then Some dq else map_option ((#) o1) (erase_by_id oid dq))"

text \<open>The body of either branch of \<open>cancel_order\<close>, on the map of its side.\<close>

definition cancel_in_level :: "Side \<Rightarrow> u64 \<Rightarrow> double \<Rightarrow> levels \<Rightarrow> levels" where
  "cancel_in_level s oid p m =
     (case smap_find (side_lt s) p m of
        None \<Rightarrow> m
      | Some dq \<Rightarrow>
          (case erase_by_id oid dq of
             None \<Rightarrow> m
           | Some dq' \<Rightarrow>
               (if dq' = [] then smap_erase (side_lt s) p m
                else smap_assign (side_lt s) p dq' m)))"

definition cancel_order :: "u64 \<Rightarrow> OrderBook \<Rightarrow> bool \<times> OrderBook" where
  "cancel_order oid b =
     (case cancel_index b oid of
        None \<Rightarrow> (False, b)
      | Some info \<Rightarrow>
          (let b' = (if ci_side info = BUY
                     then b\<lparr>bids := cancel_in_level BUY oid (ci_price info) (bids b)\<rparr>
                     else b\<lparr>asks := cancel_in_level SELL oid (ci_price info) (asks b)\<rparr>)
           in (True, b'\<lparr>cancel_index := (cancel_index b')(oid := None)\<rparr>)))"

definition best_bid :: "OrderBook \<Rightarrow> double option" where
  "best_bid b = (case bids b of [] \<Rightarrow> None | (p, _) # _ \<Rightarrow> Some p)"

definition best_ask :: "OrderBook \<Rightarrow> double option" where
  "best_ask b = (case asks b of [] \<Rightarrow> None | (p, _) # _ \<Rightarrow> Some p)"

definition empty_side :: "Side \<Rightarrow> OrderBook \<Rightarrow> bool" where
  "empty_side s b = (if s = BUY then bids b = [] else asks b = [])"

definition remove_from_index :: "u64 \<Rightarrow> OrderBook \<Rightarrow> OrderBook" where
  "remove_from_index oid b = b\<lparr>cancel_index := (cancel_index b)(oid := None)\<rparr>"

section \<open>Invariants\<close>

definition same_price :: "double \<Rightarrow> double \<Rightarrow> bool" where
  "same_price x y = (\<not> is_nan x \<and> \<not> is_nan y \<and> \<not> x < y \<and> \<not> y < x)"

definition resting_ok :: "Side \<Rightarrow> double \<Rightarrow> Order \<Rightarrow> bool" where
  "resting_ok s p o1 =
     (side o1 = s \<and> otype o1 = LIMIT \<and> same_price (price o1) p \<and>
      0 < remaining_quantity o1 \<and> remaining_quantity o1 \<le> quantity o1)"

definition level_ok :: "Side \<Rightarrow> double \<times> Order list \<Rightarrow> bool" where
  "level_ok s l = (snd l \<noteq> [] \<and> list_all (resting_ok s (fst l)) (snd l))"

definition levels_ok :: "Side \<Rightarrow> levels \<Rightarrow> bool" where
  "levels_ok s m = (smap_sorted (side_lt s) (\<lambda>p. \<not> is_nan p) m \<and> list_all (level_ok s) m)"

definition book_ok :: "OrderBook \<Rightarrow> bool" where
  "book_ok b = (levels_ok BUY (bids b) \<and> levels_ok SELL (asks b))"

text \<open>The resting orders of a side in priority order, and those of the book.\<close>

definition flat :: "levels \<Rightarrow> Order list" where
  "flat m = concat (map snd m)"

definition resting :: "OrderBook \<Rightarrow> Order list" where
  "resting b = flat (bids b) @ flat (asks b)"

definition index_of :: "Order list \<Rightarrow> u64 \<rightharpoonup> CancelInfo" where
  "index_of os oid =
     map_option (\<lambda>o1. \<lparr>ci_side = side o1, ci_price = price o1\<rparr>)
       (find (\<lambda>o1. order_id o1 = oid) os)"

definition index_ok :: "OrderBook \<Rightarrow> bool" where
  "index_ok b =
     (distinct (map order_id (resting b)) \<and> cancel_index b = index_of (resting b))"

definition uncrossed :: "OrderBook \<Rightarrow> bool" where
  "uncrossed b =
     list_all (\<lambda>x. list_all (\<lambda>y. price x < price y) (flat (asks b))) (flat (bids b))"

section \<open>The comparators meet the contract of std::map\<close>

interpretation side_order: key_order "side_lt s" "\<lambda>p. \<not> is_nan p" for s
proof
  fix x y z
  show "\<not> side_lt s x x" by (cases s) simp_all
  show "side_lt s x y \<Longrightarrow> side_lt s y z \<Longrightarrow> side_lt s x z"
    by (cases s) (auto intro: double_less_trans)
  show "side_lt s x z \<Longrightarrow> \<not> is_nan y \<Longrightarrow> side_lt s x y \<or> side_lt s y z"
    by (cases s) (auto dest: double_less_cotrans)
qed

section \<open>Levels\<close>

lemma same_price_left: "same_price x y \<Longrightarrow> side_lt s x z = side_lt s y z"
proof (cases "is_nan z")
  case True
  then show ?thesis by (cases s) simp_all
next
  case False
  assume "same_price x y"
  with False show ?thesis
    by (cases s) (auto simp: same_price_def dest: double_less_cotrans)
qed

lemma same_price_right: "same_price x y \<Longrightarrow> side_lt s z x = side_lt s z y"
proof (cases "is_nan z")
  case True
  then show ?thesis by (cases s) simp_all
next
  case False
  assume "same_price x y"
  with False show ?thesis
    by (cases s) (auto simp: same_price_def dest: double_less_cotrans)
qed

lemma same_price_refl: "\<not> is_nan x \<Longrightarrow> same_price x x"
  by (simp add: same_price_def)

lemma same_price_sym: "same_price x y \<Longrightarrow> same_price y x"
  by (simp add: same_price_def)

lemma same_price_iff:
  "\<not> is_nan x \<Longrightarrow> \<not> is_nan y \<Longrightarrow> same_price x y = (\<not> side_lt s x y \<and> \<not> side_lt s y x)"
  by (cases s) (auto simp: same_price_def)

lemma same_price_nan: "same_price x y \<Longrightarrow> \<not> is_nan x \<and> \<not> is_nan y"
  by (simp add: same_price_def)

lemma flat_Nil [simp]: "flat [] = []"
  by (simp add: flat_def)

lemma flat_Cons [simp]: "flat ((p, dq) # m) = dq @ flat m"
  by (simp add: flat_def)

lemma levels_ok_Nil [simp]: "levels_ok s []"
  by (simp add: levels_ok_def)

lemma levels_ok_Cons:
  "levels_ok s ((p, dq) # m) =
     (\<not> is_nan p \<and> (\<forall>q \<in> fst ` set m. side_lt s p q) \<and> dq \<noteq> [] \<and>
      (\<forall>x \<in> set dq. resting_ok s p x) \<and> levels_ok s m)"
  by (auto simp: levels_ok_def level_ok_def list_all_iff)

lemma level_ok_pair [simp]: "level_ok s (p, dq) = (dq \<noteq> [] \<and> list_all (resting_ok s p) dq)"
  by (simp add: level_ok_def)

lemma flat_eq_Nil: "levels_ok s m \<Longrightarrow> (flat m = []) = (m = [])"
  by (cases m) (auto simp: levels_ok_Cons)

lemma in_flat_level:
  "levels_ok s m \<Longrightarrow> x \<in> set (flat m) \<Longrightarrow> \<exists>p \<in> fst ` set m. resting_ok s p x"
  by (induction m) (auto simp: levels_ok_Cons)

lemma in_flat_resting: "levels_ok s m \<Longrightarrow> x \<in> set (flat m) \<Longrightarrow> resting_ok s (price x) x"
  by (drule (1) in_flat_level) (auto simp: resting_ok_def same_price_def)

text \<open>The tail of a side is strictly behind its first level.\<close>

lemma behind_first_level:
  "levels_ok s ((p, dq) # m) \<Longrightarrow> x \<in> set (flat m) \<Longrightarrow> side_lt s p (price x)"
proof -
  assume ok: "levels_ok s ((p, dq) # m)" and x: "x \<in> set (flat m)"
  then obtain q where q: "q \<in> fst ` set m" "resting_ok s q x"
    using in_flat_level [of s m x] by (auto simp: levels_ok_Cons)
  then have "side_lt s p q" using ok by (auto simp: levels_ok_Cons)
  moreover have "same_price q (price x)"
    using q(2) by (auto simp: resting_ok_def intro: same_price_sym)
  ultimately show ?thesis by (simp add: same_price_right)
qed

lemma at_first_level:
  "levels_ok s ((p, dq) # m) \<Longrightarrow> x \<in> set dq \<Longrightarrow> same_price (price x) p"
  by (auto simp: levels_ok_Cons resting_ok_def)

lemma flat_price_sorted:
  "levels_ok s m \<Longrightarrow> sorted_wrt (\<lambda>x y. \<not> side_lt s (price y) (price x)) (flat m)"
proof (induction m)
  case Nil
  then show ?case by simp
next
  case (Cons l m)
  obtain p dq where l: "l = (p, dq)" by fastforce
  have a: "\<not> side_lt s (price y) (price x)" if "x \<in> set dq" "y \<in> set dq" for x y
    using at_first_level [OF Cons.prems [unfolded l] that(1)]
      at_first_level [OF Cons.prems [unfolded l] that(2)] side_order.lt_irrefl [of s p]
    by (simp add: same_price_left same_price_right)
  have b: "\<not> side_lt s (price y) (price x)" if "x \<in> set dq" "y \<in> set (flat m)" for x y
    using at_first_level [OF Cons.prems [unfolded l] that(1)]
      behind_first_level [OF Cons.prems [unfolded l] that(2)]
      side_order.lt_asym [of s p "price y"]
    by (simp add: same_price_right)
  have "sorted_wrt (\<lambda>x y. \<not> side_lt s (price y) (price x)) (flat m)"
    using Cons l by (simp add: levels_ok_Cons)
  moreover have "sorted_wrt (\<lambda>x y. \<not> side_lt s (price y) (price x)) dq"
    using a by (rule sorted_wrt_pairsI)
  ultimately show ?case using b l by (auto simp: sorted_wrt_append)
qed

section \<open>Resting an order\<close>

definition insert_by_priority :: "Side \<Rightarrow> Order \<Rightarrow> Order list \<Rightarrow> Order list" where
  "insert_by_priority s o1 os =
     filter (\<lambda>x. \<not> side_lt s (price o1) (price x)) os @ [o1] @
     filter (\<lambda>x. side_lt s (price o1) (price x)) os"

lemma flat_update:
  assumes "levels_ok s m" and nn: "\<not> is_nan (price o1)"
  shows "flat (smap_update (side_lt s) (price o1) (\<lambda>dq. dq @ [o1]) [] m) =
           insert_by_priority s o1 (flat m)"
  using assms(1)
proof (induction m)
  case Nil
  then show ?case by (simp add: insert_by_priority_def)
next
  case (Cons l m)
  obtain p dq where l: "l = (p, dq)" by fastforce
  note ok = Cons.prems [unfolded l]
  have dq: "side_lt s (price o1) (price x) = side_lt s (price o1) p" if "x \<in> set dq" for x
    using at_first_level [OF ok that] by (simp add: same_price_right)
  show ?case
  proof (cases "side_lt s p (price o1)")
    case True
    then have "\<not> side_lt s (price o1) p" by (rule side_order.lt_asym)
    with dq have "filter (\<lambda>x. \<not> side_lt s (price o1) (price x)) dq = dq"
      and "filter (\<lambda>x. side_lt s (price o1) (price x)) dq = []"
      by (auto simp: filter_empty_conv)
    with True Cons l show ?thesis by (simp add: insert_by_priority_def levels_ok_Cons)
  next
    case False
    have behind: "side_lt s (price o1) (price x)" if "x \<in> set (flat m)" for x
      using side_order.lt_cotrans [OF behind_first_level [OF ok that], of "price o1"] nn False
      by simp
    then have m: "filter (\<lambda>x. \<not> side_lt s (price o1) (price x)) (flat m) = []"
      and m': "filter (\<lambda>x. side_lt s (price o1) (price x)) (flat m) = flat m"
      by (auto simp: filter_empty_conv)
    show ?thesis
    proof (cases "side_lt s (price o1) p")
      case True
      with dq have "filter (\<lambda>x. \<not> side_lt s (price o1) (price x)) dq = []"
        and "filter (\<lambda>x. side_lt s (price o1) (price x)) dq = dq"
        by (auto simp: filter_empty_conv)
      with True False l m m' show ?thesis by (simp add: insert_by_priority_def)
    next
      case False': False
      with dq have "filter (\<lambda>x. \<not> side_lt s (price o1) (price x)) dq = dq"
        and "filter (\<lambda>x. side_lt s (price o1) (price x)) dq = []"
        by (auto simp: filter_empty_conv)
      with False False' l m m' show ?thesis by (simp add: insert_by_priority_def)
    qed
  qed
qed

lemma levels_ok_update:
  assumes "levels_ok s m" and "resting_ok s (price o1) o1"
  shows "levels_ok s (smap_update (side_lt s) (price o1) (\<lambda>dq. dq @ [o1]) [] m)"
proof -
  have nn: "\<not> is_nan (price o1)" using assms(2) by (simp add: resting_ok_def same_price_def)
  have "list_all (level_ok s) (smap_update (side_lt s) (price o1) (\<lambda>dq. dq @ [o1]) [] m)"
    using assms(1)
  proof (induction m)
    case Nil
    then show ?case using assms(2) by simp
  next
    case (Cons l m)
    obtain p dq where l: "l = (p, dq)" by fastforce
    have "resting_ok s p o1" if "\<not> side_lt s p (price o1)" "\<not> side_lt s (price o1) p"
      using that assms(2) nn Cons.prems l same_price_iff [of "price o1" p s]
      by (simp add: resting_ok_def levels_ok_Cons)
    then show ?case
      using Cons l assms(2) by (auto simp: levels_ok_def)
  qed
  then show ?thesis
    using assms(1) nn by (auto simp: levels_ok_def intro: side_order.sorted_update)
qed

section \<open>Cancelling an order\<close>

lemma erase_by_id_None: "(erase_by_id oid dq = None) = (oid \<notin> order_id ` set dq)"
  by (induction dq) auto

lemma filter_other_ids: "oid \<notin> order_id ` set os \<Longrightarrow> filter (\<lambda>y. order_id y \<noteq> oid) os = os"
  by (induction os) auto

lemma erase_by_id_Some:
  "distinct (map order_id dq) \<Longrightarrow> oid \<in> order_id ` set dq \<Longrightarrow>
     erase_by_id oid dq = Some (filter (\<lambda>y. order_id y \<noteq> oid) dq)"
  by (induction dq) (auto simp: filter_other_ids)

lemma erase_by_id_subset: "erase_by_id oid dq = Some dq' \<Longrightarrow> set dq' \<subseteq> set dq"
  by (induction dq arbitrary: dq') (auto split: if_splits)

lemma erase_by_id_snoc:
  "order_id o1 \<notin> order_id ` set dq \<Longrightarrow> erase_by_id (order_id o1) (dq @ [o1]) = Some dq"
  by (induction dq) auto

lemma cancel_in_level_Nil [simp]: "cancel_in_level s oid q [] = []"
  by (simp add: cancel_in_level_def)

lemma cancel_in_level_Cons:
  "cancel_in_level s oid q ((p, dq) # m) =
     (if side_lt s p q then (p, dq) # cancel_in_level s oid q m
      else if side_lt s q p then (p, dq) # m
      else (case erase_by_id oid dq of
              None \<Rightarrow> (p, dq) # m
            | Some dq' \<Rightarrow> if dq' = [] then m else (p, dq') # m))"
  by (simp add: cancel_in_level_def split: option.split)

lemma keys_cancel: "(k, v) \<in> set (cancel_in_level s oid q m) \<Longrightarrow> k \<in> fst ` set m"
  by (induction m) (force simp: cancel_in_level_Cons split: option.splits if_splits)+

lemma levels_ok_cancel: "levels_ok s m \<Longrightarrow> levels_ok s (cancel_in_level s oid q m)"
proof (induction m)
  case Nil
  then show ?case by simp
next
  case (Cons l m)
  obtain p dq where l: "l = (p, dq)" by fastforce
  consider "side_lt s p q" | "\<not> side_lt s p q" "side_lt s q p" | "\<not> side_lt s p q" "\<not> side_lt s q p"
    by blast
  then show ?case
  proof cases
    case 1
    have "levels_ok s (cancel_in_level s oid q m)" using Cons l by (simp add: levels_ok_Cons)
    with 1 Cons.prems l show ?thesis
      by (auto simp: cancel_in_level_Cons levels_ok_Cons dest!: keys_cancel)
  next
    case 2
    with Cons l show ?thesis by (simp add: cancel_in_level_Cons)
  next
    case 3
    with Cons.prems l show ?thesis
      by (auto simp: cancel_in_level_Cons levels_ok_Cons dest!: erase_by_id_subset
          split: option.split)
  qed
qed

lemma flat_cancel:
  assumes "levels_ok s m" and "distinct (map order_id (flat m))" and "x \<in> set (flat m)"
  shows "flat (cancel_in_level s (order_id x) (price x) m) =
           filter (\<lambda>y. order_id y \<noteq> order_id x) (flat m)"
  using assms
proof (induction m)
  case Nil
  then show ?case by simp
next
  case (Cons l m)
  obtain p dq where l: "l = (p, dq)" by fastforce
  note ok = Cons.prems(1) [unfolded l]
  show ?case
  proof (cases "x \<in> set dq")
    case True
    then have here: "\<not> side_lt s p (price x)" "\<not> side_lt s (price x) p"
      using at_first_level [OF ok True] side_order.lt_irrefl [of s p]
      by (simp_all add: same_price_left same_price_right)
    have "distinct (map order_id dq)" using Cons.prems(2) l by simp
    with True have e: "erase_by_id (order_id x) dq =
        Some (filter (\<lambda>y. order_id y \<noteq> order_id x) dq)"
      by (intro erase_by_id_Some) auto
    have "order_id x \<notin> order_id ` set (flat m)" using Cons.prems(2) l True by auto
    with e here l show ?thesis by (simp add: cancel_in_level_Cons filter_other_ids)
  next
    case False
    with Cons.prems l have x: "x \<in> set (flat m)" by simp
    then have "side_lt s p (price x)" using behind_first_level [OF ok] by simp
    moreover have "order_id x \<notin> order_id ` set dq" using Cons.prems(2) l x by auto
    ultimately show ?thesis
      using Cons.IH Cons.prems l x by (simp add: cancel_in_level_Cons levels_ok_Cons filter_other_ids)
  qed
qed

lemma cancel_after_update:
  assumes "levels_ok s m" and "\<not> is_nan (price o1)" and "order_id o1 \<notin> order_id ` set (flat m)"
  shows "cancel_in_level s (order_id o1) (price o1)
           (smap_update (side_lt s) (price o1) (\<lambda>dq. dq @ [o1]) [] m) = m"
  using assms
proof (induction m)
  case Nil
  then show ?case by (simp add: cancel_in_level_Cons side_order.lt_irrefl)
next
  case (Cons l m)
  obtain p dq where l: "l = (p, dq)" by fastforce
  have "erase_by_id (order_id o1) (dq @ [o1]) = Some dq"
    using Cons.prems(3) l by (intro erase_by_id_snoc) auto
  with Cons l show ?case
    by (auto simp: cancel_in_level_Cons levels_ok_Cons side_order.lt_irrefl)
qed

section \<open>The cancel index\<close>

lemma index_of_Nil [simp]: "index_of [] oid = None"
  by (simp add: index_of_def)

lemma index_of_Cons [simp]:
  "index_of (o1 # os) oid =
     (if order_id o1 = oid then Some \<lparr>ci_side = side o1, ci_price = price o1\<rparr> else index_of os oid)"
  by (simp add: index_of_def)

lemma index_of_None: "(index_of os oid = None) = (oid \<notin> order_id ` set os)"
  by (induction os) auto

lemma index_of_Some:
  "distinct (map order_id os) \<Longrightarrow> x \<in> set os \<Longrightarrow>
     index_of os (order_id x) = Some \<lparr>ci_side = side x, ci_price = price x\<rparr>"
  by (induction os) auto

text \<open>With distinct ids the index depends on ids, sides and prices only, not on their order.\<close>

lemma index_of_cong:
  assumes d: "distinct (map order_id os)" "distinct (map order_id os')"
    and eq: "(\<lambda>x. (order_id x, side x, price x)) ` set os =
             (\<lambda>x. (order_id x, side x, price x)) ` set os'"
  shows "index_of os = index_of os'"
proof
  fix oid
  have ids: "order_id ` set os = order_id ` set os'"
    using arg_cong [OF eq, of "image fst"] by (simp add: image_image)
  show "index_of os oid = index_of os' oid"
  proof (cases "oid \<in> order_id ` set os")
    case False
    with ids show ?thesis by (metis index_of_None)
  next
    case True
    then obtain x where x: "x \<in> set os" "oid = order_id x" by auto
    then have "(order_id x, side x, price x) \<in> (\<lambda>x. (order_id x, side x, price x)) ` set os'"
      by (simp flip: eq)
    then obtain y where y: "y \<in> set os'" "order_id y = order_id x" "side y = side x" "price y = price x"
      by auto
    show ?thesis
      using index_of_Some [OF d(1) x(1)] index_of_Some [OF d(2) y(1)] x y by simp
  qed
qed

lemma index_of_remove:
  "index_of (filter (\<lambda>y. order_id y \<noteq> oid) os) = (index_of os)(oid := None)"
  by (induction os) auto

lemma insert_by_priority_set [simp]: "set (insert_by_priority s o1 os) = insert o1 (set os)"
  by (auto simp: insert_by_priority_def)

lemma insert_by_priority_distinct:
  assumes "distinct (map order_id os)" and "order_id o1 \<notin> order_id ` set os"
  shows "distinct (map order_id (insert_by_priority s o1 os))"
  using assms
  by (auto simp: insert_by_priority_def distinct_map inj_on_def)

section \<open>Whole-book effect of the operations\<close>

lemma add_resting_order_bids:
  "bids (add_resting_order o1 b) =
     (if side o1 = BUY then smap_update (side_lt BUY) (price o1) (\<lambda>dq. dq @ [o1]) [] (bids b)
      else bids b)"
  by (simp add: add_resting_order_def Let_def)

lemma add_resting_order_asks:
  "asks (add_resting_order o1 b) =
     (if side o1 = SELL then smap_update (side_lt SELL) (price o1) (\<lambda>dq. dq @ [o1]) [] (asks b)
      else asks b)"
  by (simp add: add_resting_order_def Let_def)

lemma add_resting_order_index:
  "cancel_index (add_resting_order o1 b) =
     (cancel_index b)(order_id o1 \<mapsto> \<lparr>ci_side = side o1, ci_price = price o1\<rparr>)"
  by (simp add: add_resting_order_def Let_def)

lemmas add_resting_order_fields =
  add_resting_order_bids add_resting_order_asks add_resting_order_index

lemma book_ok_add:
  "book_ok b \<Longrightarrow> resting_ok (side o1) (price o1) o1 \<Longrightarrow> book_ok (add_resting_order o1 b)"
  by (auto simp: book_ok_def add_resting_order_fields intro: levels_ok_update)

lemma flat_add:
  assumes "book_ok b" and "\<not> is_nan (price o1)"
  shows "flat (bids (add_resting_order o1 b)) =
           (if side o1 = BUY then insert_by_priority BUY o1 (flat (bids b)) else flat (bids b))"
    and "flat (asks (add_resting_order o1 b)) =
           (if side o1 = SELL then insert_by_priority SELL o1 (flat (asks b)) else flat (asks b))"
  using assms by (simp_all add: book_ok_def add_resting_order_fields flat_update)

lemma index_ok_add:
  assumes "book_ok b" and "\<not> is_nan (price o1)" and "index_ok b"
    and fresh: "order_id o1 \<notin> order_id ` set (resting b)"
  shows "index_ok (add_resting_order o1 b)"
proof -
  let ?b = "add_resting_order o1 b"
  have d: "distinct (map order_id (resting b))" and i: "cancel_index b = index_of (resting b)"
    using assms(3) by (simp_all add: index_ok_def)
  have set: "set (resting ?b) = insert o1 (set (resting b))"
    using flat_add [OF assms(1,2)] by (auto simp: resting_def)
  have "distinct (map order_id (resting ?b))"
    using flat_add [OF assms(1,2)] d fresh
      insert_by_priority_distinct [of "flat (bids b)" o1 BUY]
      insert_by_priority_distinct [of "flat (asks b)" o1 SELL]
    by (auto simp: resting_def)
  moreover have "cancel_index ?b = index_of (o1 # resting b)"
    using i by (auto simp: add_resting_order_index fun_eq_iff)
  moreover have "index_of (o1 # resting b) = index_of (resting ?b)"
    using calculation(1) d fresh set by (intro index_of_cong) auto
  ultimately show ?thesis by (simp add: index_ok_def)
qed

lemma cancel_order_unknown: "cancel_index b oid = None \<Longrightarrow> cancel_order oid b = (False, b)"
  by (simp add: cancel_order_def)

lemma book_ok_cancel: "book_ok b \<Longrightarrow> book_ok (snd (cancel_order oid b))"
  by (auto simp: book_ok_def cancel_order_def Let_def split: option.split intro: levels_ok_cancel)

lemma cancel_resting:
  assumes ok: "book_ok b" "index_ok b" and x: "x \<in> set (resting b)"
  defines "b' \<equiv> snd (cancel_order (order_id x) b)"
  shows "fst (cancel_order (order_id x) b)"
    and "flat (bids b') = filter (\<lambda>y. order_id y \<noteq> order_id x) (flat (bids b))"
    and "flat (asks b') = filter (\<lambda>y. order_id y \<noteq> order_id x) (flat (asks b))"
    and "index_ok b'"
proof -
  have d: "distinct (map order_id (resting b))" and i: "cancel_index b = index_of (resting b)"
    using ok(2) by (simp_all add: index_ok_def)
  have idx: "cancel_index b (order_id x) = Some \<lparr>ci_side = side x, ci_price = price x\<rparr>"
    using index_of_Some [OF d x] i by simp
  then show "fst (cancel_order (order_id x) b)" by (simp add: cancel_order_def Let_def)
  have lv: "levels_ok BUY (bids b)" "levels_ok SELL (asks b)"
    using ok(1) by (simp_all add: book_ok_def)
  have ds: "distinct (map order_id (flat (bids b)))" "distinct (map order_id (flat (asks b)))"
    "order_id ` set (flat (bids b)) \<inter> order_id ` set (flat (asks b)) = {}"
    using d by (auto simp: resting_def)
  show fb: "flat (bids b') = filter (\<lambda>y. order_id y \<noteq> order_id x) (flat (bids b))"
    and fa: "flat (asks b') = filter (\<lambda>y. order_id y \<noteq> order_id x) (flat (asks b))"
  proof -
    have "x \<in> set (flat (bids b)) \<and> side x = BUY \<or> x \<in> set (flat (asks b)) \<and> side x = SELL"
      using x lv in_flat_resting by (fastforce simp: resting_def resting_ok_def)
    then have "flat (bids b') = filter (\<lambda>y. order_id y \<noteq> order_id x) (flat (bids b)) \<and>
        flat (asks b') = filter (\<lambda>y. order_id y \<noteq> order_id x) (flat (asks b))"
    proof (elim disjE conjE)
      assume a: "x \<in> set (flat (bids b))" "side x = BUY"
      then have "order_id x \<notin> order_id ` set (flat (asks b))" using ds(3) by auto
      then show ?thesis
        using a idx flat_cancel [OF lv(1) ds(1) a(1)]
        by (simp add: b'_def cancel_order_def Let_def filter_other_ids)
    next
      assume a: "x \<in> set (flat (asks b))" "side x = SELL"
      then have "order_id x \<notin> order_id ` set (flat (bids b))" using ds(3) by auto
      then show ?thesis
        using a idx flat_cancel [OF lv(2) ds(2) a(1)]
        by (simp add: b'_def cancel_order_def Let_def filter_other_ids)
    qed
    then show "flat (bids b') = filter (\<lambda>y. order_id y \<noteq> order_id x) (flat (bids b))"
      and "flat (asks b') = filter (\<lambda>y. order_id y \<noteq> order_id x) (flat (asks b))" by simp_all
  qed
  have r: "resting b' = filter (\<lambda>y. order_id y \<noteq> order_id x) (resting b)"
    using fb fa by (simp add: resting_def)
  moreover have "cancel_index b' = (cancel_index b)(order_id x := None)"
    using idx by (simp add: b'_def cancel_order_def Let_def)
  ultimately show "index_ok b'"
    using d i by (simp add: index_ok_def index_of_remove distinct_map_filter)
qed

section \<open>Correctness of the book's interface\<close>

text \<open>
  Cancelling an order that was just added undoes the addition exactly: maps, deques
  and cancel index are what they were, when the id was not in use.
\<close>

lemma cancel_after_add:
  assumes "book_ok b" and "\<not> is_nan (price o1)"
    and "order_id o1 \<notin> order_id ` set (resting b)" and "cancel_index b (order_id o1) = None"
  shows "cancel_order (order_id o1) (add_resting_order o1 b) = (True, b)"
proof -
  have "order_id o1 \<notin> order_id ` set (flat (bids b))" "order_id o1 \<notin> order_id ` set (flat (asks b))"
    using assms(3) by (auto simp: resting_def)
  moreover have "levels_ok BUY (bids b)" "levels_ok SELL (asks b)"
    using assms(1) by (simp_all add: book_ok_def)
  moreover have "(cancel_index b)(order_id o1 := None) = cancel_index b"
    using assms(4) by (simp add: fun_upd_idem)
  ultimately show ?thesis
    using assms(2) Side.exhaust [of "side o1"]
    by (auto simp: cancel_order_def add_resting_order_def Let_def cancel_after_update)
qed

definition sample_order :: Order where
  "sample_order = default_order\<lparr>order_id := 4, price := F64 0x4059000000000000,
     quantity := 2, remaining_quantity := 2\<rparr>"

lemma cancel_after_add_sample:
  "cancel_order 4 (add_resting_order sample_order empty_book) = (True, empty_book)"
  using cancel_after_add [of empty_book sample_order]
  by (simp add: book_ok_def empty_book_def resting_def sample_order_def default_order_def
      is_nan_def inf_mag_def mag_def)

text \<open>
  \<open>best_bid\<close> is the price of the first order of the bids and no bid is priced above it,
  \<open>best_ask\<close> likewise with no ask below it, and both are absent exactly when \<open>empty_side\<close>
  says that the side holds no order.
\<close>

lemma best_prices:
  assumes "book_ok b"
  shows "(case best_bid b of
            None \<Rightarrow> empty_side BUY b \<and> flat (bids b) = []
          | Some p \<Rightarrow> \<not> empty_side BUY b \<and> flat (bids b) \<noteq> [] \<and>
              same_price p (price (hd (flat (bids b)))) \<and>
              list_all (\<lambda>x. price x \<le> p) (flat (bids b))) \<and>
         (case best_ask b of
            None \<Rightarrow> empty_side SELL b \<and> flat (asks b) = []
          | Some p \<Rightarrow> \<not> empty_side SELL b \<and> flat (asks b) \<noteq> [] \<and>
              same_price p (price (hd (flat (asks b)))) \<and>
              list_all (\<lambda>x. p \<le> price x) (flat (asks b)))"
proof -
  have first: "dq \<noteq> [] \<and> same_price p (price (hd dq)) \<and>
      (\<forall>x \<in> set (dq @ flat m). \<not> side_lt s (price x) p \<and> \<not> is_nan (price x) \<and> \<not> is_nan p)"
    if ok: "levels_ok s ((p, dq) # m)" for s p dq m
  proof -
    have dq: "dq \<noteq> []" "\<not> is_nan p" using ok by (simp_all add: levels_ok_Cons)
    have "\<not> side_lt s (price x) p \<and> \<not> is_nan (price x)" if "x \<in> set dq" for x
      using at_first_level [OF ok that] side_order.lt_irrefl [of s p]
      by (simp add: same_price_left same_price_nan)
    moreover have "\<not> side_lt s (price x) p \<and> \<not> is_nan (price x)" if "x \<in> set (flat m)" for x
      using side_order.lt_asym [OF behind_first_level [OF ok that]]
        in_flat_resting [of s "(p, dq) # m" x] ok that
      by (auto simp: resting_ok_def same_price_def)
    moreover have "same_price p (price (hd dq))"
      using at_first_level [OF ok, of "hd dq"] dq(1) same_price_sym by simp
    ultimately show ?thesis using dq by auto
  qed
  have "levels_ok BUY (bids b)" "levels_ok SELL (asks b)"
    using assms by (simp_all add: book_ok_def)
  then show ?thesis
    using first [of BUY] first [of SELL]
    by (cases "bids b"; cases "asks b")
      (auto simp: best_bid_def best_ask_def empty_side_def list_all_iff not_less_double)
qed

lemma best_prices_sample:
  "best_bid (add_resting_order sample_order empty_book) = Some (F64 0x4059000000000000) \<and>
   \<not> empty_side BUY (add_resting_order sample_order empty_book)"
proof -
  have "book_ok (add_resting_order sample_order empty_book)"
    by (rule book_ok_add)
      (simp_all add: book_ok_def empty_book_def sample_order_def default_order_def resting_ok_def
        same_price_def is_nan_def inf_mag_def mag_def)
  from best_prices [OF this]
  have b: "case best_bid (add_resting_order sample_order empty_book) of
      None \<Rightarrow> True | Some p \<Rightarrow> \<not> empty_side BUY (add_resting_order sample_order empty_book)"
    by (auto split: option.splits)
  have "best_bid (add_resting_order sample_order empty_book) = Some (F64 0x4059000000000000)"
    by (simp add: add_resting_order_def empty_book_def sample_order_def default_order_def
        best_bid_def Let_def)
  with b show ?thesis by simp
qed

end
