(* ===== verification/PriceCollar.thy ===== *)
theory PriceCollar
  imports Binary64
begin

text \<open>
  The pre-match price filter of \<open>include/price_collar.hpp\<close> and \<open>src/price_collar.cpp\<close>,
  on IEEE doubles with the roundings the code performs: one in the division by 100, one
  in the product and one in each bound.
\<close>

datatype RejectReason = NONE | PRICE_TOO_HIGH | PRICE_TOO_LOW

record CollarResult =
  accepted :: bool
  reason :: RejectReason

record PriceCollar =
  band_fraction :: double

text \<open>The literal \<open>100.0\<close> and the default band \<open>10.0\<close>.\<close>

definition lit_100 :: double where
  "lit_100 = F64 0x4059000000000000"

definition lit_10 :: double where
  "lit_10 = F64 0x4024000000000000"

definition make_collar :: "double \<Rightarrow> PriceCollar" where
  "make_collar band_percent = \<lparr>band_fraction = band_percent / lit_100\<rparr>"

definition collar_lo :: "PriceCollar \<Rightarrow> double \<Rightarrow> double" where
  "collar_lo c ref = ref - ref * band_fraction c"

definition collar_hi :: "PriceCollar \<Rightarrow> double \<Rightarrow> double" where
  "collar_hi c ref = ref + ref * band_fraction c"

definition check :: "PriceCollar \<Rightarrow> double \<Rightarrow> double option \<Rightarrow> CollarResult" where
  "check c order_price last_price =
     (case last_price of
        None \<Rightarrow> \<lparr>accepted = True, reason = NONE\<rparr>
      | Some ref \<Rightarrow>
          (let band = ref * band_fraction c;
               lo = ref - band;
               hi = ref + band
           in if order_price > hi then \<lparr>accepted = False, reason = PRICE_TOO_HIGH\<rparr>
              else if order_price < lo then \<lparr>accepted = False, reason = PRICE_TOO_LOW\<rparr>
              else \<lparr>accepted = True, reason = NONE\<rparr>))"

section \<open>Behaviour of the check\<close>

lemma check_Some:
  "check c p (Some ref) =
     (if p > collar_hi c ref then \<lparr>accepted = False, reason = PRICE_TOO_HIGH\<rparr>
      else if p < collar_lo c ref then \<lparr>accepted = False, reason = PRICE_TOO_LOW\<rparr>
      else \<lparr>accepted = True, reason = NONE\<rparr>)"
  by (simp add: check_def collar_lo_def collar_hi_def)

lemma accepted_Some:
  "accepted (check c p (Some ref)) = (\<not> p > collar_hi c ref \<and> \<not> p < collar_lo c ref)"
  by (simp add: check_Some)

text \<open>A band between 0 and 100 percent around a non-negative reference price.\<close>

definition band_sane :: "PriceCollar \<Rightarrow> bool" where
  "band_sane c = (is_finite (band_fraction c) \<and> \<not> dneg (band_fraction c) \<and>
                  sval (mag (band_fraction c)) \<le> 2 ^ 1074)"

lemma collar_encloses_ref:
  assumes "band_sane c" and "is_finite ref" and "\<not> dneg ref"
  shows "collar_lo c ref \<le> ref" and "ref \<le> collar_hi c ref" and "\<not> dneg (collar_lo c ref)"
proof -
  have b: "is_finite (ref * band_fraction c)" "\<not> dneg (ref * band_fraction c)"
    "mag (ref * band_fraction c) \<le> mag ref"
    using times_double_shrinks [of ref "band_fraction c"] assms by (simp_all add: band_sane_def)
  show "collar_lo c ref \<le> ref" and "\<not> dneg (collar_lo c ref)"
    using minus_double_le [OF assms(2,3) b] by (simp_all add: collar_lo_def)
  show "ref \<le> collar_hi c ref"
    using plus_double_ge [OF assms(2,3) b(1,2)] by (simp add: collar_hi_def)
qed

text \<open>
  For a band between 0 and 100 percent and a finite non-negative reference price the
  collar never rejects an order at the reference price itself, whatever the rounding of
  the bounds does.
\<close>

lemma collar_accepts_last_price:
  assumes "band_sane c" and "is_finite ref" and "\<not> dneg ref"
  shows "check c ref (Some ref) = \<lparr>accepted = True, reason = NONE\<rparr>"
  using collar_encloses_ref [OF assms]
  by (auto simp: check_Some less_double_def less_eq_double_def)

lemma collar_accepts_last_price_sample:
  "check \<lparr>band_fraction = F64 0x3fb999999999999a\<rparr> lit_100 (Some lit_100) =
     \<lparr>accepted = True, reason = NONE\<rparr>"
proof -
  have "sval 0x3fb999999999999a \<le> 2 ^ 1074"
    using sval_normal [where m = "0x1999999999999a" and k = 1018] by simp
  then have "band_sane \<lparr>band_fraction = F64 0x3fb999999999999a\<rparr>"
    by (simp add: band_sane_def is_finite_def is_nan_def is_inf_def inf_mag_def mag_def dneg_def)
  moreover have "is_finite lit_100" "\<not> dneg lit_100"
    by (simp_all add: lit_100_def is_finite_def is_nan_def is_inf_def inf_mag_def mag_def dneg_def)
  ultimately show ?thesis by (rule collar_accepts_last_price)
qed

section \<open>The ten percent collar\<close>

lemma sval_10: "0x14000000000000 * 2 ^ 1025 = sval 0x4024000000000000"
  using sval_normal [where m = "0x14000000000000" and k = 1025] by simp

lemma sval_100: "0x19000000000000 * 2 ^ 1028 = sval 0x4059000000000000"
  using sval_normal [where m = "0x19000000000000" and k = 1028] by simp

lemma sval_tenth: "0x1999999999999a * 2 ^ 1018 = sval 0x3fb999999999999a"
  using sval_normal [where m = "0x1999999999999a" and k = 1018] by simp

lemmas eval_double =
  is_nan_def is_inf_def inf_mag_def mag_def dneg_def of_ratio_def mk_def ival_def

lemma ten_over_hundred: "lit_10 / lit_100 = F64 0x3fb999999999999a"
  using round_mag_divide [OF sval_10 sval_100, of 53 1018]
  by (simp add: rne_def divide_double_def lit_10_def lit_100_def eval_double)

lemma hundred_times_tenth: "lit_100 * F64 0x3fb999999999999a = lit_10"
  using round_mag_times [OF sval_100 sval_tenth, of 53 1025]
  by (simp add: rne_def times_double_def lit_10_def lit_100_def eval_double)

lemma finite_literals:
  "is_finite lit_10" "\<not> dneg lit_10" "is_finite lit_100" "\<not> dneg lit_100"
  "mag lit_10 = 0x4024000000000000" "mag lit_100 = 0x4059000000000000"
  by (simp_all add: lit_10_def lit_100_def is_finite_def eval_double)

lemma hundred_plus_ten: "lit_100 + lit_10 = F64 0x405b800000000000"
proof -
  have "sval 0x4059000000000000 + sval 0x4024000000000000 = 0xdc000000000000 * 2 ^ 1025"
    unfolding sval_10 [symmetric] sval_100 [symmetric] by simp
  from round_mag_int [OF this, of 3] show ?thesis
    by (simp add: plus_double_nonneg finite_literals rne_def of_ratio_def inf_mag_def mk_def)
qed

lemma hundred_minus_ten: "lit_100 - lit_10 = F64 0x4056800000000000"
proof -
  have "sval 0x4059000000000000 - sval 0x4024000000000000 = 0xb4000000000000 * 2 ^ 1025"
    unfolding sval_10 [symmetric] sval_100 [symmetric] by simp
  from round_mag_int [OF this, of 3] show ?thesis
    by (simp add: minus_double_nonneg finite_literals rne_def of_ratio_def inf_mag_def mk_def)
qed

text \<open>
  The default collar of ten percent around a last price of \<open>100.0\<close> accepts exactly
  the prices that are neither above \<open>110.0\<close> nor below \<open>90.0\<close>: the three roundings of the
  computation are exact here, and both boundary prices are accepted.  A NaN price compares
  false with both bounds and is accepted too.
\<close>

lemma ten_percent_of_hundred:
  "check (make_collar lit_10) p (Some lit_100) =
     (if p > F64 0x405b800000000000 then \<lparr>accepted = False, reason = PRICE_TOO_HIGH\<rparr>
      else if p < F64 0x4056800000000000 then \<lparr>accepted = False, reason = PRICE_TOO_LOW\<rparr>
      else \<lparr>accepted = True, reason = NONE\<rparr>)"
  by (simp add: check_Some collar_lo_def collar_hi_def make_collar_def ten_over_hundred
      hundred_times_tenth hundred_plus_ten hundred_minus_ten)

section \<open>Negative reference prices\<close>

lemma ival_literals: "0 < ival lit_10" "0 < ival lit_100" "ival lit_10 < ival lit_100"
  by (simp_all add: ival_def finite_literals)

lemma neg_hundred_times_tenth: "(- lit_100) * F64 0x3fb999999999999a = - lit_10"
  using times_double_uminus_left [of lit_100 "F64 0x3fb999999999999a"]
  by (simp add: finite_literals hundred_times_tenth) (simp add: is_finite_def eval_double)

lemma neg_hundred_plus_neg_ten: "(- lit_100) + (- lit_10) = - F64 0x405b800000000000"
  using plus_double_uminus [of lit_100 lit_10] ival_literals
  by (simp add: finite_literals hundred_plus_ten)

lemma neg_hundred_minus_neg_ten: "(- lit_100) - (- lit_10) = - F64 0x4056800000000000"
proof -
  have "ival lit_100 + ival (- lit_10) \<noteq> 0"
    using ival_literals by (simp add: ival_def finite_literals)
  from plus_double_uminus [OF _ _ this] show ?thesis
    using hundred_minus_ten by (simp add: minus_double_def finite_literals)
qed

text \<open>
  Around a negative reference price the two bounds are swapped, because the band
  \<open>ref * band_fraction\<close> is negative: after a trade at \<open>-100.0\<close> the default collar rejects
  every limit price, the reference price included.
\<close>

lemma negative_reference_rejects_all:
  assumes "\<not> is_nan p"
  shows "\<not> accepted (check (make_collar lit_10) p (Some (- lit_100)))"
proof -
  have "- F64 0x405b800000000000 < - F64 0x4056800000000000"
    by (simp add: less_double_def dkey_def) (simp add: is_nan_def inf_mag_def mag_def dneg_def)
  then have "p > - F64 0x405b800000000000 \<or> p < - F64 0x4056800000000000"
    using assms double_less_cotrans by blast
  then show ?thesis
    by (auto simp: check_Some collar_lo_def collar_hi_def make_collar_def ten_over_hundred
        neg_hundred_times_tenth neg_hundred_plus_neg_ten neg_hundred_minus_neg_ten)
qed

lemma negative_reference_rejects_all_sample:
  "\<not> accepted (check (make_collar lit_10) (- lit_100) (Some (- lit_100)))"
proof (rule negative_reference_rejects_all)
  have "\<not> is_nan lit_100" by (simp add: lit_100_def is_nan_def inf_mag_def mag_def)
  then show "\<not> is_nan (- lit_100)" by simp
qed

end
