(* ===== verification/MatchingEngine.thy ===== *)
theory MatchingEngine
  imports OrderBook PriceCollar
begin

text \<open>
  The matching engine of \<open>include/matching_engine.hpp\<close> and \<open>src/matching_engine.cpp\<close>.

  \<open>match_against\<close> is the matching loop.  Its reference parameter \<open>opposite\<close> is one of the
  book's two maps, named here by its side.  The one operation of the loop that C++ leaves
  undefined, \<open>front()\<close> of an empty deque, is the result \<open>None\<close>; that it is never reached
  is a theorem.  All quantities and timestamps are 64-bit words.
\<close>

section \<open>State and operations\<close>

record Rejection =
  rej_order_id :: u64
  rej_reason :: RejectReason

text \<open>\<open>std::variant<std::vector<Trade>, Rejection>\<close>.\<close>

datatype SubmitResult = Trades "Trade list" | Rejected Rejection

record MatchingEngine =
  book :: OrderBook
  collar :: PriceCollar
  last_price :: "double option"
  next_timestamp :: u64

definition make_engine :: "double \<Rightarrow> MatchingEngine" where
  "make_engine collar_band_percent =
     \<lparr>book = empty_book, collar = make_collar collar_band_percent,
      last_price = None, next_timestamp = 1\<rparr>"

fun side_levels :: "Side \<Rightarrow> OrderBook \<Rightarrow> levels" where
  "side_levels BUY b = bids b"
| "side_levels SELL b = asks b"

fun set_side_levels :: "Side \<Rightarrow> levels \<Rightarrow> OrderBook \<Rightarrow> OrderBook" where
  "set_side_levels BUY m b = b\<lparr>bids := m\<rparr>"
| "set_side_levels SELL m b = b\<lparr>asks := m\<rparr>"

text \<open>The two \<open>break\<close> conditions of the loop, for a limit order.\<close>

definition price_stops :: "Order \<Rightarrow> double \<Rightarrow> bool" where
  "price_stops incoming resting_price =
     (otype incoming = LIMIT \<and>
      (side incoming = BUY \<and> price incoming < resting_price \<or>
       side incoming = SELL \<and> price incoming > resting_price))"

definition make_trade :: "Order \<Rightarrow> Order \<Rightarrow> u64 \<Rightarrow> u64 \<Rightarrow> Trade" where
  "make_trade incoming front fill ts =
     \<lparr>buy_order_id = (if side incoming = BUY then order_id incoming else order_id front),
      sell_order_id = (if side incoming = BUY then order_id front else order_id incoming),
      t_price = price front, t_quantity = fill, t_timestamp = ts\<rparr>"

text \<open>
  One iteration of the loop past the price test, on the best level \<open>(p, front # dq)\<close> with
  \<open>rest\<close> the levels behind it: the trade, both decrements, the new last price, and the
  removal of a filled order, with its level when the deque is empty.
\<close>

definition match_fill ::
  "Side \<Rightarrow> Order \<Rightarrow> double \<Rightarrow> Order \<Rightarrow> Order list \<Rightarrow> levels \<Rightarrow> MatchingEngine \<Rightarrow>
     Order \<times> Trade \<times> MatchingEngine" where
  "match_fill opposite incoming p front dq rest e =
     (let fill = min (remaining_quantity incoming) (remaining_quantity front);
          t = make_trade incoming front fill (next_timestamp e);
          incoming' = incoming\<lparr>remaining_quantity := remaining_quantity incoming - fill\<rparr>;
          front' = front\<lparr>remaining_quantity := remaining_quantity front - fill\<rparr>;
          b = (if remaining_quantity front' = 0
               then set_side_levels opposite (if dq = [] then rest else (p, dq) # rest)
                      (remove_from_index (order_id front') (book e))
               else set_side_levels opposite ((p, front' # dq) # rest) (book e))
      in (incoming', t,
          e\<lparr>book := b, last_price := Some (price front),
            next_timestamp := next_timestamp e + 1\<rparr>))"

lemma side_levels_set [simp]: "side_levels s (set_side_levels s m b) = m"
  by (cases s) simp_all

lemma side_levels_remove_index [simp]: "side_levels s (remove_from_index oid b) = side_levels s b"
  by (cases s) (simp_all add: remove_from_index_def)

lemma cancel_index_remove [simp]:
  "cancel_index (remove_from_index oid b) = (cancel_index b)(oid := None)"
  by (simp add: remove_from_index_def)

definition loop_measure :: "Side \<Rightarrow> Order \<Rightarrow> MatchingEngine \<Rightarrow> nat" where
  "loop_measure opposite incoming e =
     length (flat (side_levels opposite (book e))) +
     (if remaining_quantity incoming > 0 then 1 else 0)"

lemma match_fill_decreases:
  assumes "(incoming', t, e') = match_fill opposite incoming p front dq rest e"
    and "0 < remaining_quantity incoming"
    and "side_levels opposite (book e) = (p, front # dq) # rest"
  shows "loop_measure opposite incoming' e' < loop_measure opposite incoming e"
  using assms
  by (cases "remaining_quantity incoming \<le> remaining_quantity front")
    (auto simp: match_fill_def loop_measure_def Let_def min_def split: if_splits)

function match_against ::
  "Side \<Rightarrow> Order \<Rightarrow> Trade list \<Rightarrow> MatchingEngine \<Rightarrow> (Order \<times> Trade list \<times> MatchingEngine) option" where
  "match_against opposite incoming trades e =
     (if remaining_quantity incoming > 0
      then (case side_levels opposite (book e) of
              [] \<Rightarrow> Some (incoming, trades, e)
            | (p, level) # rest \<Rightarrow>
                (if price_stops incoming p then Some (incoming, trades, e)
                 else (case level of
                         [] \<Rightarrow> None
                       | front # dq \<Rightarrow>
                           (case match_fill opposite incoming p front dq rest e of
                              (incoming', t, e') \<Rightarrow>
                                match_against opposite incoming' (trades @ [t]) e'))))
      else Some (incoming, trades, e))"
  by pat_completeness auto
termination
  by (relation "measure (\<lambda>(opposite, incoming, trades, e). loop_measure opposite incoming e)")
    (auto intro: match_fill_decreases)

declare match_against.simps [simp del]

fun opposite_of :: "Side \<Rightarrow> Side" where
  "opposite_of BUY = SELL"
| "opposite_of SELL = BUY"

definition submit_order :: "Order \<Rightarrow> MatchingEngine \<Rightarrow> (SubmitResult \<times> MatchingEngine) option" where
  "submit_order o1 e =
     (let incoming = o1\<lparr>timestamp := next_timestamp e, remaining_quantity := quantity o1\<rparr>;
          e1 = e\<lparr>next_timestamp := next_timestamp e + 1\<rparr>;
          result = check (collar e1) (price incoming) (last_price e1)
      in if otype incoming = LIMIT \<and> \<not> accepted result
         then Some (Rejected \<lparr>rej_order_id = order_id incoming, rej_reason = reason result\<rparr>, e1)
         else (case match_against (opposite_of (side incoming)) incoming [] e1 of
                 None \<Rightarrow> None
               | Some (incoming', trades, e2) \<Rightarrow>
                   (if remaining_quantity incoming' > 0 \<and> otype incoming' = LIMIT
                    then Some (Trades trades, e2\<lparr>book := add_resting_order incoming' (book e2)\<rparr>)
                    else Some (Trades trades, e2))))"

definition engine_cancel_order :: "u64 \<Rightarrow> MatchingEngine \<Rightarrow> bool \<times> MatchingEngine" where
  "engine_cancel_order oid e =
     (case cancel_order oid (book e) of (found, b) \<Rightarrow> (found, e\<lparr>book := b\<rparr>))"

section \<open>Reference matching on a priority list\<close>

text \<open>
  The specification of matching: the resting orders of one side are a list in priority
  order, and an incoming order is filled from its head.
\<close>

fun fill_list :: "Order \<Rightarrow> Order list \<Rightarrow> u64 \<Rightarrow> Order \<times> Order list \<times> Trade list" where
  "fill_list incoming [] ts = (incoming, [], [])"
| "fill_list incoming (front # os) ts =
     (if remaining_quantity incoming = 0 \<or> price_stops incoming (price front)
      then (incoming, front # os, [])
      else let fill = min (remaining_quantity incoming) (remaining_quantity front);
               t = make_trade incoming front fill ts;
               incoming' = incoming\<lparr>remaining_quantity := remaining_quantity incoming - fill\<rparr>;
               front' = front\<lparr>remaining_quantity := remaining_quantity front - fill\<rparr>
           in if remaining_quantity front' = 0
              then (case fill_list incoming' os (ts + 1) of
                      (i, rest, trades) \<Rightarrow> (i, rest, t # trades))
              else (incoming', front' # os, [t]))"

lemma fill_list_done: "remaining_quantity inc = 0 \<Longrightarrow> fill_list inc os ts = (inc, os, [])"
  by (cases os) simp_all

lemma side_levels_set_other [simp]:
  "s \<noteq> s' \<Longrightarrow> side_levels s (set_side_levels s' m b) = side_levels s b"
  by (cases s; cases s') simp_all

lemma cancel_index_set_side [simp]: "cancel_index (set_side_levels s m b) = cancel_index b"
  by (cases s) simp_all

lemma opposite_of_neq [simp]: "opposite_of s \<noteq> s" "s \<noteq> opposite_of s"
  by (cases s; simp)+

lemma opposite_of_idem [simp]: "opposite_of (opposite_of s) = s"
  by (cases s) simp_all

lemma price_stops_side_lt:
  "price_stops inc p = (otype inc = LIMIT \<and> side_lt (opposite_of (side inc)) (price inc) p)"
  by (cases "side inc") (auto simp: price_stops_def)

lemma price_stops_same: "same_price p q \<Longrightarrow> price_stops inc p = price_stops inc q"
  by (simp add: price_stops_side_lt same_price_right)

lemma price_stops_remaining [simp]:
  "price_stops (inc\<lparr>remaining_quantity := r\<rparr>) p = price_stops inc p"
  by (simp add: price_stops_def)

definition filled_prefix :: "Order list \<Rightarrow> Order list \<Rightarrow> Order list" where
  "filled_prefix os rest = take (length os - length rest) os"

lemma fill_list_length: "fill_list inc os ts = (i, rest, trades) \<Longrightarrow> length rest \<le> length os"
  by (induction inc os ts arbitrary: i rest trades rule: fill_list.induct)
    (auto simp: Let_def split: if_splits prod.splits intro: le_SucI)

definition refines_fill ::
  "Side \<Rightarrow> MatchingEngine \<Rightarrow> Order list \<times> Trade list \<Rightarrow> MatchingEngine \<Rightarrow> bool" where
  "refines_fill s e r e' =
     (flat (side_levels s (book e')) = fst r \<and>
      levels_ok s (side_levels s (book e')) \<and>
      side_levels (opposite_of s) (book e') = side_levels (opposite_of s) (book e) \<and>
      collar e' = collar e \<and>
      last_price e' = (if snd r = [] then last_price e else Some (t_price (last (snd r)))) \<and>
      next_timestamp e' = next_timestamp e + of_nat (length (snd r)) \<and>
      cancel_index (book e') =
        (\<lambda>i. if i \<in> order_id ` set (filled_prefix (flat (side_levels s (book e))) (fst r))
             then None else cancel_index (book e) i))"

lemma refines_fill_refl:
  "levels_ok s (side_levels s (book e)) \<Longrightarrow> refines_fill s e (flat (side_levels s (book e)), []) e"
  by (simp add: refines_fill_def filled_prefix_def fun_eq_iff)

lemma levels_ok_pop:
  "levels_ok s ((p, front # dq) # rest) \<Longrightarrow> levels_ok s (if dq = [] then rest else (p, dq) # rest)"
  by (simp add: levels_ok_Cons)

lemma levels_ok_partial:
  "levels_ok s ((p, front # dq) # rest) \<Longrightarrow> r \<noteq> 0 \<Longrightarrow> r \<le> remaining_quantity front \<Longrightarrow>
     levels_ok s ((p, front\<lparr>remaining_quantity := r\<rparr> # dq) # rest)"
  by (auto simp: levels_ok_Cons resting_ok_def word_neq_0_conv)

lemma refines_fill_popped:
  assumes lv: "side_levels s (book e) = (p, front # dq) # rest"
    and mf: "match_fill s inc p front dq rest e = (inc', t, e1)"
    and popped: "remaining_quantity front \<le> remaining_quantity inc"
    and r: "refines_fill s e1 (os, trades) e'" and len: "length os \<le> length (dq @ flat rest)"
  shows "refines_fill s e (os, t # trades) e'"
proof -
  have e1: "e1 = e\<lparr>book := set_side_levels s (if dq = [] then rest else (p, dq) # rest)
                  (remove_from_index (order_id front) (book e)),
                last_price := Some (price front), next_timestamp := next_timestamp e + 1\<rparr>"
    and t: "t_price t = price front"
    using mf popped by (auto simp: match_fill_def Let_def min_def make_trade_def split: if_splits)
  have fl: "flat (side_levels s (book e1)) = dq @ flat rest" by (simp add: e1)
  have "filled_prefix (flat (side_levels s (book e))) os =
      front # filled_prefix (flat (side_levels s (book e1))) os"
    using len by (simp add: filled_prefix_def lv fl Suc_diff_le)
  then show ?thesis
    using r t by (auto simp: refines_fill_def e1 fun_eq_iff)
qed

lemma refines_fill_partial:
  assumes lv: "side_levels s (book e) = (p, front # dq) # rest"
    and ok: "levels_ok s ((p, front # dq) # rest)"
    and mf: "match_fill s inc p front dq rest e = (inc', t, e1)"
    and part: "remaining_quantity inc < remaining_quantity front"
  shows "refines_fill s e
           (front\<lparr>remaining_quantity := remaining_quantity front - remaining_quantity inc\<rparr> # dq @ flat rest,
            [t]) e1"
proof -
  let ?r = "remaining_quantity front - remaining_quantity inc"
  have r: "?r \<noteq> 0" "?r \<le> remaining_quantity front"
    using part by (auto simp: word_sub_le)
  have e1: "e1 = e\<lparr>book := set_side_levels s ((p, front\<lparr>remaining_quantity := ?r\<rparr> # dq) # rest) (book e),
                last_price := Some (price front), next_timestamp := next_timestamp e + 1\<rparr>"
    and t: "t_price t = price front"
    using mf part r by (auto simp: match_fill_def Let_def min_def make_trade_def split: if_splits)
  show ?thesis
    using levels_ok_partial [OF ok r] t
    by (simp add: refines_fill_def e1 filled_prefix_def lv fun_eq_iff)
qed

lemma match_fill_incoming:
  "match_fill s inc p front dq rest e = (inc', t, e1) \<Longrightarrow>
     inc' = inc\<lparr>remaining_quantity := remaining_quantity inc -
              min (remaining_quantity inc) (remaining_quantity front)\<rparr> \<and>
     t = make_trade inc front (min (remaining_quantity inc) (remaining_quantity front))
           (next_timestamp e) \<and>
     next_timestamp e1 = next_timestamp e + 1"
  by (auto simp: match_fill_def Let_def)

lemma match_against_stop:
  "remaining_quantity inc = 0 \<or> side_levels s (book e) = [] \<or>
   (\<exists>p dq rest. side_levels s (book e) = (p, dq) # rest \<and> price_stops inc p) \<Longrightarrow>
     match_against s inc trades e = Some (inc, trades, e)"
  by (subst match_against.simps) auto

lemma match_against_iter:
  "0 < remaining_quantity inc \<Longrightarrow> side_levels s (book e) = (p, front # dq) # rest \<Longrightarrow>
     \<not> price_stops inc p \<Longrightarrow> match_fill s inc p front dq rest e = (inc', t, e1) \<Longrightarrow>
     match_against s inc trades e = match_against s inc' (trades @ [t]) e1"
  by (subst match_against.simps) simp

lemma first_level:
  "levels_ok s m \<Longrightarrow> m \<noteq> [] \<Longrightarrow> \<exists>p front dq rest. m = (p, front # dq) # rest"
  by (cases m; cases "snd (hd m)") (auto simp: levels_ok_Cons)

lemma fill_list_first:
  assumes ok: "levels_ok s ((p, front # dq) # rest)"
  shows "fill_list inc (flat ((p, front # dq) # rest)) ts =
     (if remaining_quantity inc = 0 \<or> price_stops inc p
      then (inc, flat ((p, front # dq) # rest), [])
      else let fill = min (remaining_quantity inc) (remaining_quantity front);
               t = make_trade inc front fill ts;
               inc' = inc\<lparr>remaining_quantity := remaining_quantity inc - fill\<rparr>
           in if remaining_quantity front \<le> remaining_quantity inc
              then (case fill_list inc' (dq @ flat rest) (ts + 1) of (i, os, tr) \<Rightarrow> (i, os, t # tr))
              else (inc',
                front\<lparr>remaining_quantity := remaining_quantity front - remaining_quantity inc\<rparr> # dq @ flat rest,
                [t]))"
proof -
  have "price_stops inc (price front) = price_stops inc p"
    using at_first_level [OF ok, of front] price_stops_same by simp
  then show ?thesis by (auto simp: Let_def min_def)
qed

text \<open>
  The matching loop computes the reference: it never reaches the empty deque, and its
  effect on the book is that of \<open>fill_list\<close> on the side's priority list.
\<close>

lemma match_against_refines:
  assumes "levels_ok s (side_levels s (book e))"
    and "fill_list inc (flat (side_levels s (book e))) (next_timestamp e) = (i, os, ts)"
  shows "\<exists>e'. match_against s inc trades e = Some (i, trades @ ts, e') \<and> refines_fill s e (os, ts) e'"
  using assms
proof (induction "loop_measure s inc e" arbitrary: inc trades e i os ts rule: less_induct)
  case less
  note ok = less.prems(1) and fl = less.prems(2)
  show ?case
  proof (cases "remaining_quantity inc = 0 \<or> side_levels s (book e) = []")
    case True
    then show ?thesis
      using fl refines_fill_refl [OF ok] match_against_stop by (auto simp: fill_list_done)
  next
    case False
    then obtain p front dq rest where lv: "side_levels s (book e) = (p, front # dq) # rest"
      using first_level [OF ok] by auto
    note ok' = ok [unfolded lv]
    note fl' = fl [unfolded lv fill_list_first [OF ok']]
    have pos: "0 < remaining_quantity inc" using False by (simp add: word_gt_0)
    obtain inc' t e1 where mf: "match_fill s inc p front dq rest e = (inc', t, e1)"
      by (metis prod_cases3)
    note inc' = match_fill_incoming [OF mf]
    consider (stop) "price_stops inc p"
      | (popped) "\<not> price_stops inc p" "remaining_quantity front \<le> remaining_quantity inc"
      | (partial) "\<not> price_stops inc p" "remaining_quantity inc < remaining_quantity front"
      by fastforce
    then show ?thesis
    proof cases
      case stop
      then show ?thesis
        using fl' lv refines_fill_refl [OF ok] match_against_stop [of inc s e trades] by auto
    next
      case popped
      have e1: "flat (side_levels s (book e1)) = dq @ flat rest"
        "levels_ok s (side_levels s (book e1))"
        using mf popped levels_ok_pop [OF ok']
        by (auto simp: match_fill_def Let_def min_def split: if_splits)
      obtain ts' where rec: "fill_list inc' (dq @ flat rest) (next_timestamp e + 1) = (i, os, ts')"
        and ts: "ts = t # ts'"
        using fl' False popped inc' by (auto simp: Let_def split: prod.splits)
      obtain e' where "match_against s inc' (trades @ [t]) e1 = Some (i, (trades @ [t]) @ ts', e')"
        and "refines_fill s e1 (os, ts') e'"
        using less.hyps [OF match_fill_decreases [OF mf [symmetric] pos lv], of i os ts' "trades @ [t]"]
          e1 rec inc' by auto
      then show ?thesis
        using ts match_against_iter [OF pos lv popped(1) mf] fill_list_length [OF rec]
          refines_fill_popped [OF lv mf popped(2)] by auto
    next
      case partial
      have m: "min (remaining_quantity inc) (remaining_quantity front) = remaining_quantity inc"
        "\<not> remaining_quantity front \<le> remaining_quantity inc"
        using partial(2) by (simp_all add: min_absorb1 less_imp_le linorder_not_le)
      then have "remaining_quantity inc' = 0" "ts = [t]" "i = inc'" and
        "os = front\<lparr>remaining_quantity := remaining_quantity front - remaining_quantity inc\<rparr> # dq @ flat rest"
        using fl' False inc' partial(1) by (auto simp: Let_def)
      then show ?thesis
        using match_against_iter [OF pos lv partial(1) mf] match_against_stop [of inc' s e1]
          refines_fill_partial [OF lv ok' mf partial(2)] by simp
    qed
  qed
qed

section \<open>Properties of the reference matching\<close>

text \<open>
  Induction over a run of the reference: matching stops, or pops a filled resting order
  and goes on, or fills the incoming order and leaves a partially filled resting order.
\<close>

lemma fill_list_rule [consumes 1, case_names stop popped partial]:
  assumes run: "fill_list inc os ts = (i, rest, trades)"
    and stop: "\<And>inc os ts. os = [] \<or> remaining_quantity inc = 0 \<or> price_stops inc (price (hd os)) \<Longrightarrow>
      P inc os ts inc os []"
    and popped: "\<And>inc front os ts i rest trades.
      remaining_quantity inc \<noteq> 0 \<Longrightarrow> \<not> price_stops inc (price front) \<Longrightarrow>
      remaining_quantity front \<le> remaining_quantity inc \<Longrightarrow>
      P (inc\<lparr>remaining_quantity := remaining_quantity inc - remaining_quantity front\<rparr>) os (ts + 1)
        i rest trades \<Longrightarrow> length rest \<le> length os \<Longrightarrow>
      P inc (front # os) ts i rest (make_trade inc front (remaining_quantity front) ts # trades)"
    and partial: "\<And>inc front os ts.
      remaining_quantity inc \<noteq> 0 \<Longrightarrow> \<not> price_stops inc (price front) \<Longrightarrow>
      remaining_quantity inc < remaining_quantity front \<Longrightarrow>
      P inc (front # os) ts (inc\<lparr>remaining_quantity := 0\<rparr>)
        (front\<lparr>remaining_quantity := remaining_quantity front - remaining_quantity inc\<rparr> # os)
        [make_trade inc front (remaining_quantity inc) ts]"
  shows "P inc os ts i rest trades"
  using run
proof (induction inc os ts arbitrary: i rest trades rule: fill_list.induct)
  case (1 inc ts)
  then show ?case using stop [of "[]" inc ts] by simp
next
  case (2 inc front os ts)
  consider (stop) "remaining_quantity inc = 0 \<or> price_stops inc (price front)"
    | (popped) "\<not> (remaining_quantity inc = 0 \<or> price_stops inc (price front))"
        "remaining_quantity front \<le> remaining_quantity inc"
    | (partial) "\<not> (remaining_quantity inc = 0 \<or> price_stops inc (price front))"
        "remaining_quantity inc < remaining_quantity front" by fastforce
  then show ?case
  proof cases
    case stop
    with "2.prems" assms(2) [of "front # os" inc ts] show ?thesis by auto
  next
    case popped
    then have m: "min (remaining_quantity inc) (remaining_quantity front) = remaining_quantity front"
      by (simp add: min_absorb2)
    obtain trades' where f: "fill_list
        (inc\<lparr>remaining_quantity := remaining_quantity inc - remaining_quantity front\<rparr>) os (ts + 1) =
        (i, rest, trades')" and t: "trades = make_trade inc front (remaining_quantity front) ts # trades'"
      using "2.prems" popped m by (auto simp: Let_def split: prod.splits)
    then show ?thesis
      using assms(3) [of inc front os ts i rest trades'] popped fill_list_length [OF f]
        "2.IH" [OF popped(1) refl refl refl refl] m by simp
  next
    case partial
    then have m: "min (remaining_quantity inc) (remaining_quantity front) = remaining_quantity inc"
      "remaining_quantity front - remaining_quantity inc \<noteq> 0"
      by (auto simp: min_absorb1)
    then show ?thesis
      using "2.prems" assms(4) [of inc front os ts] partial by (simp add: Let_def)
  qed
qed

lemma fill_list_incoming:
  "fill_list inc os ts = (i, rest, trades) \<Longrightarrow>
     \<exists>r \<le> remaining_quantity inc. i = inc\<lparr>remaining_quantity := r\<rparr>"
proof (induction rule: fill_list_rule)
  case (stop inc os ts)
  show ?case by (intro exI [of _ "remaining_quantity inc"]) simp
next
  case (popped inc front os ts i rest trades)
  then obtain r where "r \<le> remaining_quantity inc - remaining_quantity front"
    "i = inc\<lparr>remaining_quantity := r\<rparr>" by auto
  with order_trans [OF _ word_sub_le [OF popped(3)]] show ?case
    by (intro exI [of _ r]) simp
next
  case (partial inc front os ts)
  show ?case by (intro exI [of _ 0]) simp
qed

text \<open>Quantity is conserved, on the incoming side and on the resting side.\<close>

definition traded :: "Trade list \<Rightarrow> nat" where
  "traded ts = sum_list (map (\<lambda>t. unat (t_quantity t)) ts)"

definition depth :: "Order list \<Rightarrow> nat" where
  "depth os = sum_list (map (\<lambda>x. unat (remaining_quantity x)) os)"

lemma traded_simps [simp]: "traded [] = 0" "traded (t # ts) = unat (t_quantity t) + traded ts"
  by (simp_all add: traded_def)

lemma depth_simps [simp]:
  "depth [] = 0" "depth (x # os) = unat (remaining_quantity x) + depth os"
  "depth (os @ os') = depth os + depth os'"
  by (simp_all add: depth_def)

lemma make_trade_fields [simp]:
  "t_quantity (make_trade inc front f ts) = f"
  "t_price (make_trade inc front f ts) = price front"
  "t_timestamp (make_trade inc front f ts) = ts"
  by (simp_all add: make_trade_def)

lemma fill_list_conserves:
  "fill_list inc os ts = (i, rest, trades) \<Longrightarrow>
     unat (remaining_quantity inc) = unat (remaining_quantity i) + traded trades \<and>
     depth os = depth rest + traded trades"
proof (induction rule: fill_list_rule)
  case (popped inc front os ts i rest trades)
  then show ?case by (auto simp: unat_u64_sub word_le_nat_alt)
next
  case (partial inc front os ts)
  then show ?case by (auto simp: unat_u64_sub word_le_nat_alt word_less_nat_alt)
qed simp

text \<open>Matching goes as far as it can.\<close>

lemma fill_list_exhausts:
  "fill_list inc os ts = (i, rest, trades) \<Longrightarrow>
     remaining_quantity i = 0 \<or> rest = [] \<or> price_stops inc (price (hd rest))"
  by (induction rule: fill_list_rule) auto

text \<open>No trade violates the incoming order's limit.\<close>

lemma fill_list_within_limit:
  "fill_list inc os ts = (i, rest, trades) \<Longrightarrow> \<forall>t \<in> set trades. \<not> price_stops inc (t_price t)"
  by (induction rule: fill_list_rule) auto

lemma fill_list_positive:
  "fill_list inc os ts = (i, rest, trades) \<Longrightarrow> \<forall>x \<in> set os. remaining_quantity x \<noteq> 0 \<Longrightarrow>
     \<forall>t \<in> set trades. t_quantity t \<noteq> 0"
  by (induction rule: fill_list_rule) auto

lemma fill_list_timestamps:
  "fill_list inc os ts = (i, rest, trades) \<Longrightarrow>
     map t_timestamp trades = map (\<lambda>k. ts + of_nat k) [0 ..< length trades]"
proof (induction rule: fill_list_rule)
  case (popped inc front os ts i rest trades)
  then show ?case by (simp add: map_upt_Suc ac_simps del: upt_Suc)
qed simp_all

text \<open>
  The trades hit the priority list from its head: all orders before the last one hit are
  filled completely and gone, the last one is gone or is the head of what is left.
\<close>

definition resting_id :: "Order \<Rightarrow> Trade \<Rightarrow> u64" where
  "resting_id inc t = (if side inc = BUY then sell_order_id t else buy_order_id t)"

definition incoming_id :: "Order \<Rightarrow> Trade \<Rightarrow> u64" where
  "incoming_id inc t = (if side inc = BUY then buy_order_id t else sell_order_id t)"

lemma resting_id_make_trade [simp]:
  "side inc' = side inc \<Longrightarrow> resting_id inc' (make_trade inc front f ts) = order_id front"
  "side inc' = side inc \<Longrightarrow> incoming_id inc' (make_trade inc front f ts) = order_id inc"
  by (simp_all add: resting_id_def incoming_id_def make_trade_def)

lemma resting_id_update [simp]:
  "resting_id (inc\<lparr>remaining_quantity := r\<rparr>) = resting_id inc"
  "incoming_id (inc\<lparr>remaining_quantity := r\<rparr>) = incoming_id inc"
  by (simp_all add: resting_id_def incoming_id_def fun_eq_iff)

definition hits :: "Order list \<Rightarrow> Trade list \<Rightarrow> Order list \<Rightarrow> bool" where
  "hits os trades rest =
     (\<exists>filled tail. os = filled @ tail \<and>
        map t_quantity (take (length filled) trades) = map remaining_quantity filled \<and>
        (rest = tail \<and> length trades = length filled \<or>
         (\<exists>x tail' r. tail = x # tail' \<and> rest = x\<lparr>remaining_quantity := r\<rparr> # tail' \<and>
            0 < r \<and> r < remaining_quantity x \<and> length trades = Suc (length filled) \<and>
            t_quantity (last trades) = remaining_quantity x - r)))"

lemma hits_Nil: "hits os [] os"
  unfolding hits_def by (rule exI [of _ "[]"]) simp

lemma hits_popped:
  assumes "hits os trades rest" and "t_quantity t = remaining_quantity front"
  shows "hits (front # os) (t # trades) rest"
proof -
  obtain filled tail where *: "os = filled @ tail"
    "map t_quantity (take (length filled) trades) = map remaining_quantity filled"
    "rest = tail \<and> length trades = length filled \<or>
         (\<exists>x tail' r. tail = x # tail' \<and> rest = x\<lparr>remaining_quantity := r\<rparr> # tail' \<and>
            0 < r \<and> r < remaining_quantity x \<and> length trades = Suc (length filled) \<and>
            t_quantity (last trades) = remaining_quantity x - r)"
    using assms(1) unfolding hits_def by blast
  from *(3) have "rest = tail \<and> length (t # trades) = length (front # filled) \<or>
         (\<exists>x tail' r. tail = x # tail' \<and> rest = x\<lparr>remaining_quantity := r\<rparr> # tail' \<and>
            0 < r \<and> r < remaining_quantity x \<and> length (t # trades) = Suc (length (front # filled)) \<and>
            t_quantity (last (t # trades)) = remaining_quantity x - r)"
    by (cases trades) auto
  with *(1,2) assms(2) show ?thesis
    unfolding hits_def by (intro exI [of _ "front # filled"] exI [of _ tail]) simp
qed

lemma hits_partial:
  assumes "0 < q" and "q < remaining_quantity front"
  shows "hits (front # os) [t\<lparr>t_quantity := q\<rparr>]
           (front\<lparr>remaining_quantity := remaining_quantity front - q\<rparr> # os)"
proof -
  have "unat (remaining_quantity front - q) = unat (remaining_quantity front) - unat q"
    using assms(2) by (intro unat_u64_sub) simp
  then have "0 < remaining_quantity front - q" "remaining_quantity front - q < remaining_quantity front"
    using assms by (simp_all add: word_less_nat_alt)
  then show ?thesis
    unfolding hits_def
    by (intro exI [of _ "[]"] exI [of _ "front # os"]) (auto intro!: exI [of _ "remaining_quantity front - q"])
qed

lemma fill_list_hits: "fill_list inc os ts = (i, rest, trades) \<Longrightarrow> hits os trades rest"
proof (induction rule: fill_list_rule)
  case (stop inc os ts)
  then show ?case by (simp add: hits_Nil)
next
  case (popped inc front os ts i rest trades)
  then show ?case by (simp add: hits_popped)
next
  case (partial inc front os ts)
  then show ?case
    using hits_partial [of "remaining_quantity inc" front os
        "make_trade inc front (remaining_quantity inc) ts"]
    by (simp add: word_gt_0 make_trade_def)
qed

lemma fill_list_priority:
  "fill_list inc os ts = (i, rest, trades) \<Longrightarrow>
     length trades \<le> length os \<and>
     map (resting_id inc) trades = map order_id (take (length trades) os) \<and>
     map t_price trades = map price (take (length trades) os) \<and>
     (\<forall>t \<in> set trades. incoming_id inc t = order_id inc)"
  by (induction rule: fill_list_rule) auto

end
