(* ===== verification/Samples.thy ===== *)
theory Samples
  imports MatchingEngine
begin

text \<open>
  A short run of the engine on concrete orders: a limit sell of 5 at 100 into an empty
  book, then a limit buy of 3 at 100 that trades with it.  The runs are used to show that
  the hypotheses of the theorems hold on real states.
\<close>

definition ask_100 :: Order where
  "ask_100 = default_order\<lparr>order_id := 1, client_id := 7, side := SELL, price := lit_100, quantity := 5\<rparr>"

definition bid_100 :: Order where
  "bid_100 = default_order\<lparr>order_id := 2, client_id := 8, side := BUY, price := lit_100, quantity := 3\<rparr>"

definition resting_ask :: "u64 \<Rightarrow> Order" where
  "resting_ask r = ask_100\<lparr>timestamp := 1, remaining_quantity := r\<rparr>"

definition engine_0 :: MatchingEngine where
  "engine_0 = make_engine lit_10"

definition engine_1 :: MatchingEngine where
  "engine_1 =
     \<lparr>book = \<lparr>bids = [], asks = [(lit_100, [resting_ask 5])],
              cancel_index = [1 \<mapsto> \<lparr>ci_side = SELL, ci_price = lit_100\<rparr>]\<rparr>,
      collar = make_collar lit_10, last_price = None, next_timestamp = 2\<rparr>"

definition trade_3 :: Trade where
  "trade_3 = \<lparr>buy_order_id = 2, sell_order_id = 1, t_price = lit_100, t_quantity = 3, t_timestamp = 3\<rparr>"

definition engine_2 :: MatchingEngine where
  "engine_2 =
     \<lparr>book = \<lparr>bids = [], asks = [(lit_100, [resting_ask 2])],
              cancel_index = [1 \<mapsto> \<lparr>ci_side = SELL, ci_price = lit_100\<rparr>]\<rparr>,
      collar = make_collar lit_10, last_price = Some lit_100, next_timestamp = 4\<rparr>"

lemmas sample_orders = ask_100_def bid_100_def resting_ask_def default_order_def

lemma sample_fields [simp]:
  "order_id bid_100 = 2" "side bid_100 = BUY" "otype bid_100 = LIMIT" "price bid_100 = lit_100"
  "quantity bid_100 = 3" "order_id (resting_ask r) = 1" "price (resting_ask r) = lit_100"
  "t_quantity trade_3 = 3"
  by (simp_all add: sample_orders trade_3_def)

lemma sample_prices [simp]: "\<not> lit_100 < lit_100" "\<not> is_nan lit_100"
  by simp (simp add: lit_100_def is_nan_def inf_mag_def mag_def)

lemma run_sell: "submit_order ask_100 engine_0 = Some (Trades [], engine_1)"
  by (simp add: submit_order_def engine_0_def engine_1_def make_engine_def empty_book_def check_def
      match_against.simps add_resting_order_def sample_orders)

lemma run_buy: "submit_order bid_100 engine_1 = Some (Trades [trade_3], engine_2)"
  by (simp add: submit_order_def engine_1_def engine_2_def check_def match_against.simps trade_3_def
      price_stops_def match_fill_def make_trade_def sample_orders)

lemma engine_1_book_ok: "book_ok (book engine_1)"
  by (simp add: book_ok_def engine_1_def levels_ok_Cons resting_ok_def same_price_def sample_orders)

lemma engine_1_index_ok: "index_ok (book engine_1)"
  by (auto simp: index_ok_def engine_1_def resting_def fun_eq_iff sample_orders)

lemma engine_2_book_ok: "book_ok (book engine_2)"
  by (simp add: book_ok_def engine_2_def levels_ok_Cons resting_ok_def same_price_def sample_orders)

text \<open>After a trade at 100 the default collar refuses a bid at 10.\<close>

lemma sample_too_low:
  "check (make_collar lit_10) lit_10 (Some lit_100) = \<lparr>accepted = False, reason = PRICE_TOO_LOW\<rparr>"
proof -
  have "\<not> lit_10 > F64 0x405b800000000000" "lit_10 < F64 0x4056800000000000"
    by (simp_all add: lit_10_def less_double_def dkey_def is_nan_def inf_mag_def mag_def dneg_def)
  then show ?thesis by (simp add: ten_percent_of_hundred)
qed

end
