(* ===== verification/EngineSpec.thy ===== *)
theory EngineSpec
  imports MatchingEngine Samples "HOL-Library.Multiset"
begin

text \<open>
  The specification of the matching engine and the proof that \<open>submit_order\<close> and
  \<open>cancel_order\<close> implement it.  The abstract exchange has, for each side, one list of resting
  orders in priority order; the price-level maps, the deques and the cancel index of the
  code are gone.  On the refinement rest the invariant of the reachable states (levels well
  formed, cancel index exact, book uncrossed, price-time priority) and the properties of a
  single submission: conservation of quantity, the limit, priority of the fills, the clock.
\<close>

section \<open>The abstract exchange\<close>

record Exchange =
  x_side :: "Side \<Rightarrow> Order list"
  x_last :: "double option"
  x_next :: u64

definition abs_engine :: "MatchingEngine \<Rightarrow> Exchange" where
  "abs_engine e =
     \<lparr>x_side = (\<lambda>s. flat (side_levels s (book e))), x_last = last_price e,
      x_next = next_timestamp e\<rparr>"

definition stamped :: "u64 \<Rightarrow> Order \<Rightarrow> Order" where
  "stamped ts o1 = o1\<lparr>timestamp := ts, remaining_quantity := quantity o1\<rparr>"

definition spec_submit :: "PriceCollar \<Rightarrow> Order \<Rightarrow> Exchange \<Rightarrow> SubmitResult \<times> Exchange" where
  "spec_submit c o1 x =
     (let s = side o1; opp = opposite_of s; result = check c (price o1) (x_last x)
      in if otype o1 = LIMIT \<and> \<not> accepted result
         then (Rejected \<lparr>rej_order_id = order_id o1, rej_reason = reason result\<rparr>,
               x\<lparr>x_next := x_next x + 1\<rparr>)
         else (case fill_list (stamped (x_next x) o1) (x_side x opp) (x_next x + 1) of
                 (i, rest, trades) \<Rightarrow>
                   (Trades trades,
                    \<lparr>x_side = (\<lambda>s'. if s' = opp then rest
                                   else if otype o1 = LIMIT \<and> 0 < remaining_quantity i
                                        then insert_by_priority s i (x_side x s)
                                        else x_side x s),
                     x_last = (if trades = [] then x_last x else Some (t_price (last trades))),
                     x_next = x_next x + 1 + of_nat (length trades)\<rparr>)))"

definition spec_cancel :: "u64 \<Rightarrow> Exchange \<Rightarrow> bool \<times> Exchange" where
  "spec_cancel oid x =
     (list_ex (\<lambda>o1. order_id o1 = oid) (x_side x BUY @ x_side x SELL),
      x\<lparr>x_side := (\<lambda>s. filter (\<lambda>o1. order_id o1 \<noteq> oid) (x_side x s))\<rparr>)"

text \<open>An order the book can hold: a limit price that is a number.\<close>

definition valid_order :: "Order \<Rightarrow> bool" where
  "valid_order o1 = (otype o1 = LIMIT \<longrightarrow> \<not> is_nan (price o1))"

lemma bid_100_valid: "valid_order bid_100"
  by (simp add: valid_order_def sample_orders)

section \<open>The course of a submission\<close>

lemma stamped_fields [simp]:
  "order_id (stamped ts o1) = order_id o1" "side (stamped ts o1) = side o1"
  "otype (stamped ts o1) = otype o1" "price (stamped ts o1) = price o1"
  "quantity (stamped ts o1) = quantity o1" "timestamp (stamped ts o1) = ts"
  "remaining_quantity (stamped ts o1) = quantity o1"
  by (simp_all add: stamped_def)

lemma book_ok_side: "book_ok b = (\<forall>s. levels_ok s (side_levels s b))"
proof -
  have "(\<forall>s. levels_ok s (side_levels s b)) =
      (levels_ok BUY (side_levels BUY b) \<and> levels_ok SELL (side_levels SELL b))"
    by (metis Side.exhaust)
  then show ?thesis by (simp add: book_ok_def)
qed

lemma side_cases: "s' = opposite_of s \<or> s' = s"
  by (cases s; cases s') simp_all

lemma refines_fill_book_ok:
  "book_ok (book e) \<Longrightarrow> refines_fill s e r e' \<Longrightarrow> book_ok (book e')"
  unfolding book_ok_side refines_fill_def using side_cases by metis

text \<open>The state after matching, with the remainder of a limit order added to the book.\<close>

definition rested :: "Order \<Rightarrow> MatchingEngine \<Rightarrow> MatchingEngine" where
  "rested i e = (if 0 < remaining_quantity i \<and> otype i = LIMIT
                 then e\<lparr>book := add_resting_order i (book e)\<rparr> else e)"

lemma submit_order_cases:
  assumes "book_ok (book e)"
  obtains (rejected) "otype o1 = LIMIT" "\<not> accepted (check (collar e) (price o1) (last_price e))"
      "submit_order o1 e =
         Some (Rejected \<lparr>rej_order_id = order_id o1,
                         rej_reason = reason (check (collar e) (price o1) (last_price e))\<rparr>,
               e\<lparr>next_timestamp := next_timestamp e + 1\<rparr>)"
  | (matched) i os ts e2 where
      "\<not> (otype o1 = LIMIT \<and> \<not> accepted (check (collar e) (price o1) (last_price e)))"
      "fill_list (stamped (next_timestamp e) o1) (flat (side_levels (opposite_of (side o1)) (book e)))
         (next_timestamp e + 1) = (i, os, ts)"
      "refines_fill (opposite_of (side o1)) (e\<lparr>next_timestamp := next_timestamp e + 1\<rparr>) (os, ts) e2"
      "submit_order o1 e = Some (Trades ts, rested i e2)"
proof (cases "otype o1 = LIMIT \<and> \<not> accepted (check (collar e) (price o1) (last_price e))")
  case True
  then show ?thesis by (intro rejected) (simp_all add: submit_order_def Let_def)
next
  case False
  let ?opp = "opposite_of (side o1)" and ?e1 = "e\<lparr>next_timestamp := next_timestamp e + 1\<rparr>"
  obtain i os ts where f: "fill_list (stamped (next_timestamp e) o1)
      (flat (side_levels ?opp (book ?e1))) (next_timestamp ?e1) = (i, os, ts)"
    by (metis prod_cases3)
  have "levels_ok ?opp (side_levels ?opp (book ?e1))" using assms by (simp add: book_ok_side)
  from match_against_refines [OF this f, of "[]"] obtain e2 where
    "match_against ?opp (stamped (next_timestamp e) o1) [] ?e1 = Some (i, ts, e2)"
    and r: "refines_fill ?opp ?e1 (os, ts) e2" by auto
  then have "submit_order o1 e = Some (Trades ts, rested i e2)"
    using False by (auto simp: submit_order_def Let_def stamped_def rested_def)
  with f r False show ?thesis by (intro matched) simp_all
qed

lemma remainder_ok:
  assumes "fill_list (stamped t o1) os n = (i, rest, trades)" and "valid_order o1"
    and "0 < remaining_quantity i" and "otype i = LIMIT"
  shows "resting_ok (side i) (price i) i"
proof -
  obtain r where "r \<le> quantity o1" "i = (stamped t o1)\<lparr>remaining_quantity := r\<rparr>"
    using fill_list_incoming [OF assms(1)] by auto
  then show ?thesis using assms by (auto simp: resting_ok_def valid_order_def intro: same_price_refl)
qed

lemma rested_fields [simp]:
  "collar (rested i e) = collar e" "last_price (rested i e) = last_price e"
  "next_timestamp (rested i e) = next_timestamp e"
  by (simp_all add: rested_def)

lemma rested_sides:
  assumes "book_ok (book e)" and "0 < remaining_quantity i \<Longrightarrow> otype i = LIMIT \<Longrightarrow> \<not> is_nan (price i)"
  shows "flat (side_levels s (book (rested i e))) =
           (if s = side i \<and> 0 < remaining_quantity i \<and> otype i = LIMIT
            then insert_by_priority s i (flat (side_levels s (book e)))
            else flat (side_levels s (book e)))"
  using assms flat_add [of "book e" i] by (cases s; cases "side i") (auto simp: rested_def)

lemma rested_book_ok:
  "book_ok (book e) \<Longrightarrow>
     (0 < remaining_quantity i \<Longrightarrow> otype i = LIMIT \<Longrightarrow> resting_ok (side i) (price i) i) \<Longrightarrow>
     book_ok (book (rested i e))"
  by (auto simp: rested_def intro: book_ok_add)

lemma fill_keeps_incoming:
  assumes "fill_list (stamped t o1) os n = (i, rest, trades)"
  shows "order_id i = order_id o1" "side i = side o1" "otype i = otype o1" "price i = price o1"
    "timestamp i = t" "quantity i = quantity o1"
  using fill_list_incoming [OF assms] by auto

text \<open>Both sides of the book after a submission that passed the collar.\<close>

lemma matched_sides:
  assumes ok: "book_ok (book e)" and v: "valid_order o1"
    and f: "fill_list (stamped t o1) (flat (side_levels (opposite_of (side o1)) (book e))) n = (i, os, ts)"
    and r: "refines_fill (opposite_of (side o1)) (e\<lparr>next_timestamp := n\<rparr>) (os, ts) e2"
  shows "book_ok (book (rested i e2))"
    and "flat (side_levels (opposite_of (side o1)) (book (rested i e2))) = os"
    and "flat (side_levels (side o1) (book (rested i e2))) =
           (if 0 < remaining_quantity i \<and> otype o1 = LIMIT
            then insert_by_priority (side o1) i (flat (side_levels (side o1) (book e)))
            else flat (side_levels (side o1) (book e)))"
proof -
  note keep = fill_keeps_incoming [OF f]
  have ok2: "book_ok (book e2)" using refines_fill_book_ok [OF _ r] ok by simp
  have ro: "resting_ok (side i) (price i) i" if "0 < remaining_quantity i" "otype i = LIMIT"
    using remainder_ok [OF f v that] .
  then have nn: "\<not> is_nan (price i)" if "0 < remaining_quantity i" "otype i = LIMIT"
    using that by (simp add: resting_ok_def same_price_def)
  show "book_ok (book (rested i e2))" using rested_book_ok [OF ok2 ro] .
  show "flat (side_levels (opposite_of (side o1)) (book (rested i e2))) = os"
    and "flat (side_levels (side o1) (book (rested i e2))) =
           (if 0 < remaining_quantity i \<and> otype o1 = LIMIT
            then insert_by_priority (side o1) i (flat (side_levels (side o1) (book e)))
            else flat (side_levels (side o1) (book e)))"
    using r rested_sides [OF ok2 nn] keep by (simp_all add: refines_fill_def)
qed

section \<open>Refinement\<close>

text \<open>
  C1: Submitting an order to an engine with a well-formed book always returns (the loop
  ends and never touches an empty deque), keeps the book well formed and the collar, and
  does to the priority lists, the last price, the clock and the reply what the abstract
  exchange does.
\<close>

theorem submit_order_refines:
  assumes "book_ok (book e)" and "valid_order o1"
  shows "\<exists>r e'. submit_order o1 e = Some (r, e') \<and> book_ok (book e') \<and> collar e' = collar e \<and>
           spec_submit (collar e) o1 (abs_engine e) = (r, abs_engine e')"
  using assms(1)
proof (cases rule: submit_order_cases [of e o1])
  case rejected
  then show ?thesis using assms(1) by (simp add: spec_submit_def abs_engine_def Let_def)
next
  case (matched i os ts e2)
  note sides = matched_sides [OF assms matched(2,3)]
  have "x_side (abs_engine (rested i e2)) s =
      (if s = opposite_of (side o1) then os
       else if otype o1 = LIMIT \<and> 0 < remaining_quantity i
            then insert_by_priority (side o1) i (x_side (abs_engine e) (side o1))
            else x_side (abs_engine e) (side o1))" for s
    using side_cases [of s "side o1"] sides by (auto simp: abs_engine_def)
  moreover have "x_last (abs_engine (rested i e2)) =
      (if ts = [] then x_last (abs_engine e) else Some (t_price (last ts)))"
    and "x_next (abs_engine (rested i e2)) = x_next (abs_engine e) + 1 + of_nat (length ts)"
    and "collar (rested i e2) = collar e"
    using matched(3) by (auto simp: abs_engine_def refines_fill_def)
  moreover have "fill_list (stamped (x_next (abs_engine e)) o1)
      (x_side (abs_engine e) (opposite_of (side o1))) (x_next (abs_engine e) + 1) = (i, os, ts)"
    and "check (collar e) (price o1) (x_last (abs_engine e)) =
      check (collar e) (price o1) (last_price e)"
    using matched(2) by (simp_all add: abs_engine_def)
  ultimately show ?thesis
    using matched(1,4) sides(1)
    by (auto simp: spec_submit_def Let_def intro!: Exchange.equality)
qed

theorem submit_order_refines_witness:
  "book_ok (book engine_1) \<and> valid_order bid_100 \<and>
   spec_submit (collar engine_1) bid_100 (abs_engine engine_1) = (Trades [trade_3], abs_engine engine_2)"
  using submit_order_refines [of engine_1 bid_100] engine_1_book_ok bid_100_valid
  by (auto simp: run_buy)

lemma in_resting_side: "x \<in> set (resting b) = (\<exists>s. x \<in> set (flat (side_levels s b)))"
proof -
  have "(\<exists>s. x \<in> set (flat (side_levels s b))) =
      (x \<in> set (flat (side_levels BUY b)) \<or> x \<in> set (flat (side_levels SELL b)))"
    by (metis Side.exhaust)
  then show ?thesis by (simp add: resting_def)
qed

lemma index_ok_unknown:
  "index_ok b \<Longrightarrow> oid \<notin> order_id ` set (resting b) \<Longrightarrow> cancel_order oid b = (False, b)"
  by (auto simp: index_ok_def index_of_None intro: cancel_order_unknown)

lemma cancelled_sides:
  assumes "book_ok b" and "index_ok b"
  shows "flat (side_levels s (snd (cancel_order oid b))) =
           filter (\<lambda>o1. order_id o1 \<noteq> oid) (flat (side_levels s b))"
proof (cases "oid \<in> order_id ` set (resting b)")
  case True
  then show ?thesis using cancel_resting(2,3) [OF assms] by (cases s) auto
next
  case False
  then have "oid \<notin> order_id ` set (flat (side_levels s b))" using in_resting_side by blast
  then show ?thesis using False index_ok_unknown [OF assms(2)] by (simp add: filter_other_ids)
qed

lemma cancel_order_index_ok:
  assumes "book_ok b" and "index_ok b"
  shows "index_ok (snd (cancel_order oid b))"
proof (cases "oid \<in> order_id ` set (resting b)")
  case True
  then show ?thesis using cancel_resting(4) [OF assms] by auto
next
  case False
  then show ?thesis using index_ok_unknown [OF assms(2)] assms(2) by simp
qed

text \<open>
  C12: With an exact cancel index, cancelling an id reports whether an order with that
  id rests in the book, removes exactly that order from its side and nothing else, and
  keeps the book well formed and the index exact.
\<close>

theorem cancel_order_refines:
  assumes "book_ok (book e)" and "index_ok (book e)"
    and "engine_cancel_order oid e = (found, e')"
  shows "spec_cancel oid (abs_engine e) = (found, abs_engine e') \<and> book_ok (book e') \<and>
           index_ok (book e') \<and> collar e' = collar e"
proof -
  let ?b' = "snd (cancel_order oid (book e))"
  have e': "e' = e\<lparr>book := ?b'\<rparr>" and found: "found = fst (cancel_order oid (book e))"
    using assms(3) by (auto simp: engine_cancel_order_def split: prod.splits)
  have f: "found = (oid \<in> order_id ` set (resting (book e)))"
    using cancel_resting(1) [OF assms(1,2)] index_ok_unknown [OF assms(2)] found
    by (cases "oid \<in> order_id ` set (resting (book e))") auto
  have "list_ex (\<lambda>o1. order_id o1 = oid)
      (x_side (abs_engine e) BUY @ x_side (abs_engine e) SELL) = found"
    by (auto simp: f list_ex_iff abs_engine_def resting_def)
  then show ?thesis
    using cancelled_sides [OF assms(1,2)] book_ok_cancel [OF assms(1)] cancel_order_index_ok [OF assms(1,2)]
    by (simp add: e' spec_cancel_def abs_engine_def)
qed

theorem cancel_order_refines_witness:
  "\<exists>e'. book_ok (book engine_1) \<and> index_ok (book engine_1) \<and>
     engine_cancel_order 1 engine_1 = (True, e') \<and>
     spec_cancel 1 (abs_engine engine_1) = (True, abs_engine e') \<and> x_side (abs_engine e') SELL = []"
proof -
  let ?e = "engine_1\<lparr>book := snd (cancel_order 1 (book engine_1))\<rparr>"
  have "engine_cancel_order 1 engine_1 = (True, ?e)" "asks (book ?e) = []"
    by (simp_all add: engine_cancel_order_def engine_1_def cancel_order_def cancel_in_level_def sample_orders)
  then show ?thesis
    using cancel_order_refines [of engine_1 1 True ?e] engine_1_book_ok engine_1_index_ok
    by (intro exI [of _ ?e]) (simp add: abs_engine_def)
qed

section \<open>What matching leaves of the opposite side\<close>

lemma fill_list_rest:
  "fill_list inc os ts = (i, rest, trades) \<Longrightarrow>
     map (remaining_quantity_update (\<lambda>_. 0)) rest =
       drop (length os - length rest) (map (remaining_quantity_update (\<lambda>_. 0)) os)"
proof (induction rule: fill_list_rule)
  case (popped inc front os ts i rest trades)
  then show ?case by (simp add: Suc_diff_le)
qed simp_all

text \<open>Every field but the remaining quantity survives, in the same order.\<close>

lemma fill_list_view:
  assumes "fill_list inc os ts = (i, rest, trades)"
    and "\<And>x r. f (x\<lparr>remaining_quantity := r\<rparr>) = f x"
  shows "map f os = map f (filled_prefix os rest) @ map f rest"
proof -
  have f: "f \<circ> remaining_quantity_update (\<lambda>_. 0) = f" using assms(2) by (auto simp: fun_eq_iff)
  from arg_cong [OF fill_list_rest [OF assms(1)], of "map f"]
  have "map f rest = drop (length os - length rest) (map f os)"
    by (simp add: drop_map list.map_comp f)
  then show ?thesis by (simp add: filled_prefix_def drop_map flip: map_append)
qed

lemma in_fill_rest:
  assumes "fill_list inc os ts = (i, rest, trades)" and "y \<in> set rest"
  shows "\<exists>x \<in> set os. price x = price y \<and> order_id x = order_id y \<and> timestamp x = timestamp y"
proof -
  let ?f = "\<lambda>x. (price x, order_id x, timestamp x)"
  have "?f y \<in> set (map ?f os)"
    using fill_list_view [OF assms(1), of ?f] assms(2) by simp
  then show ?thesis by auto
qed

section \<open>The cancel index stays exact\<close>

lemma index_of_append_removed:
  assumes "distinct (map order_id (os @ os'))"
  shows "index_of os' = (\<lambda>i. if i \<in> order_id ` set os then None else index_of (os @ os') i)"
  using assms
proof (induction os)
  case Nil
  then show ?case by simp
next
  case (Cons x os)
  have "index_of os' (order_id x) = None" using Cons.prems by (auto simp: index_of_None)
  then show ?case using Cons by (auto simp: fun_eq_iff)
qed

lemma resting_perm:
  "mset (map f (resting b)) =
     mset (map f (flat (side_levels s b))) + mset (map f (flat (side_levels (opposite_of s) b)))"
  by (cases s) (simp_all add: resting_def)

lemma index_of_mset_cong:
  assumes "mset (map (\<lambda>x. (order_id x, side x, price x)) os) =
           mset (map (\<lambda>x. (order_id x, side x, price x)) os')"
    and "distinct (map order_id os)"
  shows "index_of os = index_of os' \<and> distinct (map order_id os')"
proof -
  have "mset (map order_id os) = mset (map order_id os')"
    using arg_cong [OF assms(1), of "image_mset fst"] by (simp add: image_mset.compositionality o_def)
  then have d: "distinct (map order_id os')" using assms(2) mset_eq_imp_distinct_iff by blast
  have "(\<lambda>x. (order_id x, side x, price x)) ` set os = (\<lambda>x. (order_id x, side x, price x)) ` set os'"
    using arg_cong [OF assms(1), of set_mset] by simp
  with d assms(2) show ?thesis by (blast intro: index_of_cong)
qed

lemma index_ok_matched:
  assumes ix: "index_ok (book e)"
    and f: "fill_list inc (flat (side_levels s (book e))) n = (i, os, ts)"
    and r: "refines_fill s e (os, ts) e2"
  shows "index_ok (book e2)"
proof -
  let ?k = "\<lambda>x. (order_id x, side x, price x)"
  let ?F = "filled_prefix (flat (side_levels s (book e))) os"
  let ?R = "os @ flat (side_levels (opposite_of s) (book e))"
  have m: "mset (map ?k (resting (book e))) = mset (map ?k (?F @ ?R))"
    using resting_perm [of ?k "book e" s] fill_list_view [OF f, of ?k] by simp
  with ix have eq: "index_of (resting (book e)) = index_of (?F @ ?R)" "distinct (map order_id (?F @ ?R))"
    using index_of_mset_cong [OF m] by (simp_all only: index_ok_def)
  have "mset (map ?k ?R) = mset (map ?k (resting (book e2)))"
    using resting_perm [of ?k "book e2" s] r by (simp add: refines_fill_def)
  moreover have "distinct (map order_id ?R)" using eq(2) by simp
  ultimately have "index_of ?R = index_of (resting (book e2))" "distinct (map order_id (resting (book e2)))"
    using index_of_mset_cong by blast+
  moreover have "cancel_index (book e2) = index_of ?R"
  proof -
    have "cancel_index (book e) = index_of (?F @ ?R)" using ix eq(1) by (simp only: index_ok_def)
    then show ?thesis
      using index_of_append_removed [OF eq(2)] r by (simp only: refines_fill_def fst_conv)
  qed
  ultimately show ?thesis by (simp add: index_ok_def)
qed

lemma resting_ids_matched:
  assumes f: "fill_list inc (flat (side_levels s (book e))) n = (i, os, ts)"
    and r: "refines_fill s e (os, ts) e2"
  shows "order_id ` set (resting (book e2)) \<subseteq> order_id ` set (resting (book e))"
proof
  fix oid
  assume "oid \<in> order_id ` set (resting (book e2))"
  then obtain y s' where y: "y \<in> set (flat (side_levels s' (book e2)))" "oid = order_id y"
    by (auto simp: in_resting_side)
  then have "\<exists>x \<in> set (flat (side_levels s' (book e))). order_id x = oid"
    using side_cases [of s' s] r in_fill_rest [OF f, of y] by (fastforce simp: refines_fill_def)
  then show "oid \<in> order_id ` set (resting (book e))" using in_resting_side by blast
qed

lemma submit_order_index_ok:
  assumes "book_ok (book e)" and "valid_order o1" and "index_ok (book e)"
    and "order_id o1 \<notin> order_id ` set (resting (book e))"
    and "submit_order o1 e = Some (r, e')"
  shows "index_ok (book e')"
  using assms(1)
proof (cases rule: submit_order_cases [of e o1])
  case rejected
  then show ?thesis using assms(3,5) by auto
next
  case (matched i os ts e2)
  let ?e1 = "e\<lparr>next_timestamp := next_timestamp e + 1\<rparr>"
  note f = matched(2) and r = matched(3)
  have f1: "fill_list (stamped (next_timestamp e) o1)
      (flat (side_levels (opposite_of (side o1)) (book ?e1))) (next_timestamp e + 1) = (i, os, ts)"
    and ok1: "book_ok (book ?e1)" "index_ok (book ?e1)"
    using f assms(1,3) by simp_all
  have "index_ok (book e2)" and "book_ok (book e2)"
    and "order_id i \<notin> order_id ` set (resting (book e2))"
    using index_ok_matched [OF ok1(2) f1 r] refines_fill_book_ok [OF ok1(1) r]
      resting_ids_matched [OF f1 r] assms(4) fill_keeps_incoming(1) [OF f] by auto
  then have "index_ok (book (rested i e2))"
    using remainder_ok [OF f assms(2)] index_ok_add [of "book e2" i]
    by (auto simp: rested_def resting_ok_def same_price_def)
  then show ?thesis using matched(4) assms(5) by simp
qed

section \<open>The book stays uncrossed\<close>

lemma uncrossed_side:
  "uncrossed b = (\<forall>x \<in> set (flat (side_levels s b)).
     \<forall>y \<in> set (flat (side_levels (opposite_of s) b)). side_lt (opposite_of s) (price x) (price y))"
  by (cases s) (auto simp: uncrossed_def list_all_iff)

text \<open>An order that matching leaves unfilled does not cross what is left of the other side.\<close>

lemma remainder_uncrossed:
  assumes f: "fill_list inc (flat (side_levels (opposite_of (side inc)) (book e))) n = (i, os, ts)"
    and r: "refines_fill (opposite_of (side inc)) e (os, ts) e2"
    and i: "0 < remaining_quantity i" "otype inc = LIMIT" and y: "y \<in> set os"
  shows "side_lt (opposite_of (side inc)) (price inc) (price y)"
proof -
  let ?s = "opposite_of (side inc)"
  obtain h os' where os: "os = h # os'" using y by (cases os) auto
  have "side_lt ?s (price inc) (price h)"
    using fill_list_exhausts [OF f] i os by (auto simp: price_stops_side_lt)
  moreover have "levels_ok ?s (side_levels ?s (book e2))" "flat (side_levels ?s (book e2)) = os"
    using r by (simp_all add: refines_fill_def)
  then have "\<not> side_lt ?s (price y) (price h)" "\<not> is_nan (price y)"
    using flat_price_sorted [of ?s "side_levels ?s (book e2)"] y os side_order.lt_irrefl
      in_flat_resting [of ?s "side_levels ?s (book e2)" y]
    by (auto simp: resting_ok_def same_price_def)
  ultimately show ?thesis using side_order.lt_cotrans by blast
qed

lemma submit_order_uncrossed:
  assumes "book_ok (book e)" and "valid_order o1" and "uncrossed (book e)"
    and "submit_order o1 e = Some (r, e')"
  shows "uncrossed (book e')"
  using assms(1)
proof (cases rule: submit_order_cases [of e o1])
  case rejected
  then show ?thesis using assms(3,4) by auto
next
  case (matched i os ts e2)
  let ?s = "side o1" and ?e1 = "e\<lparr>next_timestamp := next_timestamp e + 1\<rparr>"
  note r = matched(3) and keep = fill_keeps_incoming [OF matched(2)]
  have old: "side_lt (opposite_of ?s) (price x) (price y)"
    if "x \<in> set (flat (side_levels ?s (book e)))" "y \<in> set os" for x y
    using in_fill_rest [OF matched(2) that(2)] that(1) assms(3) by (force simp: uncrossed_side [of _ ?s])
  have new: "side_lt (opposite_of ?s) (price i) (price y)"
    if "0 < remaining_quantity i" "otype i = LIMIT" "y \<in> set os" for y
    using remainder_uncrossed [of "stamped (next_timestamp e) o1" ?e1 _ i os ts e2 y]
      matched(2) r that keep by simp
  have "uncrossed (book (rested i e2))"
    using old new keep unfolding uncrossed_side [of _ ?s] matched_sides(2,3) [OF assms(1,2) matched(2,3)]
    by auto
  then show ?thesis using matched(4) assms(4) by simp
qed

section \<open>Price-time priority\<close>

definition before :: "Side \<Rightarrow> Order \<Rightarrow> Order \<Rightarrow> bool" where
  "before s x y = (side_lt s (price x) (price y) \<or>
                   same_price (price x) (price y) \<and> timestamp x < timestamp y)"

definition side_priority :: "Side \<Rightarrow> MatchingEngine \<Rightarrow> bool" where
  "side_priority s e =
     (sorted_wrt (before s) (flat (side_levels s (book e))) \<and>
      list_all (\<lambda>x. timestamp x < next_timestamp e) (flat (side_levels s (book e))))"

text \<open>The clock has room for one more submission: every fill takes a tick.\<close>

definition clock_room :: "MatchingEngine \<Rightarrow> bool" where
  "clock_room e = (unat (next_timestamp e) + length (resting (book e)) + 1 < 2 ^ 64)"

lemma before_remaining [simp]:
  "before s (x\<lparr>remaining_quantity := r\<rparr>) y = before s x y"
  "before s x (y\<lparr>remaining_quantity := r\<rparr>) = before s x y"
  by (simp_all add: before_def)

lemma sorted_wrt_view:
  "sorted_wrt (\<lambda>p q. side_lt s (fst p) (fst q) \<or> same_price (fst p) (fst q) \<and> snd p < snd q)
     (map (\<lambda>x. (price x, timestamp x)) os) = sorted_wrt (before s) os"
  by (simp add: sorted_wrt_map before_def [abs_def])

lemma fill_list_sorted:
  assumes "fill_list inc os n = (i, rest, trades)" and "sorted_wrt (before s) os"
  shows "sorted_wrt (before s) rest"
proof -
  let ?f = "\<lambda>x. (price x, timestamp x)"
  have "map ?f os = map ?f (filled_prefix os rest) @ map ?f rest"
    using fill_list_view [OF assms(1), of ?f] by simp
  with assms(2) show ?thesis by (simp add: sorted_wrt_append flip: sorted_wrt_view)
qed

lemma insert_by_priority_sorted:
  assumes "sorted_wrt (before s) os" and "\<not> is_nan (price i)"
    and os: "\<And>x. x \<in> set os \<Longrightarrow> timestamp x < timestamp i \<and> \<not> is_nan (price x)"
  shows "sorted_wrt (before s) (insert_by_priority s i os)"
proof -
  have "before s x i" if "x \<in> set os" "\<not> side_lt s (price i) (price x)" for x
    using that os [OF that(1)] assms(2) same_price_iff [of "price x" "price i" s]
    by (auto simp: before_def)
  moreover have "before s x y"
    if "x \<in> set os" "\<not> side_lt s (price i) (price x)" "side_lt s (price i) (price y)" for x y
    using that side_order.lt_cotrans [of s "price i" "price y" "price x"] os [OF that(1)]
    by (auto simp: before_def)
  moreover have "before s i y" if "side_lt s (price i) (price y)" for y
    using that by (simp add: before_def)
  ultimately show ?thesis
    using assms(1) by (auto simp: insert_by_priority_def sorted_wrt_append sorted_wrt_filter)
qed

lemma clock_advances:
  assumes "clock_room e" and "length ts \<le> length (flat (side_levels s (book e)))"
  shows "unat (next_timestamp e + 1 + of_nat (length ts)) = unat (next_timestamp e) + 1 + length ts"
proof -
  have "length (flat (side_levels s (book e))) \<le> length (resting (book e))"
    by (cases s) (simp_all add: resting_def)
  with assms have "unat (next_timestamp e) + 1 + length ts < 2 ^ 64" by (simp add: clock_room_def)
  then show ?thesis by (simp add: unat_u64_add unat_of_nat take_bit_nat_eq_self)
qed

lemma resting_price_ok:
  "book_ok b \<Longrightarrow> x \<in> set (flat (side_levels s b)) \<Longrightarrow> \<not> is_nan (price x)"
  using in_flat_resting [of s "side_levels s b" x]
  by (auto simp: book_ok_side resting_ok_def same_price_def)

lemma submit_order_priority:
  assumes ok: "book_ok (book e)" and v: "valid_order o1" and room: "clock_room e"
    and pr: "\<And>s. side_priority s e" and sub: "submit_order o1 e = Some (r, e')"
  shows "side_priority s e'"
  using ok
proof (cases rule: submit_order_cases [of e o1])
  case rejected
  have "unat (next_timestamp e + 1) = unat (next_timestamp e) + 1"
    using clock_advances [OF room, of "[]"] by simp
  then have "next_timestamp e < next_timestamp e + 1" by (simp add: word_less_nat_alt)
  then show ?thesis
    using rejected(3) sub pr [of s] by (auto simp: side_priority_def list_all_iff)
next
  case (matched i os ts e2)
  note keep = fill_keeps_incoming [OF matched(2)]
    and sides = matched_sides(2,3) [OF ok v matched(2,3)]
  have e': "e' = rested i e2" and n: "next_timestamp e' = next_timestamp e + 1 + of_nat (length ts)"
    using matched(3,4) sub by (auto simp: refines_fill_def)
  have "length ts \<le> length (flat (side_levels (opposite_of (side o1)) (book e)))"
    using fill_list_priority [OF matched(2)] by simp
  then have lt: "next_timestamp e < next_timestamp e'"
    using clock_advances [OF room, of ts "opposite_of (side o1)"] n by (simp add: word_less_nat_alt)
  have old: "timestamp x < next_timestamp e" if "x \<in> set (flat (side_levels s' (book e)))" for x s'
    using pr [of s'] that by (simp add: side_priority_def list_all_iff)
  from side_cases [of s "side o1"] show ?thesis
  proof
    assume s: "s = opposite_of (side o1)"
    have "timestamp y < next_timestamp e'" if "y \<in> set os" for y
      using in_fill_rest [OF matched(2) that] old lt by force
    moreover have "sorted_wrt (before s) os"
      using fill_list_sorted [OF matched(2)] pr [of s] s by (simp add: side_priority_def)
    ultimately show ?thesis using sides s by (simp add: side_priority_def e' list_all_iff)
  next
    assume s: "s = side o1"
    have "sorted_wrt (before s) (flat (side_levels s (book e')))"
      using sides s e' pr [of s] v keep old resting_price_ok [OF ok]
        insert_by_priority_sorted [of s "flat (side_levels s (book e))" i]
      by (auto simp: side_priority_def valid_order_def)
    moreover have "timestamp x < next_timestamp e'" if "x \<in> set (flat (side_levels s (book e')))" for x
      using that old lt sides s e' keep by (force split: if_splits)
    ultimately show ?thesis by (simp add: side_priority_def list_all_iff)
  qed
qed

section \<open>Reachable states\<close>

definition engine_ok :: "MatchingEngine \<Rightarrow> bool" where
  "engine_ok e = (book_ok (book e) \<and> index_ok (book e) \<and> uncrossed (book e) \<and>
                  side_priority BUY e \<and> side_priority SELL e)"

inductive reachable :: "double \<Rightarrow> MatchingEngine \<Rightarrow> bool" for band where
  start: "reachable band (make_engine band)"
| submit: "reachable band e \<Longrightarrow> valid_order o1 \<Longrightarrow>
    order_id o1 \<notin> order_id ` set (resting (book e)) \<Longrightarrow> clock_room e \<Longrightarrow>
    submit_order o1 e = Some (r, e') \<Longrightarrow> reachable band e'"
| cancel: "reachable band e \<Longrightarrow> engine_cancel_order oid e = (found, e') \<Longrightarrow> reachable band e'"

lemma side_priority_all: "side_priority BUY e \<Longrightarrow> side_priority SELL e \<Longrightarrow> side_priority s e"
  by (cases s) simp_all

lemma engine_ok_start: "engine_ok (make_engine band)"
  by (simp add: engine_ok_def make_engine_def empty_book_def book_ok_def index_ok_def
      resting_def uncrossed_def side_priority_def fun_eq_iff)

lemma engine_ok_submit:
  assumes "engine_ok e" and "valid_order o1" and "order_id o1 \<notin> order_id ` set (resting (book e))"
    and "clock_room e" and "submit_order o1 e = Some (r, e')"
  shows "engine_ok e' \<and> collar e' = collar e"
proof -
  have e: "book_ok (book e)" "index_ok (book e)" "uncrossed (book e)" "side_priority s e" for s
    using assms(1) side_priority_all by (auto simp: engine_ok_def)
  have "book_ok (book e') \<and> collar e' = collar e"
    using e(1)
  proof (cases rule: submit_order_cases [of e o1])
    case rejected
    then show ?thesis using assms(5) e(1) by auto
  next
    case (matched i os ts e2)
    then show ?thesis
      using assms(5) matched_sides(1) [OF e(1) assms(2) matched(2,3)] by (auto simp: refines_fill_def)
  qed
  then show ?thesis
    using submit_order_index_ok [OF e(1) assms(2) e(2) assms(3,5)]
      submit_order_uncrossed [OF e(1) assms(2) e(3) assms(5)]
      submit_order_priority [OF e(1) assms(2,4) e(4) assms(5)]
    by (simp add: engine_ok_def)
qed

lemma engine_ok_cancel:
  assumes "engine_ok e" and "engine_cancel_order oid e = (found, e')"
  shows "engine_ok e' \<and> collar e' = collar e"
proof -
  have e: "book_ok (book e)" "index_ok (book e)" using assms(1) by (simp_all add: engine_ok_def)
  have e': "e' = e\<lparr>book := snd (cancel_order oid (book e))\<rparr>"
    using assms(2) by (auto simp: engine_cancel_order_def split: prod.splits)
  have fl: "flat (side_levels s (book e')) =
      filter (\<lambda>o1. order_id o1 \<noteq> oid) (flat (side_levels s (book e)))" for s
    using cancelled_sides [OF e] by (simp add: e')
  have "side_priority s e'" for s
    using assms(1) side_priority_all [of e s] fl [of s]
    by (auto simp: side_priority_def engine_ok_def list_all_iff e' sorted_wrt_filter)
  moreover have "uncrossed (book e')"
    using assms(1) fl [of BUY] fl [of SELL] by (auto simp: engine_ok_def uncrossed_def list_all_iff)
  moreover have "book_ok (book e')" "index_ok (book e')"
    using book_ok_cancel [OF e(1)] cancel_order_index_ok [OF e] by (simp_all add: e')
  ultimately show ?thesis by (simp add: engine_ok_def e')
qed


lemma sample_reachable: "reachable lit_10 engine_2"
proof (rule reachable.submit [OF reachable.submit [OF reachable.start]])
  show "submit_order ask_100 (make_engine lit_10) = Some (Trades [], engine_1)"
    using run_sell by (simp add: engine_0_def)
  show "submit_order bid_100 engine_1 = Some (Trades [trade_3], engine_2)" by (rule run_buy)
  show "clock_room (make_engine lit_10)" "clock_room engine_1"
    by (simp_all add: clock_room_def make_engine_def empty_book_def resting_def engine_1_def)
  show "order_id ask_100 \<notin> order_id ` set (resting (book (make_engine lit_10)))"
    "order_id bid_100 \<notin> order_id ` set (resting (book engine_1))"
    by (simp_all add: make_engine_def empty_book_def resting_def engine_1_def sample_orders)
qed (simp_all add: valid_order_def sample_orders)


end
