(* ===== verification/EngineProps.thy ===== *)
theory EngineProps
  imports EngineSpec
begin

text \<open>
  Properties of a single submission: how much trades, in which order, at which prices, on
  which ticks of the clock, and what a rejection leaves.
\<close>

section \<open>How much trades\<close>

lemma fill_list_amount:
  "fill_list inc os n = (i, rest, trades) \<Longrightarrow>
   sorted_wrt (\<lambda>x y. price_stops inc (price x) \<longrightarrow> price_stops inc (price y)) os \<Longrightarrow>
     traded trades =
       min (unat (remaining_quantity inc)) (depth (filter (\<lambda>x. \<not> price_stops inc (price x)) os))"
proof (induction rule: fill_list_rule)
  case (stop inc os ts)
  then show ?case by (cases os) (auto simp: filter_empty_conv)
next
  case (popped inc front os ts i rest trades)
  then show ?case by (auto simp: unat_u64_sub word_le_nat_alt)
next
  case (partial inc front os ts)
  then show ?case by (auto simp: word_less_nat_alt)
qed

lemma stops_sorted:
  assumes "levels_ok (opposite_of (side inc)) m"
  shows "sorted_wrt (\<lambda>x y. price_stops inc (price x) \<longrightarrow> price_stops inc (price y)) (flat m)"
proof (rule sorted_wrt_mono_rel [OF _ flat_price_sorted [OF assms]])
  fix x y
  assume "x \<in> set (flat m)" and y: "y \<in> set (flat m)"
    and le: "\<not> side_lt (opposite_of (side inc)) (price y) (price x)"
  have "\<not> is_nan (price y)"
    using in_flat_resting [OF assms y] by (simp add: resting_ok_def same_price_def)
  then show "price_stops inc (price x) \<longrightarrow> price_stops inc (price y)"
    using le side_order.lt_cotrans by (auto simp: price_stops_side_lt)
qed

lemma price_stops_stamped [simp]: "price_stops (stamped t o1) = price_stops o1"
  by (simp add: price_stops_def fun_eq_iff)

lemma depth_filter_split: "depth (filter P os) + depth (filter (\<lambda>x. \<not> P x) os) = depth os"
  by (induction os) auto

lemma depth_insert: "depth (insert_by_priority s i os) = unat (remaining_quantity i) + depth os"
  using depth_filter_split [of "\<lambda>x. side_lt s (price i) (price x)" os]
  by (simp add: insert_by_priority_def)

text \<open>The opposite side as the order sees it, and its own side.\<close>

definition opposite_queue :: "Order \<Rightarrow> MatchingEngine \<Rightarrow> Order list" where
  "opposite_queue o1 e = flat (side_levels (opposite_of (side o1)) (book e))"

definition own_queue :: "Order \<Rightarrow> MatchingEngine \<Rightarrow> Order list" where
  "own_queue o1 e = flat (side_levels (side o1) (book e))"

lemma submit_trades_cases:
  assumes "book_ok (book e)" and "valid_order o1" and "submit_order o1 e = Some (Trades ts, e')"
  obtains i os where
    "fill_list (stamped (next_timestamp e) o1) (opposite_queue o1 e) (next_timestamp e + 1) = (i, os, ts)"
    "opposite_queue o1 e' = os"
    "own_queue o1 e' = (if 0 < remaining_quantity i \<and> otype o1 = LIMIT
        then insert_by_priority (side o1) i (own_queue o1 e) else own_queue o1 e)"
    "next_timestamp e' = next_timestamp e + 1 + of_nat (length ts)"
    "last_price e' = (if ts = [] then last_price e else Some (t_price (last ts)))"
  using assms(1)
proof (cases rule: submit_order_cases [of e o1])
  case rejected
  then show ?thesis using assms(3) by simp
next
  case (matched i os ts' e2)
  have "ts' = ts" and "e' = rested i e2" using matched(4) assms(3) by auto
  then show ?thesis
    using that matched(2,3) matched_sides [OF assms(1,2) matched(2,3)]
    by (auto simp: opposite_queue_def own_queue_def refines_fill_def)
qed

lemma sample_queues:
  "opposite_queue bid_100 engine_1 = [resting_ask 5]" "opposite_queue bid_100 engine_2 = [resting_ask 2]"
  "own_queue bid_100 engine_1 = []" "own_queue bid_100 engine_2 = []"
  by (simp_all add: opposite_queue_def own_queue_def engine_1_def engine_2_def sample_orders)

text \<open>
  C8: An accepted order trades the most its limit allows: the total of its fills is the
  smaller of its quantity and of the quantity resting on the opposite side at prices its
  limit admits (all of it, for a market order).
\<close>

theorem submit_fills_maximally:
  assumes "book_ok (book e)" and "valid_order o1" and "submit_order o1 e = Some (Trades ts, e')"
  shows "traded ts = min (unat (quantity o1))
           (depth (filter (\<lambda>x. \<not> price_stops o1 (price x)) (opposite_queue o1 e)))"
  using submit_trades_cases [OF assms]
proof cases
  case (1 i os)
  have "levels_ok (opposite_of (side o1)) (side_levels (opposite_of (side o1)) (book e))"
    using assms(1) by (simp add: book_ok_side)
  then have "sorted_wrt (\<lambda>x y. price_stops (stamped (next_timestamp e) o1) (price x) \<longrightarrow>
      price_stops (stamped (next_timestamp e) o1) (price y)) (opposite_queue o1 e)"
    unfolding opposite_queue_def by (intro stops_sorted) simp
  from fill_list_amount [OF 1(1) this] show ?thesis by simp
qed

theorem submit_fills_maximally_witness:
  "book_ok (book engine_1) \<and> valid_order bid_100 \<and>
   submit_order bid_100 engine_1 = Some (Trades [trade_3], engine_2) \<and>
   traded [trade_3] = min 3 (depth (filter (\<lambda>x. \<not> price_stops bid_100 (price x)) [resting_ask 5])) \<and>
   traded [trade_3] = 3"
  using submit_fills_maximally [OF engine_1_book_ok bid_100_valid run_buy] engine_1_book_ok bid_100_valid run_buy
  by (simp add: sample_queues)

text \<open>
  C19: No quantity is created or lost by a submission: the opposite side shrinks by what
  traded, and the order's own side grows by what did not trade if it is a limit order and
  not at all if it is a market order.
\<close>

theorem submit_conserves_quantity:
  assumes "book_ok (book e)" and "valid_order o1" and "submit_order o1 e = Some (Trades ts, e')"
  shows "depth (opposite_queue o1 e) = depth (opposite_queue o1 e') + traded ts \<and>
         depth (own_queue o1 e') = depth (own_queue o1 e) +
           (if otype o1 = LIMIT then unat (quantity o1) - traded ts else 0) \<and>
         traded ts \<le> unat (quantity o1)"
  using submit_trades_cases [OF assms]
proof cases
  case (1 i os)
  have "unat (quantity o1) = unat (remaining_quantity i) + traded ts"
    "depth (opposite_queue o1 e) = depth os + traded ts"
    using fill_list_conserves [OF 1(1)] by simp_all
  then show ?thesis using 1(2,3) by (auto simp: depth_insert word_gt_0)
qed

theorem submit_conserves_quantity_witness:
  "book_ok (book engine_1) \<and> valid_order bid_100 \<and>
   submit_order bid_100 engine_1 = Some (Trades [trade_3], engine_2) \<and>
   depth [resting_ask 5] = depth [resting_ask 2] + traded [trade_3]"
  using submit_conserves_quantity [OF engine_1_book_ok bid_100_valid run_buy] engine_1_book_ok bid_100_valid run_buy
  by (simp add: sample_queues)

section \<open>Who trades, and at which price\<close>

text \<open>
  C7: The fills of a submission consume the opposite side from the head of its priority
  list: the \<open>k\<close>-th trade is with the \<open>k\<close>-th resting order and at that order's price; all
  orders before the last one hit are filled completely and removed, the last one is
  either also filled or stays at the head with what is left of it; the rest of the side
  is untouched.  The incoming order is the other party of every trade.
\<close>

theorem submit_price_time_priority:
  assumes "book_ok (book e)" and "valid_order o1" and "submit_order o1 e = Some (Trades ts, e')"
  shows "hits (opposite_queue o1 e) ts (opposite_queue o1 e') \<and>
         map (resting_id o1) ts = map order_id (take (length ts) (opposite_queue o1 e)) \<and>
         map t_price ts = map price (take (length ts) (opposite_queue o1 e)) \<and>
         (\<forall>t \<in> set ts. incoming_id o1 t = order_id o1)"
  using submit_trades_cases [OF assms]
proof cases
  case (1 i os)
  have "resting_id (stamped (next_timestamp e) o1) = resting_id o1"
    "incoming_id (stamped (next_timestamp e) o1) = incoming_id o1"
    by (simp_all add: resting_id_def incoming_id_def fun_eq_iff)
  then show ?thesis
    using fill_list_hits [OF 1(1)] fill_list_priority [OF 1(1)] 1(2) by simp
qed

theorem submit_price_time_priority_witness:
  "book_ok (book engine_1) \<and> valid_order bid_100 \<and>
   submit_order bid_100 engine_1 = Some (Trades [trade_3], engine_2) \<and>
   hits [resting_ask 5] [trade_3] [resting_ask 2] \<and> map (resting_id bid_100) [trade_3] = [1]"
  using submit_price_time_priority [OF engine_1_book_ok bid_100_valid run_buy] engine_1_book_ok bid_100_valid run_buy
  by (simp add: sample_queues)

text \<open>
  C20: No trade is worse than the incoming order's limit: a limit buy never pays more than
  its price and a limit sell never gets less, and every fill is of a positive quantity.
\<close>

theorem submit_within_limit:
  assumes "book_ok (book e)" and "valid_order o1" and "submit_order o1 e = Some (Trades ts, e')"
  shows "list_all (\<lambda>t. 0 < t_quantity t \<and>
           (if otype o1 = MARKET then True
            else if side o1 = BUY then t_price t \<le> price o1 else price o1 \<le> t_price t)) ts"
  using submit_trades_cases [OF assms]
proof cases
  case (1 i os)
  have r: "resting_ok (opposite_of (side o1)) (price x) x" if "x \<in> set (opposite_queue o1 e)" for x
    using in_flat_resting [of "opposite_of (side o1)"] that assms(1)
    by (auto simp: opposite_queue_def book_ok_side)
  have "t_price t \<in> price ` set (opposite_queue o1 e)" if "t \<in> set ts" for t
  proof -
    have "t_price t \<in> set (map t_price ts)" using that by simp
    then show ?thesis using fill_list_priority [OF 1(1)] by (auto dest: in_set_takeD)
  qed
  then have nn: "\<not> is_nan (t_price t)" if "t \<in> set ts" for t
    using that r by (fastforce simp: resting_ok_def same_price_def)
  have st: "\<not> price_stops o1 (t_price t)" if "t \<in> set ts" for t
    using that fill_list_within_limit [OF 1(1)] by simp
  have "\<forall>x \<in> set (opposite_queue o1 e). remaining_quantity x \<noteq> 0"
    using r by (fastforce simp: resting_ok_def)
  then have pos: "0 < t_quantity t" if "t \<in> set ts" for t
    using that fill_list_positive [OF 1(1)] by (simp add: word_gt_0)
  have "if otype o1 = MARKET then True
        else if side o1 = BUY then t_price t \<le> price o1 else price o1 \<le> t_price t"
    if "t \<in> set ts" for t
    using nn [OF that] st [OF that] assms(2)
    by (cases "otype o1"; cases "side o1") (simp_all add: price_stops_def valid_order_def not_less_double)
  with pos show ?thesis by (simp add: list_all_iff)
qed

theorem submit_within_limit_witness:
  "book_ok (book engine_1) \<and> valid_order bid_100 \<and>
   submit_order bid_100 engine_1 = Some (Trades [trade_3], engine_2) \<and>
   0 < t_quantity trade_3 \<and> t_price trade_3 \<le> price bid_100"
  using submit_within_limit [OF engine_1_book_ok bid_100_valid run_buy] engine_1_book_ok bid_100_valid run_buy
  by simp

section \<open>The clock and the reply\<close>

text \<open>
  Before the clock wraps, the trades of a submission carry consecutive timestamps that
  follow the order's own, and the clock ends past all of them: no two events of an engine
  share a timestamp.
\<close>

lemma submit_timestamps:
  assumes "book_ok (book e)" and "valid_order o1" and "clock_room e"
    and "submit_order o1 e = Some (Trades ts, e')"
  shows "map (\<lambda>t. unat (t_timestamp t)) ts =
           [unat (next_timestamp e) + 1 ..< unat (next_timestamp e')] \<and>
         unat (next_timestamp e') = unat (next_timestamp e) + 1 + length ts"
  using submit_trades_cases [OF assms(1,2,4)]
proof cases
  case (1 i os)
  have len: "length ts \<le> length (flat (side_levels (opposite_of (side o1)) (book e)))"
    using fill_list_priority [OF 1(1)] by (simp add: opposite_queue_def)
  have adv: "unat (next_timestamp e + 1 + of_nat k) = unat (next_timestamp e) + 1 + k"
    if "k \<le> length ts" for k
    using clock_advances [OF assms(3), of "take k ts" "opposite_of (side o1)"] len that by simp
  have "map (\<lambda>t. unat (t_timestamp t)) ts = map unat (map t_timestamp ts)" by simp
  also have "\<dots> = map (\<lambda>k. unat (next_timestamp e + 1 + of_nat k)) [0 ..< length ts]"
    using fill_list_timestamps [OF 1(1)] by simp
  also have "\<dots> = map (\<lambda>k. k + (unat (next_timestamp e) + 1)) [0 ..< length ts]"
    using adv by simp
  also have "\<dots> = [unat (next_timestamp e) + 1 ..< unat (next_timestamp e) + 1 + length ts]"
    by (simp only: map_add_upt add_0 add.commute)
  finally show ?thesis using 1(4) adv [of "length ts"] by simp
qed

lemma submit_timestamps_sample:
  "clock_room engine_1 \<and> book_ok (book engine_1) \<and> valid_order bid_100 \<and>
   submit_order bid_100 engine_1 = Some (Trades [trade_3], engine_2) \<and>
   map (\<lambda>t. unat (t_timestamp t)) [trade_3] = [3 ..< 4]"
proof -
  have room: "clock_room engine_1" by (simp add: clock_room_def engine_1_def resting_def)
  show ?thesis
    using submit_timestamps [OF engine_1_book_ok bid_100_valid room run_buy]
      engine_1_book_ok bid_100_valid room run_buy
    by (simp add: engine_1_def engine_2_def)
qed

text \<open>
  A submission is rejected exactly when it is a limit order outside the collar of the
  last trade price; the reply names the order and the side of the band it missed, and the
  engine is unchanged but for the tick of the clock the order took.
\<close>

lemma submit_rejected_iff:
  assumes "book_ok (book e)"
  shows "(submit_order o1 e = Some (Rejected rej, e')) =
           (otype o1 = LIMIT \<and> \<not> accepted (check (collar e) (price o1) (last_price e)) \<and>
            rej = \<lparr>rej_order_id = order_id o1,
                   rej_reason = reason (check (collar e) (price o1) (last_price e))\<rparr> \<and>
            e' = e\<lparr>next_timestamp := next_timestamp e + 1\<rparr>)"
  using assms by (cases rule: submit_order_cases [of e o1]) auto

lemma submit_rejected_iff_sample:
  "book_ok (book engine_2) \<and>
   submit_order (bid_100\<lparr>price := lit_10\<rparr>) engine_2 =
     Some (Rejected \<lparr>rej_order_id = 2, rej_reason = PRICE_TOO_LOW\<rparr>, engine_2\<lparr>next_timestamp := 5\<rparr>)"
proof -
  have "check (collar engine_2) lit_10 (last_price engine_2) = \<lparr>accepted = False, reason = PRICE_TOO_LOW\<rparr>"
    using sample_too_low by (simp add: engine_2_def)
  then show ?thesis
    unfolding submit_rejected_iff [OF engine_2_book_ok]
    using engine_2_book_ok by (simp add: engine_2_def bid_100_def default_order_def)
qed

end
