(* ===== verification/OrderQueue.thy ===== *)
theory OrderQueue
  imports Orders
begin

text \<open>
  The interface \<open>IOrderQueue\<close> of \<open>include/order_queue.hpp\<close>.  A call of \<open>pop\<close> that finds
  nothing waits; what it does in a given state is the value of one attempt: it returns an
  order, it returns false because the queue is shut down and drained, it keeps waiting, or
  it throws.
  A \<open>push\<close> that finds a bounded queue full waits as well, the value \<open>None\<close>.

  The locale \<open>order_queue\<close> is the contract the clients rely on, over the list of orders a
  queue holds; \<open>fits n\<close> says that the queue's machine-word counters have room for \<open>n\<close> more
  pushes.  The implementations interpret it, and what the clients compute through the
  interface follows for all of them.
\<close>

section \<open>Calls and their results\<close>

datatype queue_error =
  Cannot_open string | Cannot_write string | Short_read u64 | Bad_enum | Not_a_consumer

datatype pop_result = Popped Order | Drained | Waiting | Threw queue_error

datatype queue_op = Push Order | Pop | Shutdown

text \<open>
  A schedule of calls: the orders accepted by \<open>push\<close>, the orders returned by \<open>pop\<close> and the
  queue afterwards.  A call that would wait leaves the queue as it is.
\<close>

fun run_ops ::
  "(Order \<Rightarrow> 'q \<Rightarrow> 'q option) \<Rightarrow> ('q \<Rightarrow> pop_result \<times> 'q) \<Rightarrow> ('q \<Rightarrow> 'q) \<Rightarrow>
     queue_op list \<Rightarrow> 'q \<Rightarrow> Order list \<times> Order list \<times> 'q" where
  "run_ops push pop shut [] q = ([], [], q)"
| "run_ops push pop shut (Push x # ops) q =
     (case push x q of
        None \<Rightarrow> run_ops push pop shut ops q
      | Some q' \<Rightarrow> (case run_ops push pop shut ops q' of (ins, outs, r) \<Rightarrow> (x # ins, outs, r)))"
| "run_ops push pop shut (Pop # ops) q =
     (case pop q of
        (Popped x, q') \<Rightarrow> (case run_ops push pop shut ops q' of (ins, outs, r) \<Rightarrow> (ins, x # outs, r))
      | (_, q') \<Rightarrow> run_ops push pop shut ops q')"
| "run_ops push pop shut (Shutdown # ops) q = run_ops push pop shut ops (shut q)"

text \<open>A producer's loop of pushes; \<open>None\<close> when one of them waits for ever.\<close>

fun push_all :: "(Order \<Rightarrow> 'q \<Rightarrow> 'q option) \<Rightarrow> Order list \<Rightarrow> 'q \<Rightarrow> 'q option" where
  "push_all push [] q = Some q"
| "push_all push (x # xs) q = (case push x q of None \<Rightarrow> None | Some q' \<Rightarrow> push_all push xs q')"

text \<open>
  The consumer's loop \<open>while (queue.pop(order)) handle(order);\<close> with at most \<open>n\<close> calls of
  \<open>pop\<close>: \<open>None\<close> when it is still in the loop after them, waits, throws, or the handler fails.
\<close>

fun consume ::
  "('q \<Rightarrow> pop_result \<times> 'q) \<Rightarrow> (Order \<Rightarrow> 's \<Rightarrow> 's option) \<Rightarrow> nat \<Rightarrow> 'q \<Rightarrow> 's \<Rightarrow> ('q \<times> 's) option" where
  "consume pop handle 0 q s = None"
| "consume pop handle (Suc n) q s =
     (case pop q of
        (Popped x, q') \<Rightarrow> (case handle x s of None \<Rightarrow> None | Some s' \<Rightarrow> consume pop handle n q' s')
      | (Drained, q') \<Rightarrow> Some (q', s)
      | (Waiting, q') \<Rightarrow> None
      | (Threw err, q') \<Rightarrow> None)"

text \<open>What the loop is meant to compute: the handler applied to the orders in turn.\<close>

fun run_orders :: "(Order \<Rightarrow> 's \<Rightarrow> 's option) \<Rightarrow> Order list \<Rightarrow> 's \<Rightarrow> 's option" where
  "run_orders handle [] s = Some s"
| "run_orders handle (x # xs) s =
     (case handle x s of None \<Rightarrow> None | Some s' \<Rightarrow> run_orders handle xs s')"

lemma run_orders_append:
  "run_orders handle (xs @ ys) s =
     (case run_orders handle xs s of None \<Rightarrow> None | Some s' \<Rightarrow> run_orders handle ys s')"
  by (induction xs arbitrary: s) (auto split: option.split)

fun pushed_items :: "queue_op list \<Rightarrow> Order list" where
  "pushed_items [] = []"
| "pushed_items (Push x # ops) = x # pushed_items ops"
| "pushed_items (Pop # ops) = pushed_items ops"
| "pushed_items (Shutdown # ops) = pushed_items ops"

lemma run_ops_preserves:
  assumes "\<And>x q q'. P q \<Longrightarrow> push x q = Some q' \<Longrightarrow> P q'" and "\<And>q. P q \<Longrightarrow> P (snd (pop q))"
    and "\<And>q. P q \<Longrightarrow> P (shut q)"
  shows "P q \<Longrightarrow> P (snd (snd (run_ops push pop shut ops q)))"
proof (induction ops arbitrary: q)
  case Nil
  then show ?case by simp
next
  case (Cons op ops)
  show ?case
  proof (cases op)
    case (Push x)
    show ?thesis
    proof (cases "push x q")
      case None
      then show ?thesis using Cons Push by simp
    next
      case (Some q')
      then show ?thesis
        using Cons.IH [of q'] assms(1) [OF Cons.prems Some] Push by (simp add: case_prod_beta)
    qed
  next
    case Pop
    obtain r q' where "pop q = (r, q')" by fastforce
    then show ?thesis
      using Cons.IH [of q'] assms(2) [OF Cons.prems] Pop
      by (cases r) (simp_all add: case_prod_beta)
  next
    case Shutdown
    then show ?thesis using Cons assms(3) by simp
  qed
qed

section \<open>The contract\<close>

locale order_queue =
  fixes item :: "Order \<Rightarrow> bool" and inv :: "'q \<Rightarrow> bool" and fits :: "nat \<Rightarrow> 'q \<Rightarrow> bool"
    and contents :: "'q \<Rightarrow> Order list" and closed :: "'q \<Rightarrow> bool"
    and push :: "Order \<Rightarrow> 'q \<Rightarrow> 'q option" and pop :: "'q \<Rightarrow> pop_result \<times> 'q"
    and shut :: "'q \<Rightarrow> 'q"
  assumes fits_less: "fits (Suc n) q \<Longrightarrow> fits n q"
    and push_appends: "item x \<Longrightarrow> inv q \<Longrightarrow> fits (Suc n) q \<Longrightarrow> push x q = Some q' \<Longrightarrow>
      inv q' \<and> fits n q' \<and> contents q' = contents q @ [x] \<and> closed q' = closed q"
    and pop_takes_first: "inv q \<Longrightarrow> contents q = x # xs \<Longrightarrow>
      \<exists>q'. pop q = (Popped x, q') \<and> inv q' \<and> contents q' = xs \<and> closed q' = closed q \<and>
           (\<forall>n. fits n q \<longrightarrow> fits n q')"
    and pop_at_end: "inv q \<Longrightarrow> contents q = [] \<Longrightarrow> pop q = (if closed q then Drained else Waiting, q)"
    and shut_closes: "inv q \<Longrightarrow>
      inv (shut q) \<and> contents (shut q) = contents q \<and> closed (shut q) \<and> (fits n q \<longrightarrow> fits n (shut q))"
begin

text \<open>First in, first out, for every schedule of calls.\<close>

lemma fifo:
  "inv q \<Longrightarrow> fits (length (pushed_items ops)) q \<Longrightarrow> list_all item (pushed_items ops) \<Longrightarrow> run_ops push pop shut ops q = (ins, outs, r) \<Longrightarrow>
     inv r \<and> contents q @ ins = outs @ contents r"
proof (induction ops arbitrary: q ins outs r)
  case Nil
  then show ?case by simp
next
  case (Cons op ops)
  show ?case
  proof (cases op)
    case (Push x)
    then have fits: "fits (Suc (length (pushed_items ops))) q" and x: "item x"
      using Cons.prems(2,3) by simp_all
    show ?thesis
    proof (cases "push x q")
      case None
      then show ?thesis using Cons Push fits_less [OF fits] by simp
    next
      case (Some q')
      obtain ins' where "run_ops push pop shut ops q' = (ins', outs, r)" "ins = x # ins'"
        using Cons.prems(4) Push Some by (auto split: prod.splits)
      then show ?thesis using Cons.IH [of q'] push_appends [OF x Cons.prems(1) fits Some]
          Cons.prems(3) Push by auto
    qed
  next
    case Pop
    show ?thesis
    proof (cases "contents q")
      case Nil
      then show ?thesis
        using Cons.IH [of q ins outs r] Cons.prems pop_at_end [OF Cons.prems(1)] Pop
        by (auto split: if_splits)
    next
      case first: (Cons x xs)
      then obtain q' where q': "pop q = (Popped x, q')" "inv q'" "contents q' = xs" "fits (length (pushed_items ops)) q'"
        using pop_takes_first [OF Cons.prems(1)] Cons.prems(2) Pop by auto
      obtain outs' where "run_ops push pop shut ops q' = (ins, outs', r)" "outs = x # outs'"
        using Cons.prems(4) Pop q'(1) by (auto split: prod.splits)
      then show ?thesis using Cons.IH [of q'] q' first Cons.prems(3) Pop by auto
    qed
  next
    case Shutdown
    then show ?thesis
      using Cons.IH [of "shut q" ins outs r] Cons.prems shut_closes [OF Cons.prems(1)] by simp
  qed
qed

lemma push_all_appends:
  "inv q \<Longrightarrow> fits (length xs) q \<Longrightarrow> list_all item xs \<Longrightarrow> push_all push xs q = Some q' \<Longrightarrow>
     inv q' \<and> contents q' = contents q @ xs \<and> closed q' = closed q"
proof (induction xs arbitrary: q)
  case Nil
  then show ?case by simp
next
  case (Cons x xs)
  then obtain q1 where "push x q = Some q1" by (auto split: option.splits)
  then show ?case using Cons push_appends [of x q "length xs" q1] by auto
qed

text \<open>Once the queue is shut down the consumer's loop ends and has handled every order.\<close>

lemma consume_drains:
  "inv q \<Longrightarrow> closed q \<Longrightarrow> length (contents q) < n \<Longrightarrow>
     map_option snd (consume pop handle n q s) = run_orders handle (contents q) s"
proof (induction n arbitrary: q s)
  case 0
  then show ?case by simp
next
  case (Suc n)
  show ?case
  proof (cases "contents q")
    case Nil
    then show ?thesis using pop_at_end [of q] Suc.prems by auto
  next
    case (Cons x xs)
    then obtain q' where "pop q = (Popped x, q')" "inv q'" "contents q' = xs" "closed q'"
      using pop_takes_first [of q x xs] Suc.prems by auto
    then show ?thesis using Suc Cons by (auto split: option.split)
  qed
qed

text \<open>A whole session: a producer pushes, the queue is shut down, a consumer drains it.\<close>

lemma session:
  assumes "inv q" and "contents q = []" and "fits (length xs) q" and "list_all item xs"
    and "push_all push xs q = Some q'" and "length xs < n"
  shows "map_option snd (consume pop handle n (shut q') s) = run_orders handle xs s"
proof -
  have "inv (shut q')" "closed (shut q')" "contents (shut q') = xs"
    using push_all_appends [OF assms(1,3,4,5)] assms(2) shut_closes [of q'] by auto
  then show ?thesis using consume_drains [of "shut q'" n] assms(6) by simp
qed

end

text \<open>A queue whose \<open>push\<close> never waits as long as \<open>fits\<close> says that there is room.\<close>

locale total_queue = order_queue +
  assumes push_succeeds: "item x \<Longrightarrow> inv q \<Longrightarrow> fits (Suc n) q \<Longrightarrow> \<exists>q'. push x q = Some q'"
begin

lemma push_all_succeeds:
  "inv q \<Longrightarrow> fits (length xs) q \<Longrightarrow> list_all item xs \<Longrightarrow> \<exists>q'. push_all push xs q = Some q'"
proof (induction xs arbitrary: q)
  case Nil
  then show ?case by simp
next
  case (Cons x xs)
  then obtain q1 where "push x q = Some q1" using push_succeeds [of x q "length xs"] by auto
  then show ?case using Cons.IH [of q1] Cons.prems push_appends [of x q "length xs" q1] by simp
qed

lemma whole_session:
  assumes "inv q" and "contents q = []" and "fits (length xs) q" and "list_all item xs" and "length xs < n"
  shows "\<exists>q'. push_all push xs q = Some q' \<and>
           map_option snd (consume pop handle n (shut q') s) = run_orders handle xs s"
proof -
  obtain q' where q': "push_all push xs q = Some q'" using push_all_succeeds [OF assms(1,3,4)] by blast
  have "map_option snd (consume pop handle n (shut q') s) = run_orders handle xs s"
    by (rule session [OF assms(1-4) q' assms(5)])
  with q' show ?thesis by blast
qed

end

end
