(* ===== verification/StructLayout.thy ===== *)
theory StructLayout
  imports Orders
begin

text \<open>
  The layout of a C++ structure on the x86-64 target, computed from its declaration: members in
  order, each at the next offset that its alignment divides, and the size rounded up to the
  alignment of the structure.  The program depends on it, since it writes structures to files
  and reads them from sockets as they lie in memory, and asserts three of the sizes.

  The declarations are those of \<open>include/order.hpp\<close> and \<open>include/tcp_feed_handler.hpp\<close>;
  \<open>WireTrade\<close> and \<open>WireReject\<close> are declared there and used by no code.
\<close>

section \<open>Sizes, alignments and offsets\<close>

datatype c_type = CU8 | CU64 | CDouble | CArray c_type nat

type_synonym members = "(string \<times> c_type) list"

fun c_sizeof :: "c_type \<Rightarrow> nat" where
  "c_sizeof CU8 = 1"
| "c_sizeof CU64 = 8"
| "c_sizeof CDouble = 8"
| "c_sizeof (CArray t n) = n * c_sizeof t"

fun c_alignof :: "c_type \<Rightarrow> nat" where
  "c_alignof CU8 = 1"
| "c_alignof CU64 = 8"
| "c_alignof CDouble = 8"
| "c_alignof (CArray t n) = c_alignof t"

text \<open>The first offset from \<open>off\<close> on that \<open>a\<close> divides.\<close>

definition align_up :: "nat \<Rightarrow> nat \<Rightarrow> nat" where
  "align_up a off = (off + a - 1) div a * a"

text \<open>The members with their offsets, from \<open>off\<close> on, and the first offset after them.\<close>

fun place :: "nat \<Rightarrow> members \<Rightarrow> (string \<times> nat \<times> c_type) list" where
  "place off [] = []"
| "place off ((x, t) # ms) =
     (let a = align_up (c_alignof t) off in (x, a, t) # place (a + c_sizeof t) ms)"

fun place_end :: "nat \<Rightarrow> members \<Rightarrow> nat" where
  "place_end off [] = off"
| "place_end off ((x, t) # ms) = place_end (align_up (c_alignof t) off + c_sizeof t) ms"

definition struct_alignof :: "members \<Rightarrow> nat" where
  "struct_alignof ms = foldr (\<lambda>(x, t). max (c_alignof t)) ms 1"

definition struct_sizeof :: "members \<Rightarrow> nat" where
  "struct_sizeof ms = align_up (struct_alignof ms) (place_end 0 ms)"

text \<open>The \<open>n\<close> bytes at offset \<open>off\<close>, and the bytes of a member.\<close>

definition field :: "nat \<Rightarrow> nat \<Rightarrow> u8 list \<Rightarrow> u8 list" where
  "field off n bs = take n (drop off bs)"

definition member_bytes :: "members \<Rightarrow> string \<Rightarrow> u8 list \<Rightarrow> u8 list" where
  "member_bytes ms x bs =
     (case map_of (place 0 ms) x of None \<Rightarrow> [] | Some (off, t) \<Rightarrow> field off (c_sizeof t) bs)"

section \<open>The declarations\<close>

definition Order_members :: members where
  "Order_members =
     [(''order_id'', CU64), (''client_id'', CU64), (''side'', CU8), (''type'', CU8),
      (''symbol'', CArray CU8 kSymbolLen), (''price'', CDouble), (''quantity'', CU64),
      (''remaining_quantity'', CU64), (''timestamp'', CU64)]"

definition Trade_members :: members where
  "Trade_members =
     [(''buy_order_id'', CU64), (''sell_order_id'', CU64), (''price'', CDouble),
      (''quantity'', CU64), (''timestamp'', CU64)]"

definition WireOrder_members :: members where
  "WireOrder_members =
     [(''order_id'', CU64), (''client_id'', CU64), (''side'', CU8), (''type'', CU8),
      (''symbol'', CArray CU8 8), (''price'', CDouble), (''quantity'', CU64)]"

definition WireTrade_members :: members where
  "WireTrade_members =
     [(''buy_order_id'', CU64), (''sell_order_id'', CU64), (''price'', CDouble), (''quantity'', CU64)]"

definition WireReject_members :: members where
  "WireReject_members = [(''order_id'', CU64), (''reason'', CU8), (''padding'', CArray CU8 7)]"

lemmas member_defs =
  Order_members_def Trade_members_def WireOrder_members_def WireTrade_members_def WireReject_members_def

section \<open>Every layout is sound\<close>

text \<open>
  Members lie at multiples of their alignments, in the order of the declaration without overlap
  and inside the structure, whose size is a multiple of every member's alignment, so that the
  elements of an array of structures are aligned too.
\<close>

definition well_laid :: "members \<Rightarrow> bool" where
  "well_laid ms =
     (map (\<lambda>(x, a, t). (x, t)) (place 0 ms) = ms \<and>
      list_all (\<lambda>(x, a, t). c_alignof t dvd a \<and> a + c_sizeof t \<le> struct_sizeof ms \<and>
                             c_alignof t dvd struct_sizeof ms) (place 0 ms) \<and>
      sorted_wrt (\<lambda>(x, a, t) (y, b, u). a + c_sizeof t \<le> b) (place 0 ms))"

lemma c_alignof_cases: "c_alignof t = 1 \<or> c_alignof t = 8"
  by (induction t) auto

lemma align_up_dvd [simp]: "a dvd align_up a off"
  by (simp add: align_up_def)

lemma align_up_ge:
  assumes "0 < a"
  shows "off \<le> align_up a off"
proof -
  have "off + a - 1 = align_up a off + (off + a - 1) mod a" by (simp add: align_up_def)
  moreover have "(off + a - 1) mod a \<le> a - 1" using assms by (metis Suc_pred' less_Suc_eq_le mod_less_divisor)
  ultimately show ?thesis using assms by linarith
qed

text \<open>It is the first such offset: no padding is wasted.\<close>

lemma align_up_least:
  assumes "0 < a" and "a dvd b" and "off \<le> b"
  shows "align_up a off \<le> b"
proof -
  obtain k where k: "b = a * k" using assms(2) by blast
  then have "off + a - 1 < (k + 1) * a" using assms(1,3) by (simp add: algebra_simps)
  then have "(off + a - 1) div a < k + 1" by (rule less_mult_imp_div_less)
  then show ?thesis using k assms(1) by (simp add: align_up_def mult.commute)
qed

lemma place_members: "map (\<lambda>(x, a, t). (x, t)) (place off ms) = ms"
  by (induction off ms rule: place.induct) (simp_all add: Let_def)

lemma place_step: "off \<le> align_up (c_alignof t) off + c_sizeof t"
  using align_up_ge [of "c_alignof t" off] c_alignof_cases [of t] by fastforce

lemma place_end_ge: "off \<le> place_end off ms"
proof (induction off ms rule: place.induct)
  case (2 off x t ms)
  show ?case using 2 [OF refl] place_step [of off t] by simp
qed simp

lemma place_within:
  "(x, a, t) \<in> set (place off ms) \<Longrightarrow>
     off \<le> a \<and> c_alignof t dvd a \<and> a + c_sizeof t \<le> place_end off ms"
proof (induction off ms rule: place.induct)
  case (2 off y u ms)
  let ?a = "align_up (c_alignof u) off"
  have "off \<le> ?a" using align_up_ge [of "c_alignof u" off] c_alignof_cases [of u] by fastforce
  moreover have "?a + c_sizeof u \<le> place_end (?a + c_sizeof u) ms" by (rule place_end_ge)
  ultimately show ?case using 2(1) [OF refl] 2(2) by (auto simp: Let_def)
qed simp

lemma place_sorted: "sorted_wrt (\<lambda>(x, a, t) (y, b, u). a + c_sizeof t \<le> b) (place off ms)"
  by (induction off ms rule: place.induct) (auto simp: Let_def dest: place_within)

lemma struct_alignof_cases: "struct_alignof ms = 1 \<or> struct_alignof ms = 8"
proof (induction ms)
  case (Cons m ms)
  then show ?case using c_alignof_cases [of "snd m"] by (auto simp: struct_alignof_def split: prod.splits)
qed (simp add: struct_alignof_def)

lemma struct_alignof_dvd: "(x, t) \<in> set ms \<Longrightarrow> c_alignof t dvd struct_alignof ms"
proof (induction ms)
  case (Cons m ms)
  then show ?case
    using c_alignof_cases [of "snd m"] c_alignof_cases [of t] struct_alignof_cases [of ms]
    by (auto simp: struct_alignof_def split: prod.splits)
qed simp

lemma well_laid_all: "well_laid ms"
proof -
  have p: "0 < struct_alignof ms" using struct_alignof_cases [of ms] by auto
  have "c_alignof t dvd a \<and> a + c_sizeof t \<le> struct_sizeof ms \<and> c_alignof t dvd struct_sizeof ms"
    if m: "(x, a, t) \<in> set (place 0 ms)" for x a t
  proof -
    have "(x, t) \<in> set (map (\<lambda>(x, a, t). (x, t)) (place 0 ms))" using m by force
    then have "(x, t) \<in> set ms" by (simp add: place_members)
    then have "c_alignof t dvd struct_sizeof ms"
      unfolding struct_sizeof_def by (intro dvd_trans [OF struct_alignof_dvd align_up_dvd])
    then show ?thesis
      using place_within [OF m] align_up_ge [OF p, of "place_end 0 ms"] by (simp add: struct_sizeof_def)
  qed
  then have "list_all (\<lambda>(x, a, t). c_alignof t dvd a \<and> a + c_sizeof t \<le> struct_sizeof ms \<and>
      c_alignof t dvd struct_sizeof ms) (place 0 ms)"
    by (auto simp: list_all_iff)
  then show ?thesis by (simp only: well_laid_def place_members place_sorted simp_thms)
qed


section \<open>Reading members\<close>

lemma field_append_left [simp]: "off + n \<le> length xs \<Longrightarrow> field off n (xs @ ys) = field off n xs"
  by (simp add: field_def)

lemma field_append_right [simp]:
  "length xs \<le> off \<Longrightarrow> field off n (xs @ ys) = field (off - length xs) n ys"
  by (simp add: field_def)

lemma field_all [simp]: "length xs = n \<Longrightarrow> field 0 n xs = xs"
  by (simp add: field_def)

lemma field_Cons [simp]: "0 < off \<Longrightarrow> field off n (x # xs) = field (off - 1) n xs"
  by (cases off) (simp_all add: field_def)

lemma length_field [simp, layout_simps]: "off + n \<le> length bs \<Longrightarrow> length (field off n bs) = n"
  by (simp add: field_def)

lemma field_byte: "off < length bs \<Longrightarrow> field off 1 bs = [bs ! off]"
  by (simp add: field_def take_Suc_conv_app_nth take_Suc hd_drop_conv_nth)

lemma field_join: "field off n bs @ drop (off + n) bs = drop off bs"
proof -
  have "drop (off + n) bs = drop n (drop off bs)" by (simp add: add.commute)
  then show ?thesis unfolding field_def by (simp only: append_take_drop_id)
qed

lemma Order_member_bytes:
  "member_bytes Order_members ''order_id'' bs = field 0 8 bs"
  "member_bytes Order_members ''client_id'' bs = field 8 8 bs"
  "member_bytes Order_members ''side'' bs = field 16 1 bs"
  "member_bytes Order_members ''type'' bs = field 17 1 bs"
  "member_bytes Order_members ''symbol'' bs = field 18 8 bs"
  "member_bytes Order_members ''price'' bs = field 32 8 bs"
  "member_bytes Order_members ''quantity'' bs = field 40 8 bs"
  "member_bytes Order_members ''remaining_quantity'' bs = field 48 8 bs"
  "member_bytes Order_members ''timestamp'' bs = field 56 8 bs"
  by (simp_all add: member_bytes_def Order_members_def align_up_def kSymbolLen_def)

lemma Trade_member_bytes:
  "member_bytes Trade_members ''buy_order_id'' bs = field 0 8 bs"
  "member_bytes Trade_members ''sell_order_id'' bs = field 8 8 bs"
  "member_bytes Trade_members ''price'' bs = field 16 8 bs"
  "member_bytes Trade_members ''quantity'' bs = field 24 8 bs"
  "member_bytes Trade_members ''timestamp'' bs = field 32 8 bs"
  by (simp_all add: member_bytes_def Trade_members_def align_up_def)

lemma WireOrder_member_bytes:
  "member_bytes WireOrder_members ''order_id'' bs = field 0 8 bs"
  "member_bytes WireOrder_members ''client_id'' bs = field 8 8 bs"
  "member_bytes WireOrder_members ''side'' bs = field 16 1 bs"
  "member_bytes WireOrder_members ''type'' bs = field 17 1 bs"
  "member_bytes WireOrder_members ''symbol'' bs = field 18 8 bs"
  "member_bytes WireOrder_members ''price'' bs = field 32 8 bs"
  "member_bytes WireOrder_members ''quantity'' bs = field 40 8 bs"
  by (simp_all add: member_bytes_def WireOrder_members_def align_up_def)

end
