(* ===== verification/Layout.thy ===== *)
theory Layout
  imports StructLayout
begin

text \<open>
  The in-memory layout of \<open>Order\<close> and \<open>Trade\<close> on the x86-64 target, which is the format of
  the log files: the code writes the structures with \<open>fwrite(&x, sizeof x, 1, f)\<close>.  Members are read
  at the offsets that \<open>StructLayout\<close> computes.  An \<open>Order\<close> takes 64 bytes with six bytes of padding between \<open>symbol\<close> and \<open>price\<close>, whose value
  the language leaves open: it is the argument \<open>pad\<close>.  Decoding a \<open>side\<close> or \<open>type\<close> byte that is no
  enumerator gives \<open>None\<close>; no program of the repository writes one.

  \<open>log_holds\<close> relates a file to the records it holds, and the locale \<open>record_codec\<close> gives its
  laws for any fixed-size encoding.
\<close>

section \<open>Files of fixed-size records\<close>

definition record_at :: "(u8 list \<Rightarrow> 'a option) \<Rightarrow> nat \<Rightarrow> nat \<Rightarrow> u8 list \<Rightarrow> 'a option" where
  "record_at dec width k bs = dec (take width (drop (k * width) bs))"

definition log_holds :: "(u8 list \<Rightarrow> 'a option) \<Rightarrow> nat \<Rightarrow> 'a list \<Rightarrow> u8 list \<Rightarrow> bool" where
  "log_holds dec width xs bs =
     (length bs = length xs * width \<and> (\<forall>k < length xs. record_at dec width k bs = Some (xs ! k)))"

locale record_codec =
  fixes enc :: "'p \<Rightarrow> 'a \<Rightarrow> u8 list" and dec :: "u8 list \<Rightarrow> 'a option" and width :: nat
    and ok :: "'a \<Rightarrow> bool"
  assumes size_pos: "0 < width" and length_enc: "ok x \<Longrightarrow> length (enc p x) = width"
    and dec_enc: "ok x \<Longrightarrow> dec (enc p x) = Some x"
begin

lemma holds_Nil: "log_holds dec width [] []"
  by (simp add: log_holds_def)

lemma holds_append:
  assumes "log_holds dec width xs bs" and "ok x"
  shows "log_holds dec width (xs @ [x]) (bs @ enc p x)"
proof -
  have len: "length bs = length xs * width" using assms(1) by (simp add: log_holds_def)
  have "record_at dec width k (bs @ enc p x) = Some ((xs @ [x]) ! k)" if "k < Suc (length xs)" for k
  proof (cases "k = length xs")
    case True
    then show ?thesis using len assms(2) by (simp add: record_at_def dec_enc length_enc)
  next
    case False
    with that have k: "k < length xs" by simp
    then have "Suc k * width \<le> length xs * width" by (intro mult_right_mono) simp_all
    then have "k * width + width \<le> length bs" using len by simp
    then have "take width (drop (k * width) (bs @ enc p x)) = take width (drop (k * width) bs)" by simp
    then have "record_at dec width k (bs @ enc p x) = record_at dec width k bs"
      by (simp only: record_at_def)
    then show ?thesis using assms(1) k by (simp add: log_holds_def nth_append)
  qed
  then show ?thesis using len assms(2) by (simp add: log_holds_def length_enc)
qed

lemma holds_all: "list_all ok xs \<Longrightarrow> log_holds dec width xs (concat (map (enc p) xs))"
  by (induction xs rule: rev_induct) (simp_all add: holds_Nil holds_append)

lemma holds_count: "log_holds dec width xs bs \<Longrightarrow> length bs div width = length xs"
  using size_pos by (simp add: log_holds_def)

lemma holds_read:
  "log_holds dec width xs bs \<Longrightarrow> k < length xs \<Longrightarrow>
     length (take width (drop (k * width) bs)) = width \<and> dec (take width (drop (k * width) bs)) = Some (xs ! k)"
proof -
  assume h: "log_holds dec width xs bs" and k: "k < length xs"
  have "Suc k * width \<le> length xs * width" using k by (intro mult_right_mono) simp_all
  with h k show ?thesis by (auto simp: log_holds_def record_at_def min_def)
qed

lemma holds_unique: "log_holds dec width xs bs \<Longrightarrow> log_holds dec width ys bs \<Longrightarrow> xs = ys"
proof (rule nth_equalityI)
  assume xs: "log_holds dec width xs bs" and ys: "log_holds dec width ys bs"
  then show "length xs = length ys" using holds_count [OF xs] holds_count [OF ys] by simp
  then show "xs ! k = ys ! k" if "k < length xs" for k
    using that xs ys by (simp add: log_holds_def)
qed

end

section \<open>Orders\<close>

fun enc_side :: "Side \<Rightarrow> u8" where
  "enc_side BUY = 0"
| "enc_side SELL = 1"

definition dec_side :: "u8 \<Rightarrow> Side option" where
  "dec_side b = (if b = 0 then Some BUY else if b = 1 then Some SELL else None)"

fun enc_type :: "OrderType \<Rightarrow> u8" where
  "enc_type LIMIT = 0"
| "enc_type MARKET = 1"

definition dec_type :: "u8 \<Rightarrow> OrderType option" where
  "dec_type b = (if b = 0 then Some LIMIT else if b = 1 then Some MARKET else None)"

definition enc_double :: "double \<Rightarrow> u8 list" where
  "enc_double x = enc_u64 (bits_of x)"

definition dec_double :: "u8 list \<Rightarrow> double" where
  "dec_double bs = F64 (dec_u64 bs)"

definition sizeof_Order :: nat where
  "sizeof_Order = struct_sizeof Order_members"

definition sizeof_Trade :: nat where
  "sizeof_Trade = struct_sizeof Trade_members"

lemma sizeof_Order_value: "sizeof_Order = 64"
  by (simp add: sizeof_Order_def struct_sizeof_def struct_alignof_def align_up_def Order_members_def kSymbolLen_def)

lemma sizeof_Trade_value: "sizeof_Trade = 40"
  by (simp add: sizeof_Trade_def struct_sizeof_def struct_alignof_def align_up_def Trade_members_def)

definition enc_order :: "48 word \<Rightarrow> Order \<Rightarrow> u8 list" where
  "enc_order pad o1 =
     enc_u64 (order_id o1) @ enc_u64 (client_id o1) @ [enc_side (side o1), enc_type (otype o1)] @
     symbol o1 @ le_bytes 6 (unat pad) @ enc_double (price o1) @ enc_u64 (quantity o1) @
     enc_u64 (remaining_quantity o1) @ enc_u64 (timestamp o1)"

definition dec_order :: "u8 list \<Rightarrow> Order option" where
  "dec_order bs =
     (let m = (\<lambda>x. member_bytes Order_members x bs)
      in if length bs \<noteq> sizeof_Order then None
         else case (dec_side (m ''side'' ! 0), dec_type (m ''type'' ! 0)) of
                (Some s, Some t) \<Rightarrow>
                  Some \<lparr>order_id = dec_u64 (m ''order_id''), client_id = dec_u64 (m ''client_id''),
                        side = s, otype = t, symbol = m ''symbol'', price = dec_double (m ''price''),
                        quantity = dec_u64 (m ''quantity''),
                        remaining_quantity = dec_u64 (m ''remaining_quantity''),
                        timestamp = dec_u64 (m ''timestamp'')\<rparr>
              | _ \<Rightarrow> None)"

lemma dec_enc_side [simp]: "dec_side (enc_side s) = Some s"
  by (cases s) (simp_all add: dec_side_def)

lemma dec_enc_type [simp]: "dec_type (enc_type t) = Some t"
  by (cases t) (simp_all add: dec_type_def)

lemma dec_enc_double [simp]: "dec_double (enc_double x) = x"
  by (simp add: dec_double_def enc_double_def)

lemma length_enc_double [simp]: "length (enc_double x) = 8"
  by (simp add: enc_double_def)

lemma length_enc_order: "order_wf o1 \<Longrightarrow> length (enc_order pad o1) = sizeof_Order"
  by (simp add: enc_order_def order_wf_def kSymbolLen_def sizeof_Order_value)

text \<open>The same with the offsets the layout gives the members.\<close>

lemma dec_order_fields:
  "dec_order bs =
     (if length bs \<noteq> 64 then None
      else case (dec_side (bs ! 16), dec_type (bs ! 17)) of
             (Some s, Some t) \<Rightarrow>
               Some \<lparr>order_id = dec_u64 (field 0 8 bs), client_id = dec_u64 (field 8 8 bs),
                     side = s, otype = t, symbol = field 18 8 bs, price = dec_double (field 32 8 bs),
                     quantity = dec_u64 (field 40 8 bs), remaining_quantity = dec_u64 (field 48 8 bs),
                     timestamp = dec_u64 (field 56 8 bs)\<rparr>
           | _ \<Rightarrow> None)"
  by (cases "length bs = 64")
    (simp_all only: dec_order_def Let_def Order_member_bytes sizeof_Order_value if_True if_False simp_thms,
      simp add: field_byte [unfolded One_nat_def])

lemma dec_enc_order:
  assumes "order_wf o1"
  shows "dec_order (enc_order pad o1) = Some o1"
proof -
  have sym: "length (symbol o1) = 8" using assms by (simp add: order_wf_def kSymbolLen_def)
  have "length (enc_order pad o1) = sizeof_Order" using length_enc_order [OF assms] .
  moreover have "enc_order pad o1 ! 16 = enc_side (side o1)" "enc_order pad o1 ! 17 = enc_type (otype o1)"
    by (simp_all add: enc_order_def nth_append)
  ultimately show ?thesis
    using sym by (simp add: dec_order_fields sizeof_Order_value) (simp add: enc_order_def)
qed

text \<open>The padding bytes of an order's image; with them decoding is one-to-one.\<close>

definition order_padding :: "u8 list \<Rightarrow> 48 word" where
  "order_padding bs = of_nat (le_nat (field 26 6 bs))"

lemma enc_dec_side: "dec_side b = Some s \<Longrightarrow> enc_side s = b"
  by (auto simp: dec_side_def split: if_splits)

lemma enc_dec_type: "dec_type b = Some t \<Longrightarrow> enc_type t = b"
  by (auto simp: dec_type_def split: if_splits)

lemma enc_dec_double: "length bs = 8 \<Longrightarrow> enc_double (dec_double bs) = bs"
  by (simp add: dec_double_def enc_double_def enc_dec_u64)

lemma order_padding_bytes:
  assumes "32 \<le> length bs"
  shows "le_bytes 6 (unat (order_padding bs)) = field 26 6 bs"
proof -
  have l: "length (field 26 6 bs) = 6" using assms by simp
  then have "le_nat (field 26 6 bs) < 281474976710656" using le_nat_less [of "field 26 6 bs"] by simp
  then have "unat (order_padding bs) = le_nat (field 26 6 bs)" by (simp add: order_padding_def unat_of_nat)
  with le_bytes_le_nat [of "field 26 6 bs"] l show ?thesis by simp
qed

lemma enc_dec_order:
  assumes "dec_order bs = Some o1"
  shows "order_wf o1 \<and> enc_order (order_padding bs) o1 = bs"
proof -
  have len: "length bs = 64" using assms by (auto simp: dec_order_fields split: if_splits)
  obtain s t where st: "dec_side (bs ! 16) = Some s" "dec_type (bs ! 17) = Some t"
    using assms len by (auto simp: dec_order_fields split: option.splits)
  have o1: "o1 = \<lparr>order_id = dec_u64 (field 0 8 bs), client_id = dec_u64 (field 8 8 bs),
                  side = s, otype = t, symbol = field 18 8 bs, price = dec_double (field 32 8 bs),
                  quantity = dec_u64 (field 40 8 bs), remaining_quantity = dec_u64 (field 48 8 bs),
                  timestamp = dec_u64 (field 56 8 bs)\<rparr>"
    using assms len st by (simp add: dec_order_fields)
  have b: "enc_side s # enc_type t # xs = field 16 1 bs @ field 17 1 bs @ xs" for xs
    using len st by (simp add: field_byte [unfolded One_nat_def] enc_dec_side enc_dec_type)
  have e: "enc_u64 (dec_u64 (field k 8 bs)) = field k 8 bs" if "k \<le> 56" for k
    using that len by (simp add: enc_dec_u64)
  have img: "enc_order (order_padding bs) o1 = field 0 8 bs @ field 8 8 bs @ field 16 1 bs @ field 17 1 bs @
      field 18 8 bs @ field 26 6 bs @ field 32 8 bs @ field 40 8 bs @ field 48 8 bs @ field 56 8 bs @ drop 64 bs"
    unfolding enc_order_def o1 using len order_padding_bytes [of bs] e
    by (simp add: b enc_dec_double)
  have "\<dots> = drop 0 bs"
    using field_join [of 0 8 bs] field_join [of 8 8 bs] field_join [of 16 1 bs] field_join [of 17 1 bs]
      field_join [of 18 8 bs] field_join [of 26 6 bs] field_join [of 32 8 bs] field_join [of 40 8 bs]
      field_join [of 48 8 bs] field_join [of 56 8 bs] by simp
  then have "enc_order (order_padding bs) o1 = bs" using img by simp
  moreover have "order_wf o1" using len by (simp add: o1 order_wf_def kSymbolLen_def)
  ultimately show ?thesis by simp
qed

interpretation order_codec: record_codec enc_order dec_order sizeof_Order order_wf
proof
  show "0 < sizeof_Order" by (simp add: sizeof_Order_value)
qed (simp_all add: dec_enc_order length_enc_order)

section \<open>Trades\<close>

definition enc_trade :: "Trade \<Rightarrow> u8 list" where
  "enc_trade t =
     enc_u64 (buy_order_id t) @ enc_u64 (sell_order_id t) @ enc_double (t_price t) @
     enc_u64 (t_quantity t) @ enc_u64 (t_timestamp t)"

definition dec_trade :: "u8 list \<Rightarrow> Trade option" where
  "dec_trade bs =
     (let m = (\<lambda>x. member_bytes Trade_members x bs)
      in if length bs \<noteq> sizeof_Trade then None
         else Some \<lparr>buy_order_id = dec_u64 (m ''buy_order_id''), sell_order_id = dec_u64 (m ''sell_order_id''),
                    t_price = dec_double (m ''price''), t_quantity = dec_u64 (m ''quantity''),
                    t_timestamp = dec_u64 (m ''timestamp'')\<rparr>)"

lemma length_enc_trade: "length (enc_trade t) = sizeof_Trade"
  by (simp add: enc_trade_def sizeof_Trade_value)

lemma dec_enc_trade: "dec_trade (enc_trade t) = Some t"
  by (simp add: dec_trade_def length_enc_trade Let_def Trade_member_bytes) (simp add: enc_trade_def)

interpretation trade_codec: record_codec "\<lambda>_ :: unit. enc_trade" dec_trade sizeof_Trade "\<lambda>_. True"
proof
  show "0 < sizeof_Trade" by (simp add: sizeof_Trade_value)
qed (simp_all add: dec_enc_trade length_enc_trade)



end
