(* ===== verification/LogQueue.thy ===== *)
theory LogQueue
  imports OrderQueue Layout
begin

text \<open>
  \<open>LogBackedOrderQueue\<close> of \<open>include/log_backed_order_queue.hpp\<close>: an append-only file of order
  records and a checkpoint file with the consumer's position.  The file system is part of the
  state, since files outlive the processes: a restart is a new queue on the files as they
  are.  \<open>can_open\<close> says which paths \<open>fopen\<close> succeeds on; a file's size stays below \<open>2 ^ 63\<close>, the
  range of \<open>off_t\<close>.
\<close>

section \<open>Files\<close>

record fs =
  files :: "string \<rightharpoonup> u8 list"
  can_open :: "string \<Rightarrow> bool"

definition file_bytes :: "string \<Rightarrow> fs \<Rightarrow> u8 list" where
  "file_bytes p d = (case files d p of None \<Rightarrow> [] | Some bs \<Rightarrow> bs)"

definition set_file :: "string \<Rightarrow> u8 list \<Rightarrow> fs \<Rightarrow> fs" where
  "set_file p bs d = d\<lparr>files := (files d)(p \<mapsto> bs)\<rparr>"

text \<open>\<open>fopen(p, "a+b")\<close>, \<open>fopen(p, "rb")\<close> and \<open>fopen(p, "wb")\<close>; the last truncates.\<close>

definition fopen_append :: "string \<Rightarrow> fs \<Rightarrow> fs option" where
  "fopen_append p d = (if can_open d p then Some (set_file p (file_bytes p d) d) else None)"

definition fopen_read :: "string \<Rightarrow> fs \<Rightarrow> u8 list option" where
  "fopen_read p d = (if can_open d p then files d p else None)"

definition fopen_write :: "string \<Rightarrow> fs \<Rightarrow> fs option" where
  "fopen_write p d = (if can_open d p then Some (set_file p [] d) else None)"

definition fwrite_end :: "string \<Rightarrow> u8 list \<Rightarrow> fs \<Rightarrow> fs" where
  "fwrite_end p bs d = set_file p (file_bytes p d @ bs) d"

lemma file_bytes_set [simp]: "file_bytes p (set_file p' bs d) = (if p = p' then bs else file_bytes p d)"
  by (simp add: file_bytes_def set_file_def)

lemma can_open_set [simp]: "can_open (set_file p bs d) = can_open d"
  by (simp add: set_file_def)

lemma files_set: "files (set_file p bs d) q = (if q = p then Some bs else files d q)"
  by (simp add: set_file_def)

section \<open>State and operations\<close>

record LogBackedOrderQueue =
  log_path :: string
  checkpoint_path :: string
  consumer_offset :: u64
  lq_done :: bool

definition read_checkpoint :: "string \<Rightarrow> fs \<Rightarrow> u64" where
  "read_checkpoint p d =
     (case fopen_read p d of
        None \<Rightarrow> 0
      | Some bs \<Rightarrow> if length (take 8 bs) = 8 then dec_u64 (take 8 bs) else 0)"

definition write_checkpoint :: "string \<Rightarrow> u64 \<Rightarrow> fs \<Rightarrow> queue_error + fs" where
  "write_checkpoint p offset d =
     (case fopen_write p d of
        None \<Rightarrow> Inl (Cannot_write p)
      | Some d' \<Rightarrow> Inr (fwrite_end p (enc_u64 offset) d'))"

definition make_log_queue :: "string \<Rightarrow> string \<Rightarrow> fs \<Rightarrow> queue_error + (LogBackedOrderQueue \<times> fs)" where
  "make_log_queue base_path consumer_id d =
     (let lp = base_path @ ''.log'';
          cp = base_path @ (if consumer_id = [] then [] else ''.'' @ consumer_id) @ ''.offset''
      in case fopen_append lp d of
           None \<Rightarrow> Inl (Cannot_open lp)
         | Some d' \<Rightarrow>
             Inr (\<lparr>log_path = lp, checkpoint_path = cp, consumer_offset = read_checkpoint cp d',
                   lq_done = False\<rparr>, d'))"

definition log_push :: "48 word \<Rightarrow> Order \<Rightarrow> LogBackedOrderQueue \<times> fs \<Rightarrow> (LogBackedOrderQueue \<times> fs) option" where
  "log_push pad x = (\<lambda>(q, d). Some (q, fwrite_end (log_path q) (enc_order pad x) d))"

definition current_file_record_count :: "LogBackedOrderQueue \<Rightarrow> fs \<Rightarrow> u64" where
  "current_file_record_count q d = of_nat (length (file_bytes (log_path q) d)) div of_nat sizeof_Order"

text \<open>
  One attempt of \<open>pop\<close>.  The counter is incremented before \<open>write_checkpoint\<close>, so it stays
  incremented when that throws.
\<close>

definition log_pop :: "LogBackedOrderQueue \<times> fs \<Rightarrow> pop_result \<times> LogBackedOrderQueue \<times> fs" where
  "log_pop = (\<lambda>(q, d).
     let available = current_file_record_count q d;
         off = consumer_offset q
     in if off < available
        then (let rec = take sizeof_Order (drop (unat (off * of_nat sizeof_Order)) (file_bytes (log_path q) d))
              in if length rec \<noteq> sizeof_Order then (Threw (Short_read off), q, d)
                 else let q' = q\<lparr>consumer_offset := off + 1\<rparr>
                      in case write_checkpoint (checkpoint_path q') (consumer_offset q') d of
                           Inl err \<Rightarrow> (Threw err, q', d)
                         | Inr d' \<Rightarrow>
                             (case dec_order rec of
                                None \<Rightarrow> (Threw Bad_enum, q', d')
                              | Some x \<Rightarrow> (Popped x, q', d')))
        else if lq_done q then (Drained, q, d)
        else (Waiting, q, d))"

definition log_shutdown :: "LogBackedOrderQueue \<times> fs \<Rightarrow> LogBackedOrderQueue \<times> fs" where
  "log_shutdown = (\<lambda>(q, d). (q\<lparr>lq_done := True\<rparr>, d))"

definition write_offset :: "LogBackedOrderQueue \<times> fs \<Rightarrow> u64" where
  "write_offset = (\<lambda>(q, d). current_file_record_count q d)"

section \<open>The file as a list of orders\<close>

text \<open>The orders in the file, up to the last complete record.\<close>

definition log_orders :: "LogBackedOrderQueue \<times> fs \<Rightarrow> Order list" where
  "log_orders = (\<lambda>(q, d).
     map (\<lambda>k. the (record_at dec_order sizeof_Order k (file_bytes (log_path q) d)))
       [0 ..< length (file_bytes (log_path q) d) div sizeof_Order])"

definition log_contents :: "LogBackedOrderQueue \<times> fs \<Rightarrow> Order list" where
  "log_contents st = drop (unat (consumer_offset (fst st))) (log_orders st)"

definition log_inv :: "LogBackedOrderQueue \<times> fs \<Rightarrow> bool" where
  "log_inv = (\<lambda>(q, d).
     log_holds dec_order sizeof_Order (log_orders (q, d)) (file_bytes (log_path q) d) \<and>
     length (file_bytes (log_path q) d) < 2 ^ 63 \<and>
     unat (consumer_offset q) \<le> length (log_orders (q, d)) \<and>
     log_path q \<noteq> checkpoint_path q \<and> can_open d (checkpoint_path q) \<and>
     read_checkpoint (checkpoint_path q) d = consumer_offset q)"

definition log_fits :: "nat \<Rightarrow> LogBackedOrderQueue \<times> fs \<Rightarrow> bool" where
  "log_fits n = (\<lambda>(q, d). length (file_bytes (log_path q) d) + n * sizeof_Order < 2 ^ 63)"

lemma log_orders_eq:
  "log_holds dec_order sizeof_Order xs (file_bytes (log_path q) d) \<Longrightarrow> log_orders (q, d) = xs"
proof -
  assume h: "log_holds dec_order sizeof_Order xs (file_bytes (log_path q) d)"
  then show ?thesis
    using order_codec.holds_count [OF h]
    by (auto simp: log_orders_def log_holds_def intro!: nth_equalityI)
qed

lemma log_orders_frame:
  "file_bytes (log_path q) d = file_bytes (log_path q') d' \<Longrightarrow> log_orders (q, d) = log_orders (q', d')"
  by (simp add: log_orders_def)

lemma record_count_nat:
  assumes "log_inv (q, d)"
  shows "unat (current_file_record_count q d) = length (log_orders (q, d))"
proof -
  let ?n = "length (file_bytes (log_path q) d)"
  have "?n < 18446744073709551616" using assms by (simp add: log_inv_def)
  then have "unat (of_nat ?n :: u64) = ?n" by (simp add: unat_of_nat take_bit_nat_eq_self)
  then show ?thesis
    by (simp add: current_file_record_count_def unat_div_distrib log_orders_def sizeof_Order_value)
qed

lemma read_write_checkpoint:
  "can_open d p \<Longrightarrow> write_checkpoint p n d = Inr (set_file p (enc_u64 n) (set_file p [] d)) \<and>
     read_checkpoint p (set_file p (enc_u64 n) (set_file p [] d)) = n"
  by (simp add: write_checkpoint_def fopen_write_def fwrite_end_def read_checkpoint_def
      fopen_read_def files_set)

lemma read_checkpoint_frame:
  "p \<noteq> p' \<Longrightarrow> read_checkpoint p (set_file p' bs d) = read_checkpoint p d"
  by (simp add: read_checkpoint_def fopen_read_def files_set)

section \<open>The contract of the interface\<close>

lemma log_push_law:
  assumes "order_wf x" and "log_inv st" and "log_fits (Suc n) st" and "log_push pad x st = Some st'"
  shows "log_inv st' \<and> log_fits n st' \<and> log_contents st' = log_contents st @ [x] \<and>
         lq_done (fst st') = lq_done (fst st)"
proof -
  obtain q d where st: "st = (q, d)" by fastforce
  let ?d = "fwrite_end (log_path q) (enc_order pad x) d"
  have st': "st' = (q, ?d)" using assms(4) st by (simp add: log_push_def)
  have b: "file_bytes (log_path q) ?d = file_bytes (log_path q) d @ enc_order pad x"
    by (simp add: fwrite_end_def)
  have "log_holds dec_order sizeof_Order (log_orders (q, d) @ [x]) (file_bytes (log_path q) ?d)"
    using assms(1,2) st b order_codec.holds_append by (simp add: log_inv_def)
  then have o: "log_orders (q, ?d) = log_orders (q, d) @ [x]"
    and h: "log_holds dec_order sizeof_Order (log_orders (q, ?d)) (file_bytes (log_path q) ?d)"
    using log_orders_eq by simp_all
  have "read_checkpoint (checkpoint_path q) ?d = read_checkpoint (checkpoint_path q) d"
  proof -
    have "checkpoint_path q \<noteq> log_path q" using assms(2) st by (auto simp: log_inv_def)
    then show ?thesis by (simp add: fwrite_end_def read_checkpoint_frame)
  qed
  then show ?thesis
    using assms(2,3) st st' h o b length_enc_order [OF assms(1), of pad]
    by (auto simp: log_inv_def log_fits_def log_contents_def fwrite_end_def)
qed

text \<open>The order at the consumer's position, read from the file.\<close>

lemma log_read_next:
  assumes "log_inv (q, d)" and "unat (consumer_offset q) < length (log_orders (q, d))"
  defines "rec \<equiv> take sizeof_Order (drop (unat (consumer_offset q * of_nat sizeof_Order)) (file_bytes (log_path q) d))"
  shows "length rec = sizeof_Order" and "dec_order rec = Some (log_orders (q, d) ! unat (consumer_offset q))"
proof -
  have h: "log_holds dec_order sizeof_Order (log_orders (q, d)) (file_bytes (log_path q) d)"
    and "length (file_bytes (log_path q) d) < 2 ^ 63"
    using assms(1) by (simp_all add: log_inv_def)
  then have "length (log_orders (q, d)) * sizeof_Order < 2 ^ 63" by (simp add: log_holds_def)
  then have "unat (consumer_offset q) * 64 < 18446744073709551616"
    using assms(2) by (simp add: sizeof_Order_value)
  then have "unat (consumer_offset q * of_nat sizeof_Order) = unat (consumer_offset q) * sizeof_Order"
    by (simp add: sizeof_Order_value unat_word_ariths)
  then show "length rec = sizeof_Order" and "dec_order rec = Some (log_orders (q, d) ! unat (consumer_offset q))"
    using order_codec.holds_read [OF h assms(2)] by (simp_all add: rec_def)
qed

lemma log_pop_some:
  assumes inv: "log_inv (q, d)" and lt: "unat (consumer_offset q) < length (log_orders (q, d))"
  shows "\<exists>d'. log_pop (q, d) =
             (Popped (log_orders (q, d) ! unat (consumer_offset q)), q\<lparr>consumer_offset := consumer_offset q + 1\<rparr>, d') \<and>
           log_inv (q\<lparr>consumer_offset := consumer_offset q + 1\<rparr>, d') \<and>
           unat (consumer_offset q + 1) = Suc (unat (consumer_offset q)) \<and>
           log_orders (q\<lparr>consumer_offset := consumer_offset q + 1\<rparr>, d') = log_orders (q, d) \<and>
           file_bytes (log_path q) d' = file_bytes (log_path q) d"
proof -
  let ?q = "q\<lparr>consumer_offset := consumer_offset q + 1\<rparr>"
  let ?d = "set_file (checkpoint_path q) (enc_u64 (consumer_offset q + 1)) (set_file (checkpoint_path q) [] d)"
  have co: "can_open d (checkpoint_path q)" and ne: "log_path q \<noteq> checkpoint_path q"
    and len: "length (file_bytes (log_path q) d) < 2 ^ 63"
    using inv by (simp_all add: log_inv_def)
  note cp = read_write_checkpoint [OF co, of "consumer_offset q + 1"]
  have b: "file_bytes (log_path q) ?d = file_bytes (log_path q) d" using ne by simp
  have o: "log_orders (?q, ?d) = log_orders (q, d)" using b by (intro log_orders_frame) simp
  have "length (log_orders (q, d)) < 2 ^ 63"
    using inv len by (auto simp: log_inv_def log_holds_def sizeof_Order_value)
  then have s: "unat (consumer_offset q + 1) = Suc (unat (consumer_offset q))"
    using lt by (simp add: unat_u64_Suc)
  have lt': "consumer_offset q < current_file_record_count q d"
    using lt record_count_nat [OF inv] by (simp add: word_less_nat_alt)
  have "log_pop (q, d) = (Popped (log_orders (q, d) ! unat (consumer_offset q)), ?q, ?d)"
    using lt' log_read_next [OF inv lt] cp by (simp add: log_pop_def Let_def)
  moreover have "log_inv (?q, ?d)"
    using inv o b s lt cp ne by (simp add: log_inv_def)
  ultimately show ?thesis using o b s by blast
qed

lemma log_pop_end:
  assumes "log_inv (q, d)" and "length (log_orders (q, d)) \<le> unat (consumer_offset q)"
  shows "log_pop (q, d) = (if lq_done q then Drained else Waiting, q, d)"
proof -
  have "\<not> consumer_offset q < current_file_record_count q d"
    using assms record_count_nat [OF assms(1)] by (simp add: word_less_nat_alt)
  then show ?thesis by (simp add: log_pop_def Let_def)
qed

lemma log_pop_law:
  assumes "log_inv st" and "log_contents st = x # xs"
  shows "\<exists>st'. log_pop st = (Popped x, st') \<and> log_inv st' \<and> log_contents st' = xs \<and>
           lq_done (fst st') = lq_done (fst st) \<and> (\<forall>n. log_fits n st \<longrightarrow> log_fits n st')"
proof -
  obtain q d where st: "st = (q, d)" by fastforce
  let ?k = "unat (consumer_offset q)"
  have lt: "?k < length (log_orders (q, d))"
    using assms(2) st by (cases "?k < length (log_orders (q, d))") (simp_all add: log_contents_def)
  have x: "x = log_orders (q, d) ! ?k" "xs = drop (Suc ?k) (log_orders (q, d))"
    using assms(2) st lt by (simp_all add: log_contents_def Cons_nth_drop_Suc [symmetric])
  obtain d' where "log_pop (q, d) = (Popped x, q\<lparr>consumer_offset := consumer_offset q + 1\<rparr>, d')"
    "log_inv (q\<lparr>consumer_offset := consumer_offset q + 1\<rparr>, d')"
    "unat (consumer_offset q + 1) = Suc ?k"
    "log_orders (q\<lparr>consumer_offset := consumer_offset q + 1\<rparr>, d') = log_orders (q, d)"
    "file_bytes (log_path q) d' = file_bytes (log_path q) d"
    using log_pop_some [OF assms(1) [unfolded st] lt] x(1) by blast
  then show ?thesis using x(2) st by (auto simp: log_contents_def log_fits_def)
qed

interpretation logq: total_queue order_wf log_inv log_fits log_contents "\<lambda>st. lq_done (fst st)"
  "log_push pad" log_pop log_shutdown for pad
proof
  fix st st' :: "LogBackedOrderQueue \<times> fs" and n x xs
  show "log_fits (Suc n) st \<Longrightarrow> log_fits n st" by (auto simp: log_fits_def)
  show "\<exists>st'. log_push pad x st = Some st'" by (cases st) (simp add: log_push_def)
  show "order_wf x \<Longrightarrow> log_inv st \<Longrightarrow> log_fits (Suc n) st \<Longrightarrow> log_push pad x st = Some st' \<Longrightarrow>
      log_inv st' \<and> log_fits n st' \<and> log_contents st' = log_contents st @ [x] \<and>
      lq_done (fst st') = lq_done (fst st)"
    by (rule log_push_law)
  show "log_inv st \<Longrightarrow> log_contents st = x # xs \<Longrightarrow>
      \<exists>st'. log_pop st = (Popped x, st') \<and> log_inv st' \<and> log_contents st' = xs \<and>
        lq_done (fst st') = lq_done (fst st) \<and> (\<forall>n. log_fits n st \<longrightarrow> log_fits n st')"
    by (rule log_pop_law)
  show "log_inv st \<Longrightarrow> log_contents st = [] \<Longrightarrow>
      log_pop st = (if lq_done (fst st) then Drained else Waiting, st)"
    using log_pop_end by (cases st) (simp add: log_contents_def)
  show "log_inv st \<Longrightarrow> log_inv (log_shutdown st) \<and> log_contents (log_shutdown st) = log_contents st \<and>
      lq_done (fst (log_shutdown st)) \<and> (log_fits n st \<longrightarrow> log_fits n (log_shutdown st))"
    by (cases st) (simp add: log_shutdown_def log_inv_def log_contents_def log_fits_def log_orders_def)
qed

section \<open>Restart\<close>

definition log_file :: "string \<Rightarrow> string" where
  "log_file base = base @ ''.log''"

definition offset_file :: "string \<Rightarrow> string \<Rightarrow> string" where
  "offset_file base cid = base @ (if cid = [] then [] else ''.'' @ cid) @ ''.offset''"

lemma log_file_neq_offset_file: "log_file base \<noteq> offset_file base cid"
  using arg_cong [of "log_file base" "offset_file base cid" last]
  by (auto simp: log_file_def offset_file_def)

text \<open>A queue a process with the given base path and consumer id has open.\<close>

definition opened :: "string \<Rightarrow> string \<Rightarrow> LogBackedOrderQueue \<times> fs \<Rightarrow> bool" where
  "opened base cid = (\<lambda>(q, d).
     log_path q = log_file base \<and> checkpoint_path q = offset_file base cid \<and>
     can_open d (log_file base) \<and> files d (log_file base) \<noteq> None)"

lemma make_log_queue_opened:
  "make_log_queue base cid d = Inr st \<Longrightarrow> opened base cid st"
  by (auto simp: make_log_queue_def opened_def Let_def log_file_def offset_file_def fopen_append_def
      files_set split: option.splits if_splits)

lemma opened_push: "opened base cid st \<Longrightarrow> log_push pad x st = Some st' \<Longrightarrow> opened base cid st'"
  by (auto simp: opened_def log_push_def fwrite_end_def files_set)

lemma opened_pop: "opened base cid st \<Longrightarrow> opened base cid (snd (log_pop st))"
  by (auto simp: opened_def log_pop_def Let_def write_checkpoint_def fopen_write_def fwrite_end_def
      files_set split: prod.splits option.splits sum.splits if_splits)

lemma opened_shutdown: "opened base cid st \<Longrightarrow> opened base cid (log_shutdown st)"
  by (auto simp: opened_def log_shutdown_def)

lemma set_file_same: "files d p \<noteq> None \<Longrightarrow> set_file p (file_bytes p d) d = d"
  by (auto simp: set_file_def file_bytes_def fun_upd_idem)

lemma reopen:
  assumes "opened base cid (q, d)"
  shows "make_log_queue base cid d =
           Inr (\<lparr>log_path = log_file base, checkpoint_path = offset_file base cid,
                 consumer_offset = read_checkpoint (offset_file base cid) d, lq_done = False\<rparr>, d)"
  using assms set_file_same [of d "log_file base"]
  by (auto simp: make_log_queue_def opened_def Let_def fopen_append_def log_file_def offset_file_def)

lemma reopen_inv:
  assumes "opened base cid (q, d)" and "log_inv (q, d)"
  shows "\<exists>q'. make_log_queue base cid d = Inr (q', d) \<and> log_inv (q', d) \<and>
           log_contents (q', d) = log_contents (q, d) \<and> \<not> lq_done q'"
proof -
  let ?q = "\<lparr>log_path = log_file base, checkpoint_path = offset_file base cid,
     consumer_offset = read_checkpoint (offset_file base cid) d, lq_done = False\<rparr>"
  have p: "log_path q = log_file base" "checkpoint_path q = offset_file base cid"
    using assms(1) by (simp_all add: opened_def)
  then have "log_orders (?q, d) = log_orders (q, d)" by (intro log_orders_frame) simp
  moreover have "consumer_offset ?q = consumer_offset q" using assms(2) p by (simp add: log_inv_def)
  ultimately have "log_inv (?q, d)" "log_contents (?q, d) = log_contents (q, d)"
    using assms(2) p by (simp_all add: log_inv_def log_contents_def)
  then show ?thesis using reopen [OF assms(1)] by auto
qed

lemma fresh_queue:
  assumes "can_open d (log_file base)" and "can_open d (offset_file base cid)"
    and "files d (log_file base) = None" and "files d (offset_file base cid) = None"
  shows "\<exists>q d'. make_log_queue base cid d = Inr (q, d') \<and> log_inv (q, d') \<and> log_contents (q, d') = [] \<and>
           \<not> lq_done q \<and> file_bytes (log_file base) d' = [] \<and> can_open d' = can_open d"
proof -
  let ?d = "set_file (log_file base) [] d"
  let ?q = "\<lparr>log_path = log_file base, checkpoint_path = offset_file base cid,
     consumer_offset = 0, lq_done = False\<rparr>"
  have "read_checkpoint (offset_file base cid) ?d = 0"
    using assms(4) log_file_neq_offset_file [of base cid]
    by (auto simp: read_checkpoint_def fopen_read_def files_set)
  then have "make_log_queue base cid d = Inr (?q, ?d)"
    using assms(1,3) by (simp add: make_log_queue_def Let_def fopen_append_def file_bytes_def
        log_file_def [symmetric] offset_file_def [symmetric])
  moreover have "log_inv (?q, ?d)"
    using assms(2) log_file_neq_offset_file \<open>read_checkpoint (offset_file base cid) ?d = 0\<close>
    by (simp add: log_inv_def log_orders_def log_holds_def)
  ultimately show ?thesis by (simp add: log_contents_def log_orders_def)
qed

text \<open>
  C10: However pushes and pops interleave, a process that stops between two calls and
  starts again on the same base path and consumer id resumes exactly where it left off: the
  orders it got before, followed by those the new queue holds, are the orders pushed, in
  order, none lost and none repeated.
\<close>

theorem restart_resumes:
  assumes "make_log_queue base cid d0 = Inr st0" and "log_inv st0"
    and "log_fits (length (pushed_items ops)) st0" and "list_all order_wf (pushed_items ops)"
    and "run_ops (log_push pad) log_pop log_shutdown ops st0 = (ins, outs, (q, d))"
  shows "\<exists>q'. make_log_queue base cid d = Inr (q', d) \<and> log_inv (q', d) \<and>
           log_contents st0 @ ins = outs @ log_contents (q', d)"
proof -
  have "opened base cid (snd (snd (run_ops (log_push pad) log_pop log_shutdown ops st0)))"
    by (rule run_ops_preserves)
      (auto intro: opened_push opened_pop opened_shutdown make_log_queue_opened [OF assms(1)])
  then have "opened base cid (q, d)" using assms(5) by simp
  moreover have "log_inv (q, d)" "log_contents st0 @ ins = outs @ log_contents (q, d)"
    using logq.fifo [OF assms(2,3,4,5)] by simp_all
  ultimately show ?thesis using reopen_inv by fastforce
qed

definition empty_disk :: fs where
  "empty_disk = \<lparr>files = Map.empty, can_open = (\<lambda>_. True)\<rparr>"

lemma default_order_wf: "order_wf default_order"
  by (simp add: order_wf_def default_order_def)

theorem restart_resumes_witness:
  "\<exists>st0 outs q d q'. make_log_queue ''x'' '''' empty_disk = Inr st0 \<and>
     run_ops (log_push 0) log_pop log_shutdown [Push default_order, Push default_order, Pop] st0 =
       ([default_order, default_order], outs, (q, d)) \<and>
     make_log_queue ''x'' '''' d = Inr (q', d) \<and>
     [default_order, default_order] = outs @ log_contents (q', d)"
proof -
  let ?ops = "[Push default_order, Push default_order, Pop]"
  obtain q0 d0 where st0: "make_log_queue ''x'' '''' empty_disk = Inr (q0, d0)" "log_inv (q0, d0)"
    "log_contents (q0, d0) = []" "file_bytes (log_file ''x'') d0 = []"
    using fresh_queue [of empty_disk "''x''" "''''"] by (auto simp: empty_disk_def)
  have p: "log_path q0 = log_file ''x''"
    using make_log_queue_opened [OF st0(1)] by (simp add: opened_def)
  have fits: "log_fits (length (pushed_items ?ops)) (q0, d0)"
    using st0(4) by (simp add: log_fits_def p sizeof_Order_value)
  obtain st2 where st2: "log_push 0 default_order (the (log_push 0 default_order (q0, d0))) = Some st2"
    by (simp add: log_push_def)
  obtain r q d where pop: "log_pop st2 = (r, q, d)" by (metis prod_cases3)
  then obtain outs where r: "run_ops (log_push 0) log_pop log_shutdown ?ops (q0, d0) =
      ([default_order, default_order], outs, (q, d))"
    using st2 by (cases r) (auto simp: log_push_def)
  show ?thesis
    using restart_resumes [OF st0(1,2) fits _ r] st0(1,3) r default_order_wf by auto
qed

section \<open>Failures\<close>

text \<open>
  C38: \<open>write_checkpoint\<close> first truncates the checkpoint file and then writes the new
  offset.  A process that dies in between leaves an empty checkpoint, which reads as zero:
  the restarted consumer gets the whole log again, every order it had already consumed
  included.
\<close>

theorem checkpoint_crash_replays_log:
  assumes "opened base cid (q, d)" and "log_inv (q, d)"
    and "fopen_write (checkpoint_path q) d = Some d'"
  shows "\<exists>q'. make_log_queue base cid d' = Inr (q', d') \<and> consumer_offset q' = 0 \<and>
           log_contents (q', d') = log_orders (q, d)"
proof -
  have p: "log_path q = log_file base" "checkpoint_path q = offset_file base cid"
    using assms(1) by (simp_all add: opened_def)
  have d': "d' = set_file (offset_file base cid) [] d"
    using assms(3) p by (simp add: fopen_write_def split: if_splits)
  then have o: "opened base cid (q, d')"
    using assms(1) by (auto simp: opened_def files_set)
  have z: "read_checkpoint (offset_file base cid) d' = 0"
    by (simp add: d' read_checkpoint_def fopen_read_def files_set)
  have "log_orders (\<lparr>log_path = log_file base, checkpoint_path = offset_file base cid,
      consumer_offset = 0, lq_done = False\<rparr>, d') = log_orders (q, d)"
    using p log_file_neq_offset_file by (intro log_orders_frame) (simp add: d')
  then show ?thesis using reopen [OF o] z by (simp add: log_contents_def)
qed

text \<open>A disk with one order in the log, and the queue that has consumed it.\<close>

definition used_disk :: fs where
  "used_disk = \<lparr>files = [log_file ''x'' \<mapsto> enc_order 0 default_order,
                         offset_file ''x'' '''' \<mapsto> enc_u64 1], can_open = (\<lambda>_. True)\<rparr>"

definition used_queue :: LogBackedOrderQueue where
  "used_queue = \<lparr>log_path = log_file ''x'', checkpoint_path = offset_file ''x'' '''',
                 consumer_offset = 1, lq_done = False\<rparr>"

lemma used_orders: "log_orders (used_queue, used_disk) = [default_order]"
  and used_inv: "log_inv (used_queue, used_disk)"
proof -
  have b: "file_bytes (log_path used_queue) used_disk = enc_order 0 default_order"
    using log_file_neq_offset_file by (simp add: used_queue_def used_disk_def file_bytes_def)
  have "log_holds dec_order sizeof_Order ([] @ [default_order]) ([] @ enc_order 0 default_order)"
    by (rule order_codec.holds_append [OF order_codec.holds_Nil default_order_wf])
  then have h: "log_holds dec_order sizeof_Order [default_order] (file_bytes (log_path used_queue) used_disk)"
    by (simp add: b)
  then show o: "log_orders (used_queue, used_disk) = [default_order]" by (rule log_orders_eq)
  have "read_checkpoint (checkpoint_path used_queue) used_disk = 1"
    by (simp add: read_checkpoint_def fopen_read_def used_disk_def used_queue_def)
  then show "log_inv (used_queue, used_disk)"
    using h o b length_enc_order [OF default_order_wf, of 0] log_file_neq_offset_file
    by (simp add: log_inv_def sizeof_Order_value) (simp add: used_queue_def used_disk_def)
qed

theorem checkpoint_crash_replays_log_witness:
  "log_contents (used_queue, used_disk) = [] \<and>
   (\<exists>d' q'. fopen_write (checkpoint_path used_queue) used_disk = Some d' \<and>
      make_log_queue ''x'' '''' d' = Inr (q', d') \<and> log_contents (q', d') = [default_order])"
proof -
  have op: "opened ''x'' '''' (used_queue, used_disk)"
    by (simp add: opened_def used_queue_def used_disk_def)
  obtain d' where d': "fopen_write (checkpoint_path used_queue) used_disk = Some d'"
    by (simp add: fopen_write_def used_disk_def)
  have "log_contents (used_queue, used_disk) = []"
    by (simp add: log_contents_def used_orders) (simp add: used_queue_def)
  then show ?thesis
    using checkpoint_crash_replays_log [OF op used_inv d'] d' by (auto simp: used_orders)
qed

text \<open>
  When the checkpoint file cannot be opened, \<open>pop\<close> throws, and it has already moved
  past the order: the order it read is not returned, and the position the next call of the
  same process starts from is the one after it.
\<close>

lemma pop_skips_order_on_checkpoint_failure:
  assumes "log_holds dec_order sizeof_Order xs (file_bytes (log_path q) d)"
    and "length (file_bytes (log_path q) d) < 2 ^ 63"
    and "unat (consumer_offset q) < length xs" and "\<not> can_open d (checkpoint_path q)"
  shows "log_pop (q, d) =
           (Threw (Cannot_write (checkpoint_path q)), q\<lparr>consumer_offset := consumer_offset q + 1\<rparr>, d)"
proof -
  let ?n = "length (file_bytes (log_path q) d)"
  have n: "?n = length xs * 64" "?n < 18446744073709551616"
    using assms(1,2) by (simp_all add: log_holds_def sizeof_Order_value)
  have "unat (of_nat ?n :: u64) = ?n" using n(2) by (simp add: unat_of_nat take_bit_nat_eq_self)
  then have "unat (current_file_record_count q d) = length xs"
    using n(1) by (simp add: current_file_record_count_def unat_div_distrib sizeof_Order_value)
  then have lt: "consumer_offset q < current_file_record_count q d"
    using assms(3) by (simp add: word_less_nat_alt)
  have "unat (consumer_offset q) * 64 < 18446744073709551616" using assms(3) n by simp
  then have "unat (consumer_offset q * of_nat sizeof_Order) = unat (consumer_offset q) * sizeof_Order"
    by (simp add: sizeof_Order_value unat_word_ariths)
  then have "length (take sizeof_Order (drop (unat (consumer_offset q * of_nat sizeof_Order))
      (file_bytes (log_path q) d))) = sizeof_Order"
    using order_codec.holds_read [OF assms(1,3)] by simp
  then show ?thesis
    using lt assms(4) by (simp add: log_pop_def Let_def write_checkpoint_def fopen_write_def)
qed

lemma pop_skips_order_on_checkpoint_failure_sample:
  "log_pop (used_queue\<lparr>consumer_offset := 0\<rparr>, used_disk\<lparr>can_open := (\<lambda>_. False)\<rparr>) =
     (Threw (Cannot_write (offset_file ''x'' '''')), used_queue, used_disk\<lparr>can_open := (\<lambda>_. False)\<rparr>)"
proof -
  let ?q = "used_queue\<lparr>consumer_offset := 0\<rparr>" and ?d = "used_disk\<lparr>can_open := (\<lambda>_. False)\<rparr>"
  have b: "file_bytes (log_path ?q) ?d = file_bytes (log_path used_queue) used_disk"
    by (simp add: file_bytes_def)
  have "log_holds dec_order sizeof_Order [default_order] (file_bytes (log_path ?q) ?d)"
    and "length (file_bytes (log_path ?q) ?d) < 2 ^ 63"
    using used_inv used_orders b by (simp_all add: log_inv_def)
  from pop_skips_order_on_checkpoint_failure [OF this] show ?thesis
    by (simp add: used_queue_def)
qed

end
