(* ===== verification/TradeLog.thy ===== *)
theory TradeLog
  imports LogQueue
begin

text \<open>
  \<open>TradeLog\<close> and \<open>TradeLog::Subscriber\<close> of \<open>include/trade_log.hpp\<close>: one publisher appends trade
  records to a file, and any number of subscribers read it, each with its own position and
  checkpoint file.  A \<open>feed\<close> is a publisher with its subscribers on one disk; a schedule of
  \<open>publish\<close> and \<open>try_next\<close> calls in any order drives it.
\<close>

section \<open>State and operations\<close>

record TradeLog =
  tl_path :: string

record Subscriber =
  sub_log_path :: string
  sub_checkpoint_path :: string
  sub_offset :: u64

datatype next_result = Next Trade | No_trade | Next_threw queue_error

definition make_trade_log :: "string \<Rightarrow> fs \<Rightarrow> queue_error + (TradeLog \<times> fs)" where
  "make_trade_log base_path d =
     (let lp = base_path @ ''_trades.log''
      in case fopen_append lp d of
           None \<Rightarrow> Inl (Cannot_open lp)
         | Some d' \<Rightarrow> Inr (\<lparr>tl_path = lp\<rparr>, d'))"

definition publish :: "Trade \<Rightarrow> TradeLog \<Rightarrow> fs \<Rightarrow> fs" where
  "publish t l d = fwrite_end (tl_path l) (enc_trade t) d"

text \<open>The subscriber's two private functions have the text of those of the order queue.\<close>

definition sub_read_checkpoint :: "string \<Rightarrow> fs \<Rightarrow> u64" where
  "sub_read_checkpoint p d = read_checkpoint p d"

definition sub_write_checkpoint :: "string \<Rightarrow> u64 \<Rightarrow> fs \<Rightarrow> queue_error + fs" where
  "sub_write_checkpoint p offset d = write_checkpoint p offset d"

definition make_subscriber :: "string \<Rightarrow> string \<Rightarrow> fs \<Rightarrow> queue_error + (Subscriber \<times> fs)" where
  "make_subscriber base_path subscriber_id d =
     (let lp = base_path @ ''_trades.log'';
          cp = base_path @ ''_trades.'' @ subscriber_id @ ''.offset''
      in case fopen_append lp d of
           None \<Rightarrow> Inl (Cannot_open lp)
         | Some d' \<Rightarrow>
             Inr (\<lparr>sub_log_path = lp, sub_checkpoint_path = cp, sub_offset = sub_read_checkpoint cp d'\<rparr>, d'))"

definition try_next :: "Subscriber \<Rightarrow> fs \<Rightarrow> next_result \<times> Subscriber \<times> fs" where
  "try_next s d =
     (let bytes = file_bytes (sub_log_path s) d;
          available = (of_nat (length bytes) :: u64) div of_nat sizeof_Trade;
          off = sub_offset s
      in if off \<ge> available then (No_trade, s, d)
         else (case dec_trade (take sizeof_Trade (drop (unat (off * of_nat sizeof_Trade)) bytes)) of
                 None \<Rightarrow> (No_trade, s, d)
               | Some t \<Rightarrow>
                   (let s' = s\<lparr>sub_offset := off + 1\<rparr>
                    in case sub_write_checkpoint (sub_checkpoint_path s') (sub_offset s') d of
                         Inl err \<Rightarrow> (Next_threw err, s', d)
                       | Inr d' \<Rightarrow> (Next t, s', d'))))"

section \<open>A publisher and its subscribers\<close>

datatype feed_op = Publish Trade | Poll nat

record feed =
  topic :: TradeLog
  subs :: "Subscriber list"
  disk :: fs

text \<open>The trades published and, with the subscriber's number, the trades delivered.\<close>

fun run_feed :: "feed_op list \<Rightarrow> feed \<Rightarrow> Trade list \<times> (nat \<times> Trade) list \<times> feed" where
  "run_feed [] f = ([], [], f)"
| "run_feed (Publish t # ops) f =
     (case run_feed ops (f\<lparr>disk := publish t (topic f) (disk f)\<rparr>) of (ins, outs, f') \<Rightarrow> (t # ins, outs, f'))"
| "run_feed (Poll i # ops) f =
     (case try_next (subs f ! i) (disk f) of
        (r, s', d') \<Rightarrow>
          (case run_feed ops (f\<lparr>subs := (subs f)[i := s'], disk := d'\<rparr>) of
             (ins, outs, f') \<Rightarrow> (ins, (case r of Next t \<Rightarrow> (i, t) # outs | _ \<Rightarrow> outs), f')))"

fun published :: "feed_op list \<Rightarrow> Trade list" where
  "published [] = []"
| "published (Publish t # ops) = t # published ops"
| "published (Poll i # ops) = published ops"

definition feed_trades :: "feed \<Rightarrow> Trade list" where
  "feed_trades f =
     map (\<lambda>k. the (record_at dec_trade sizeof_Trade k (file_bytes (tl_path (topic f)) (disk f))))
       [0 ..< length (file_bytes (tl_path (topic f)) (disk f)) div sizeof_Trade]"

definition unread :: "nat \<Rightarrow> feed \<Rightarrow> Trade list" where
  "unread i f = drop (unat (sub_offset (subs f ! i))) (feed_trades f)"

definition sub_ok :: "feed \<Rightarrow> Subscriber \<Rightarrow> bool" where
  "sub_ok f s =
     (sub_log_path s = tl_path (topic f) \<and> sub_checkpoint_path s \<noteq> tl_path (topic f) \<and>
      unat (sub_offset s) \<le> length (feed_trades f) \<and> can_open (disk f) (sub_checkpoint_path s))"

definition feed_inv :: "feed \<Rightarrow> bool" where
  "feed_inv f =
     (log_holds dec_trade sizeof_Trade (feed_trades f) (file_bytes (tl_path (topic f)) (disk f)) \<and>
      list_all (sub_ok f) (subs f))"

definition feed_fits :: "nat \<Rightarrow> feed \<Rightarrow> bool" where
  "feed_fits n f = (length (file_bytes (tl_path (topic f)) (disk f)) + n * sizeof_Trade < 2 ^ 63)"

section \<open>Steps\<close>

lemma feed_trades_eq:
  "log_holds dec_trade sizeof_Trade ts (file_bytes (tl_path (topic f)) (disk f)) \<Longrightarrow> feed_trades f = ts"
proof -
  assume h: "log_holds dec_trade sizeof_Trade ts (file_bytes (tl_path (topic f)) (disk f))"
  then show ?thesis
    using trade_codec.holds_count [OF h]
    by (auto simp: feed_trades_def log_holds_def intro!: nth_equalityI)
qed

lemma publish_step:
  assumes "feed_inv f" and "feed_fits (Suc n) f"
    and f'_def: "f' = f\<lparr>disk := publish t (topic f) (disk f)\<rparr>"
  shows "feed_inv f' \<and> feed_fits n f' \<and> feed_trades f' = feed_trades f @ [t]"
proof -
  have b: "file_bytes (tl_path (topic f')) (disk f') =
      file_bytes (tl_path (topic f)) (disk f) @ enc_trade t"
    by (simp add: f'_def publish_def fwrite_end_def)
  have "log_holds dec_trade sizeof_Trade (feed_trades f) (file_bytes (tl_path (topic f)) (disk f))"
    using assms(1) by (simp add: feed_inv_def)
  then have h: "log_holds dec_trade sizeof_Trade (feed_trades f @ [t]) (file_bytes (tl_path (topic f')) (disk f'))"
    unfolding b by (rule trade_codec.holds_append) simp
  then have o: "feed_trades f' = feed_trades f @ [t]" by (rule feed_trades_eq)
  have "sub_ok f' s" if "sub_ok f s" for s
    using that o by (simp add: sub_ok_def f'_def publish_def fwrite_end_def)
  then have "list_all (sub_ok f') (subs f')"
    using assms(1) by (auto simp: feed_inv_def list_all_iff f'_def)
  then show ?thesis
    using h o assms(2) b length_enc_trade [of t] by (simp add: feed_inv_def feed_fits_def)
qed

text \<open>A poll delivers the subscriber's next unread trade, if there is one, and nothing else changes.\<close>

lemma poll_step:
  assumes inv: "feed_inv f" and fits: "feed_fits n f" and i: "i < length (subs f)"
    and step: "try_next (subs f ! i) (disk f) = (r, s', d')"
    and f'_def: "f' = f\<lparr>subs := (subs f)[i := s'], disk := d'\<rparr>"
  shows "feed_inv f' \<and> feed_fits n f' \<and> feed_trades f' = feed_trades f \<and>
         (\<forall>j. j \<noteq> i \<longrightarrow> subs f' ! j = subs f ! j) \<and>
         (case unread i f of
            [] \<Rightarrow> r = No_trade \<and> unread i f' = []
          | t # ts \<Rightarrow> r = Next t \<and> unread i f' = ts)"
proof -
  let ?s = "subs f ! i" and ?b = "file_bytes (tl_path (topic f)) (disk f)"
  have h: "log_holds dec_trade sizeof_Trade (feed_trades f) ?b" and s: "sub_ok f ?s"
    using inv i by (simp_all add: feed_inv_def list_all_length)
  have lb: "length ?b = length (feed_trades f) * sizeof_Trade" "length ?b < 18446744073709551616"
    using h fits by (simp_all add: log_holds_def feed_fits_def)
  have "unat (of_nat (length ?b) :: u64) = length ?b"
    using lb(2) by (simp add: unat_of_nat take_bit_nat_eq_self)
  then have avail: "unat ((of_nat (length ?b) :: u64) div of_nat sizeof_Trade) = length (feed_trades f)"
    using lb(1) by (simp add: unat_div_distrib sizeof_Trade_value)
  have path: "sub_log_path ?s = tl_path (topic f)" using s by (simp add: sub_ok_def)
  show ?thesis
  proof (cases "unat (sub_offset ?s) < length (feed_trades f)")
    case False
    then have e: "r = No_trade" "s' = ?s" "d' = disk f"
      using step avail path by (auto simp: try_next_def Let_def word_le_nat_alt)
    then have "f' = f" by (simp add: f'_def)
    then show ?thesis using False inv fits e by (simp add: unread_def)
  next
    case True
    let ?k = "unat (sub_offset ?s)"
    let ?c = "sub_checkpoint_path ?s"
    let ?d = "set_file ?c (enc_u64 (sub_offset ?s + 1)) (set_file ?c [] (disk f))"
    have "?k * 40 < 18446744073709551616" using True lb by (simp add: sizeof_Trade_value)
    then have "unat (sub_offset ?s * of_nat sizeof_Trade) = ?k * sizeof_Trade"
      by (simp add: sizeof_Trade_value unat_word_ariths)
    then have rd: "dec_trade (take sizeof_Trade (drop (unat (sub_offset ?s * of_nat sizeof_Trade)) ?b)) =
        Some (feed_trades f ! ?k)"
      using trade_codec.holds_read [OF h True] by simp
    have wr: "write_checkpoint ?c (sub_offset ?s + 1) (disk f) = Inr ?d"
      using read_write_checkpoint s by (simp add: sub_ok_def)
    have e: "r = Next (feed_trades f ! ?k)" "s' = ?s\<lparr>sub_offset := sub_offset ?s + 1\<rparr>" "d' = ?d"
      using step avail path True rd wr
      by (auto simp: try_next_def Let_def word_le_nat_alt sub_write_checkpoint_def)
    have ne: "tl_path (topic f) \<noteq> ?c" using s by (auto simp: sub_ok_def)
    have b: "file_bytes (tl_path (topic f')) (disk f') = ?b" using ne by (simp add: f'_def e)
    have o: "feed_trades f' = feed_trades f" using b by (simp add: feed_trades_def)
    have "?k + 1 < 18446744073709551616" using True lb by (simp add: sizeof_Trade_value)
    then have k: "unat (sub_offset ?s + 1) = Suc ?k" by (simp add: unat_u64_Suc)
    have "sub_ok f' x" if "sub_ok f x" for x
      using that o by (simp add: sub_ok_def f'_def e)
    moreover have "sub_ok f' s'" using s o k True by (simp add: sub_ok_def f'_def e)
    ultimately have "list_all (sub_ok f') (subs f')"
      using inv by (auto simp: feed_inv_def list_all_iff f'_def dest!: set_update_subset_insert [THEN subsetD])
    moreover have "unread i f = feed_trades f ! ?k # unread i f'"
      using True o i k by (simp add: unread_def f'_def e Cons_nth_drop_Suc)
    ultimately show ?thesis
      using h b o fits e by (simp add: feed_inv_def feed_fits_def) (simp add: f'_def)
  qed
qed

fun polls_ok :: "nat \<Rightarrow> feed_op list \<Rightarrow> bool" where
  "polls_ok n [] = True"
| "polls_ok n (Publish t # ops) = polls_ok n ops"
| "polls_ok n (Poll i # ops) = (i < n \<and> polls_ok n ops)"

definition delivered :: "nat \<Rightarrow> (nat \<times> Trade) list \<Rightarrow> Trade list" where
  "delivered i outs = map snd (filter (\<lambda>p. fst p = i) outs)"

lemma delivered_simps [simp]:
  "delivered i [] = []"
  "delivered i ((j, t) # outs) = (if j = i then t # delivered i outs else delivered i outs)"
  by (simp_all add: delivered_def)

lemma feed_run:
  "feed_inv f \<Longrightarrow> feed_fits (length (published ops)) f \<Longrightarrow> polls_ok (length (subs f)) ops \<Longrightarrow>
   run_feed ops f = (ins, outs, f') \<Longrightarrow>
     feed_inv f' \<and> ins = published ops \<and> feed_trades f' = feed_trades f @ ins \<and>
     (\<forall>i < length (subs f). unread i f @ ins = delivered i outs @ unread i f')"
proof (induction ops arbitrary: f ins outs f')
  case Nil
  then show ?case by simp
next
  case (Cons op ops)
  show ?case
  proof (cases op)
    case (Publish t)
    let ?f1 = "f\<lparr>disk := publish t (topic f) (disk f)\<rparr>"
    have s: "feed_inv ?f1" "feed_fits (length (published ops)) ?f1" "feed_trades ?f1 = feed_trades f @ [t]"
      using publish_step [OF Cons.prems(1) _ refl, of "length (published ops)" t] Cons.prems(2) Publish
      by simp_all
    have u: "unread i ?f1 = unread i f @ [t]" if "i < length (subs f)" for i
      using that Cons.prems(1) s(3) by (auto simp: unread_def feed_inv_def list_all_length sub_ok_def)
    obtain ins' where "run_feed ops ?f1 = (ins', outs, f')" "ins = t # ins'"
      using Cons.prems(4) Publish by (auto split: prod.splits)
    then show ?thesis using Cons.IH [OF s(1,2)] Cons.prems(3) Publish s(3) u by auto
  next
    case (Poll i)
    obtain r s' d' where tn: "try_next (subs f ! i) (disk f) = (r, s', d')" by (metis prod_cases3)
    let ?f1 = "f\<lparr>subs := (subs f)[i := s'], disk := d'\<rparr>"
    have i: "i < length (subs f)" and fits: "feed_fits (length (published ops)) f"
      using Cons.prems(2,3) Poll by simp_all
    note s = poll_step [OF Cons.prems(1) fits i tn refl]
    obtain outs' where rec: "run_feed ops ?f1 = (ins, outs', f')"
      and outs: "outs = (case r of Next t \<Rightarrow> (i, t) # outs' | _ \<Rightarrow> outs')"
      using Cons.prems(4) Poll tn by (auto split: prod.splits)
    have IH: "feed_inv f' \<and> ins = published ops \<and> feed_trades f' = feed_trades ?f1 @ ins \<and>
        (\<forall>j < length (subs f). unread j ?f1 @ ins = delivered j outs' @ unread j f')"
      using Cons.IH [OF _ _ _ rec] s Cons.prems(3) Poll by auto
    have "unread j f @ ins = delivered j outs @ unread j f'" if j: "j < length (subs f)" for j
    proof (cases "j = i")
      case True
      then show ?thesis using s IH j outs by (cases "unread i f") auto
    next
      case False
      then have "unread j ?f1 = unread j f" using s by (simp add: unread_def)
      then show ?thesis using False IH j outs by (cases r) auto
    qed
    then show ?thesis using IH s Poll by simp
  qed
qed

text \<open>
  C23: Every subscriber gets every trade: whatever the interleaving of publications and
  polls, what a subscriber had not read, followed by what is published meanwhile, is what it
  gets followed by what it has still to read, in the order of publication; the polls of the
  other subscribers do not matter.
\<close>

theorem subscribers_see_every_trade:
  assumes "feed_inv f" and "feed_fits (length (published ops)) f" and "polls_ok (length (subs f)) ops"
    and "run_feed ops f = (ins, outs, f')" and "i < length (subs f)"
  shows "ins = published ops \<and> unread i f @ ins = delivered i outs @ unread i f'"
  using feed_run [OF assms(1-4)] assms(5) by blast

definition sample_feed :: feed where
  "sample_feed =
     \<lparr>topic = \<lparr>tl_path = ''s_trades.log''\<rparr>,
      subs = [\<lparr>sub_log_path = ''s_trades.log'', sub_checkpoint_path = ''s_trades.a.offset'', sub_offset = 0\<rparr>,
              \<lparr>sub_log_path = ''s_trades.log'', sub_checkpoint_path = ''s_trades.b.offset'', sub_offset = 0\<rparr>],
      disk = \<lparr>files = [''s_trades.log'' \<mapsto> []], can_open = (\<lambda>_. True)\<rparr>\<rparr>"

definition sample_trade :: Trade where
  "sample_trade = \<lparr>buy_order_id = 2, sell_order_id = 1, t_price = F64 0x4059000000000000,
                   t_quantity = 3, t_timestamp = 3\<rparr>"

theorem subscribers_see_every_trade_witness:
  "\<exists>outs f'. run_feed [Publish sample_trade, Poll 1] sample_feed = ([sample_trade], outs, f') \<and>
     [sample_trade] = delivered 1 outs @ unread 1 f' \<and> [sample_trade] = delivered 0 outs @ unread 0 f'"
proof -
  let ?ops = "[Publish sample_trade, Poll 1]"
  obtain outs f' where r: "run_feed ?ops sample_feed = ([sample_trade], outs, f')"
    by (simp add: case_prod_beta)
  have t: "feed_trades sample_feed = []" by (simp add: feed_trades_def sample_feed_def file_bytes_def)
  have "sub_ok sample_feed s" if "s \<in> set (subs sample_feed)" for s
    unfolding sub_ok_def t using that by (auto simp: sample_feed_def)
  moreover have "file_bytes (tl_path (topic sample_feed)) (disk sample_feed) = []"
    by (simp add: sample_feed_def file_bytes_def)
  ultimately have inv: "feed_inv sample_feed"
    using t by (simp add: feed_inv_def list_all_iff log_holds_def)
  have ok: "feed_fits (length (published ?ops)) sample_feed" "polls_ok (length (subs sample_feed)) ?ops"
    by (simp_all add: feed_fits_def sample_feed_def file_bytes_def sizeof_Trade_value)
  have u: "unread i sample_feed = []" for i using t by (simp add: unread_def)
  have "length (subs sample_feed) = 2" by (simp add: sample_feed_def)
  then have "[sample_trade] = delivered i outs @ unread i f'" if "i < 2" for i
    using that subscribers_see_every_trade [OF inv ok r, of i] u [of i] by simp
  from this [of 1] this [of 0] r show ?thesis by simp
qed

section \<open>The subscriber process\<close>

text \<open>
  \<open>n\<close> rounds of the loop of \<open>src/trades_subscriber_main.cpp\<close>: the printed trades with the offset
  after each.  An exception ends the process.
\<close>

fun subscriber_loop ::
  "nat \<Rightarrow> Subscriber \<Rightarrow> fs \<Rightarrow> (Trade \<times> u64) list \<times> queue_error option \<times> Subscriber \<times> fs" where
  "subscriber_loop 0 s d = ([], None, s, d)"
| "subscriber_loop (Suc n) s d =
     (case try_next s d of
        (Next t, s', d') \<Rightarrow>
          (case subscriber_loop n s' d' of (out, r) \<Rightarrow> ((t, sub_offset s') # out, r))
      | (No_trade, s', d') \<Rightarrow> subscriber_loop n s' d'
      | (Next_threw err, s', d') \<Rightarrow> ([], Some err, s', d'))"

text \<open>Trades numbered by the offset after each.\<close>

fun numbered :: "u64 \<Rightarrow> Trade list \<Rightarrow> (Trade \<times> u64) list" where
  "numbered k [] = []"
| "numbered k (t # ts) = (t, k + 1) # numbered (k + 1) ts"

lemma try_next_offset: "try_next s d = (Next t, s', d') \<Longrightarrow> sub_offset s' = sub_offset s + 1"
  by (auto simp: try_next_def Let_def split: if_splits option.splits sum.splits)

lemma subscriber_loop_unread:
  "feed_inv f \<Longrightarrow> feed_fits 0 f \<Longrightarrow> subs f = [s] \<Longrightarrow> length (unread 0 f) \<le> n \<Longrightarrow>
     \<exists>s' d'. subscriber_loop n s (disk f) = (numbered (sub_offset s) (unread 0 f), None, s', d') \<and>
       sub_offset s' = sub_offset s + of_nat (length (unread 0 f))"
proof (induction n arbitrary: s f)
  case 0
  then show ?case by simp
next
  case (Suc n)
  obtain r s' d' where tn: "try_next s (disk f) = (r, s', d')" by (metis prod_cases3)
  let ?f = "f\<lparr>subs := [s'], disk := d'\<rparr>"
  have step: "feed_inv ?f" "feed_fits 0 ?f"
    "case unread 0 f of [] \<Rightarrow> r = No_trade \<and> unread 0 ?f = [] | t # ts \<Rightarrow> r = Next t \<and> unread 0 ?f = ts"
    using poll_step [OF Suc.prems(1,2), of 0 r s' d' ?f] tn Suc.prems(3) by simp_all
  note IH = Suc.IH [OF step(1,2), of s']
  show ?case
  proof (cases "unread 0 f")
    case Nil
    then have "r = No_trade" "unread 0 ?f = []" using step(3) by simp_all
    moreover have "sub_offset s' = sub_offset s"
      using tn \<open>r = No_trade\<close> by (auto simp: try_next_def Let_def split: if_splits option.splits sum.splits)
    ultimately show ?thesis using Nil tn IH by simp
  next
    case (Cons t ts)
    then have r: "r = Next t" "unread 0 ?f = ts" using step(3) by simp_all
    then obtain s2 d2 where "subscriber_loop n s' d' = (numbered (sub_offset s') ts, None, s2, d2)"
      "sub_offset s2 = sub_offset s' + of_nat (length ts)"
      using IH Cons Suc.prems(4) by auto
    then show ?thesis
      using r Cons tn try_next_offset [of s "disk f" t s' d'] by (simp add: add.assoc)
  qed
qed

text \<open>
  A subscriber process with an id that was never used prints the whole history of the topic:
  every trade in the log, from the first, with consecutive offsets from one on, within as many
  rounds as there are trades.
\<close>

lemma new_subscriber_replays_history:
  assumes "make_subscriber base sid d = Inr (s, d')"
    and "files d (base @ ''_trades.'' @ sid @ ''.offset'') = None"
    and "can_open d (base @ ''_trades.'' @ sid @ ''.offset'')"
    and "log_holds dec_trade sizeof_Trade ts (file_bytes (base @ ''_trades.log'') d)"
    and "length ts * sizeof_Trade < 2 ^ 63" and "length ts \<le> n"
  shows "sub_offset s = 0 \<and> (\<exists>s' d2. subscriber_loop n s d' = (numbered 0 ts, None, s', d2) \<and>
           sub_offset s' = of_nat (length ts))"
proof -
  let ?lp = "base @ ''_trades.log''" and ?cp = "base @ ''_trades.'' @ sid @ ''.offset''"
  let ?f = "\<lparr>topic = \<lparr>tl_path = ?lp\<rparr>, subs = [s], disk = d'\<rparr>"
  have ne: "?cp \<noteq> ?lp" using arg_cong [of ?cp ?lp last] by auto
  have d': "d' = set_file ?lp (file_bytes ?lp d) d"
    and s: "sub_log_path s = ?lp" "sub_checkpoint_path s = ?cp" "sub_offset s = read_checkpoint ?cp d'"
    using assms(1) by (auto simp: make_subscriber_def sub_read_checkpoint_def fopen_append_def Let_def
        split: option.splits if_splits)
  have z: "sub_offset s = 0"
    using assms(2) ne s(3) d' by (auto simp: read_checkpoint_def fopen_read_def files_set)
  have ts: "feed_trades ?f = ts" using assms(4) d' by (intro feed_trades_eq) simp
  have "feed_inv ?f" using assms(3,4) ts s z ne d' by (auto simp: feed_inv_def sub_ok_def)
  moreover have "feed_fits 0 ?f" using assms(4,5) d' by (simp add: feed_fits_def log_holds_def)
  moreover have "unread 0 ?f = ts" using ts z by (simp add: unread_def)
  ultimately show ?thesis using subscriber_loop_unread [of ?f s n] assms(6) z by auto
qed

definition traded_disk :: fs where
  "traded_disk = \<lparr>files = [''s_trades.log'' \<mapsto> enc_trade sample_trade], can_open = (\<lambda>_. True)\<rparr>"

lemma new_subscriber_replays_history_sample:
  "\<exists>s d'. make_subscriber ''s'' ''risk'' traded_disk = Inr (s, d') \<and>
     fst (subscriber_loop 4 s d') = [(sample_trade, 1)]"
proof -
  obtain s d' where m: "make_subscriber ''s'' ''risk'' traded_disk = Inr (s, d')"
    by (simp add: make_subscriber_def fopen_append_def traded_disk_def Let_def)
  have "log_holds dec_trade sizeof_Trade ([] @ [sample_trade]) ([] @ enc_trade sample_trade)"
    by (rule trade_codec.holds_append [OF trade_codec.holds_Nil]) simp
  then have h: "log_holds dec_trade sizeof_Trade [sample_trade] (file_bytes (''s'' @ ''_trades.log'') traded_disk)"
    by (simp add: traded_disk_def file_bytes_def)
  have "files traded_disk (''s'' @ ''_trades.'' @ ''risk'' @ ''.offset'') = None"
    "can_open traded_disk (''s'' @ ''_trades.'' @ ''risk'' @ ''.offset'')"
    by (simp_all add: traded_disk_def)
  from new_subscriber_replays_history [OF m this h, of 4]
  have "fst (subscriber_loop 4 s d') = numbered 0 [sample_trade]" by (auto simp: sizeof_Trade_value)
  with m show ?thesis by auto
qed

end
