(* ===== verification/Sharding.thy ===== *)
theory Sharding
  imports Orders
begin

text \<open>
  The shard of a symbol, \<open>include/sharding.hpp\<close>: FNV-1a over the bytes of the symbol in
  64-bit arithmetic, reduced by the number of shards.  With zero shards the remainder is
  undefined in C++, the value \<open>None\<close>.
\<close>

unbundle bit_operations_syntax

definition fnv_offset :: u64 where
  "fnv_offset = 14695981039346656037"

definition fnv_prime :: u64 where
  "fnv_prime = 1099511628211"

definition fnv_step :: "u64 \<Rightarrow> u8 \<Rightarrow> u64" where
  "fnv_step hash c = (hash XOR ucast c) * fnv_prime"

definition fnv1a :: "u8 list \<Rightarrow> u64" where
  "fnv1a s = foldl fnv_step fnv_offset s"

definition shard_for_symbol :: "u8 list \<Rightarrow> u32 \<Rightarrow> u32 option" where
  "shard_for_symbol s num_shards =
     (if num_shards = 0 then None else Some (ucast (fnv1a s mod ucast num_shards)))"

text \<open>
  With at least one shard every symbol has exactly one shard, it is below the number of
  shards, and its index is the hash reduced as a natural number: neither the widening of
  the shard count nor the narrowing of the remainder changes a value.
\<close>

lemma shard_in_range:
  assumes "num_shards \<noteq> 0"
  shows "\<exists>k. shard_for_symbol s num_shards = Some k \<and> k < num_shards \<and>
           unat k = unat (fnv1a s) mod unat num_shards"
proof -
  let ?r = "fnv1a s mod ucast num_shards"
  have b: "unat num_shards < 4294967296" using unsigned_less [of num_shards] by simp
  then have n: "unat (ucast num_shards :: u64) = unat num_shards"
    by (simp add: unsigned_ucast_eq take_bit_nat_eq_self)
  have pos: "0 < unat num_shards" using assms by (simp add: unat_gt_0)
  have r: "unat ?r = unat (fnv1a s) mod unat num_shards"
    using n by (simp add: unat_mod_distrib)
  then have "unat ?r < unat num_shards" using pos by simp
  then have k: "unat (ucast ?r :: u32) = unat ?r"
    using b by (simp add: unsigned_ucast_eq take_bit_nat_eq_self)
  then show ?thesis
    using assms pos r by (simp add: shard_for_symbol_def word_less_nat_alt)
qed

text \<open>
  The hash has the published values of 64-bit FNV-1a: the offset basis for the empty
  string, and the test vectors of \<open>a\<close> and \<open>foobar\<close>.
\<close>

lemma fnv1a_vectors:
  "fnv1a [] = 0xcbf29ce484222325 \<and> fnv1a [0x61] = 0xaf63dc4c8601ec8c \<and>
   fnv1a [0x66, 0x6f, 0x6f, 0x62, 0x61, 0x72] = 0x85944171f73967e8"
  by (simp add: fnv1a_def fnv_step_def fnv_offset_def fnv_prime_def)

end
