(* ===== verification/Decimal.thy ===== *)
theory Decimal
  imports Binary64
begin

text \<open>
  Numbers as text: \<open>std::to_string\<close> and stream output of unsigned integers, output of a double
  with two decimals (\<open>std::fixed << std::setprecision(2)\<close>), and \<open>std::atoi\<close>.  Printing and reading
  are related by round trips.
\<close>

section \<open>Unsigned integers\<close>

fun to_string_nat :: "nat \<Rightarrow> string" where
  "to_string_nat n =
     (if n < 10 then [char_of (48 + n)] else to_string_nat (n div 10) @ [char_of (48 + n mod 10)])"

declare to_string_nat.simps [simp del]

definition from_string_nat :: "string \<Rightarrow> nat" where
  "from_string_nat s = foldl (\<lambda>a c. 10 * a + (of_char c - 48)) 0 s"

definition is_digit :: "char \<Rightarrow> bool" where
  "is_digit c = (c \<in> set ''0123456789'')"

lemma digit_value: "n < 10 \<Longrightarrow> of_char (char_of (48 + n :: nat)) - (48 :: nat) = n"
  by (simp add: of_char_of)

lemma digit_char: "n < 10 \<Longrightarrow> is_digit (char_of (48 + n :: nat))"
proof -
  assume "n < 10"
  then have "n = 0 \<or> n = 1 \<or> n = 2 \<or> n = 3 \<or> n = 4 \<or> n = 5 \<or> n = 6 \<or> n = 7 \<or> n = 8 \<or> n = 9"
    by presburger
  then show ?thesis by (elim disjE) (simp_all add: is_digit_def char_of_def bit_Suc_0_iff)
qed

lemma from_to_string_nat: "from_string_nat (to_string_nat n) = n"
proof (induction n rule: to_string_nat.induct)
  case (1 n)
  show ?case
  proof (cases "n < 10")
    case True
    then show ?thesis by (subst to_string_nat.simps) (simp add: from_string_nat_def digit_value)
  next
    case False
    have "from_string_nat (to_string_nat n) = 10 * (n div 10) + n mod 10"
      using 1 [OF False] False digit_value [of "n mod 10"]
      by (subst to_string_nat.simps) (simp add: from_string_nat_def)
    then show ?thesis by simp
  qed
qed

lemma to_string_nat_inj: "to_string_nat m = to_string_nat n \<Longrightarrow> m = n"
  by (metis from_to_string_nat)

lemma to_string_digits: "c \<in> set (to_string_nat n) \<Longrightarrow> is_digit c"
proof (induction n rule: to_string_nat.induct)
  case (1 n)
  then show ?case
    using digit_char [of n] digit_char [of "n mod 10"]
    by (subst (asm) (2) to_string_nat.simps) (auto split: if_splits)
qed

lemma to_string_nonempty: "to_string_nat n \<noteq> []"
  by (subst to_string_nat.simps) simp

section \<open>Doubles with two decimals\<close>

text \<open>
  The exact value is rounded to hundredths, to the even one on a tie, as the C library does.
  A sign is printed for a negative pattern, that of minus zero included.
\<close>

definition hundredths :: "double \<Rightarrow> nat" where
  "hundredths x = rne (100 * sval (mag x)) (2 ^ 1074)"

definition fixed2 :: "double \<Rightarrow> string" where
  "fixed2 x =
     (if dneg x then ''-'' else []) @
     (if is_nan x then ''nan''
      else if is_inf x then ''inf''
      else to_string_nat (hundredths x div 100) @ ''.'' @
           [char_of (48 + hundredths x mod 100 div 10), char_of (48 + hundredths x mod 10)])"

lemma rne_bounds:
  assumes "0 < d"
  shows "2 * (rne n d * d) \<le> 2 * n + d" and "2 * n \<le> 2 * (rne n d * d) + d"
proof -
  define q r where "q = n div d" and "r = n mod d"
  have n: "n = q * d + r" and r: "r < d" using assms by (simp_all add: q_def r_def)
  have "rne n d = (if 2 * r < d then q else if d < 2 * r then q + 1 else if even q then q else q + 1)"
    by (simp add: rne_def Let_def q_def r_def)
  then show "2 * (rne n d * d) \<le> 2 * n + d" "2 * n \<le> 2 * (rne n d * d) + d"
    using r unfolding n by (auto simp: algebra_simps)
qed

text \<open>The printed value is within half a hundredth of the price.\<close>

lemma hundredths_accurate:
  "2 * (hundredths x * 2 ^ 1074) \<le> 2 * (100 * sval (mag x)) + 2 ^ 1074"
  "2 * (100 * sval (mag x)) \<le> 2 * (hundredths x * 2 ^ 1074) + 2 ^ 1074"
  unfolding hundredths_def by (rule rne_bounds, simp)+

text \<open>No delimiter of the book's listing occurs in a printed price.\<close>

lemma fixed2_chars:
  assumes "c \<in> set (fixed2 x)"
  shows "is_digit c \<or> c \<in> set ''-.naif''"
  using assms to_string_digits digit_char [of "hundredths x mod 100 div 10"] digit_char [of "hundredths x mod 10"]
  by (auto simp: fixed2_def less_mult_imp_div_less split: if_splits)

section \<open>Reading an integer\<close>

text \<open>
  \<open>std::atoi\<close>: blanks, a sign, then the longest run of digits, zero if there is none.  The
  result must be an \<open>int\<close>; outside its range the behaviour is undefined, which is \<open>None\<close>.
\<close>

definition is_space :: "char \<Rightarrow> bool" where
  "is_space c = (c \<in> set [CHR '' '', CHR 0x09, CHR 0x0A, CHR 0x0B, CHR 0x0C, CHR 0x0D])"

definition atoi :: "string \<Rightarrow> int option" where
  "atoi s =
     (let s1 = dropWhile is_space s;
          neg = (s1 \<noteq> [] \<and> hd s1 = CHR ''-'');
          s2 = (if s1 \<noteq> [] \<and> (hd s1 = CHR ''-'' \<or> hd s1 = CHR ''+'') then tl s1 else s1);
          v = int (from_string_nat (takeWhile is_digit s2));
          r = (if neg then - v else v)
      in if - (2 ^ 31) \<le> r \<and> r < 2 ^ 31 then Some r else None)"

lemma takeWhile_digits: "takeWhile is_digit (to_string_nat n) = to_string_nat n"
  using to_string_digits by (simp add: takeWhile_eq_all_conv)

lemma digit_no_sign:
  assumes "is_digit c"
  shows "\<not> is_space c" and "c \<noteq> CHR ''-''" and "c \<noteq> CHR ''+''"
  using assms by (auto simp: is_digit_def is_space_def)

lemma atoi_to_string: "n < 2 ^ 31 \<Longrightarrow> atoi (to_string_nat n) = Some (int n)"
proof -
  assume n: "n < 2 ^ 31"
  obtain c cs where s: "to_string_nat n = c # cs" using to_string_nonempty by (cases "to_string_nat n") auto
  then have "is_digit c" using to_string_digits [of c n] by simp
  then have "dropWhile is_space (to_string_nat n) = to_string_nat n"
    "hd (to_string_nat n) \<noteq> CHR ''-''" "hd (to_string_nat n) \<noteq> CHR ''+''"
    using s digit_no_sign by simp_all
  then show ?thesis using n by (simp add: atoi_def Let_def takeWhile_digits from_to_string_nat)
qed

text \<open>An argument that does not start with a number reads as zero.\<close>

lemma atoi_no_number: "\<not> is_space c \<Longrightarrow> \<not> is_digit c \<Longrightarrow> c \<noteq> CHR ''-'' \<Longrightarrow> c \<noteq> CHR ''+'' \<Longrightarrow> atoi (c # cs) = Some 0"
  by (simp add: atoi_def Let_def from_string_nat_def)

end
