(* ===== verification/ShardRouter.thy ===== *)
theory ShardRouter
  imports LogQueue Sharding Decimal
begin

text \<open>
  \<open>ShardRouterQueue\<close> of \<open>include/shard_router_queue.hpp\<close>, the queue of a gateway: one
  log-backed queue per shard, and a \<open>push\<close> that appends the order to the log of the shard that
  owns its symbol.  \<open>pop\<close> throws and \<open>shutdown\<close> does nothing.
\<close>

section \<open>State and operations\<close>

record ShardRouterQueue =
  num_shards :: u32
  shards :: "LogBackedOrderQueue list"

definition shard_base :: "string \<Rightarrow> nat \<Rightarrow> string" where
  "shard_base base_path i = base_path @ ''_shard'' @ to_string_nat i"

text \<open>The constructor's loop over the shards, from shard \<open>i\<close> on.\<close>

fun make_shards :: "string \<Rightarrow> nat \<Rightarrow> nat \<Rightarrow> fs \<Rightarrow> queue_error + (LogBackedOrderQueue list \<times> fs)" where
  "make_shards base_path i 0 d = Inr ([], d)"
| "make_shards base_path i (Suc n) d =
     (case make_log_queue (shard_base base_path i) [] d of
        Inl err \<Rightarrow> Inl err
      | Inr (q, d') \<Rightarrow>
          (case make_shards base_path (Suc i) n d' of
             Inl err \<Rightarrow> Inl err
           | Inr (qs, d'') \<Rightarrow> Inr (q # qs, d'')))"

definition make_router :: "string \<Rightarrow> u32 \<Rightarrow> fs \<Rightarrow> queue_error + (ShardRouterQueue \<times> fs)" where
  "make_router base_path n d =
     (case make_shards base_path 0 (unat n) d of
        Inl err \<Rightarrow> Inl err
      | Inr (qs, d') \<Rightarrow> Inr (\<lparr>num_shards = n, shards = qs\<rparr>, d'))"

definition router_push ::
  "48 word \<Rightarrow> Order \<Rightarrow> ShardRouterQueue \<times> fs \<Rightarrow> (ShardRouterQueue \<times> fs) option" where
  "router_push pad x = (\<lambda>(r, d).
     case shard_for_symbol (symbol_str x) (num_shards r) of
       None \<Rightarrow> None
     | Some shard \<Rightarrow>
         (case log_push pad x (shards r ! unat shard, d) of
            None \<Rightarrow> None
          | Some (q, d') \<Rightarrow> Some (r\<lparr>shards := (shards r)[unat shard := q]\<rparr>, d')))"

definition router_pop :: "ShardRouterQueue \<times> fs \<Rightarrow> pop_result \<times> ShardRouterQueue \<times> fs" where
  "router_pop st = (Threw Not_a_consumer, st)"

definition router_shutdown :: "ShardRouterQueue \<times> fs \<Rightarrow> ShardRouterQueue \<times> fs" where
  "router_shutdown st = st"

section \<open>Construction\<close>

lemma make_shards_paths:
  "make_shards base i n d = Inr (qs, d') \<Longrightarrow>
     length qs = n \<and> (\<forall>k < n. log_path (qs ! k) = log_file (shard_base base (i + k)))"
proof (induction n arbitrary: i d qs d')
  case 0
  then show ?case by simp
next
  case (Suc n)
  obtain q d1 qs' where q: "make_log_queue (shard_base base i) [] d = Inr (q, d1)"
    and rec: "make_shards base (Suc i) n d1 = Inr (qs', d')" and qs: "qs = q # qs'"
    using Suc.prems by (auto split: sum.splits prod.splits)
  have "log_path q = log_file (shard_base base i)"
    using make_log_queue_opened [OF q] by (simp add: opened_def)
  with Suc.IH [OF rec] qs show ?case by (auto simp: nth_Cons split: nat.split)
qed

text \<open>A router on base path \<open>base\<close>, as its constructor leaves it and its pushes keep it.\<close>

definition router_ok :: "string \<Rightarrow> u32 \<Rightarrow> ShardRouterQueue \<Rightarrow> bool" where
  "router_ok base n r =
     (num_shards r = n \<and> length (shards r) = unat n \<and>
      (\<forall>k < unat n. log_path (shards r ! k) = log_file (shard_base base k)))"

lemma make_router_ok: "make_router base n d = Inr (r, d') \<Longrightarrow> router_ok base n r"
  using make_shards_paths [of base 0 "unat n" d]
  by (auto simp: make_router_def router_ok_def split: sum.splits prod.splits)

lemma shard_files_distinct:
  "log_file (shard_base base i) = log_file (shard_base base j) \<Longrightarrow> i = j"
  by (simp add: log_file_def shard_base_def to_string_nat_inj)

section \<open>Routing\<close>

definition shard_of :: "u32 \<Rightarrow> Order \<Rightarrow> nat" where
  "shard_of n x = (case shard_for_symbol (symbol_str x) n of None \<Rightarrow> 0 | Some k \<Rightarrow> unat k)"

lemma shard_of_less: "n \<noteq> 0 \<Longrightarrow> shard_of n x < unat n"
  using shard_in_range [of n "symbol_str x"] by (auto simp: shard_of_def word_less_nat_alt)

lemma router_push_step:
  assumes "router_ok base n r" and "n \<noteq> 0"
  shows "\<exists>r'. router_push pad x (r, d) =
             Some (r', fwrite_end (log_file (shard_base base (shard_of n x))) (enc_order pad x) d) \<and>
           router_ok base n r'"
proof -
  let ?k = "shard_of n x"
  have k: "?k < unat n" using shard_of_less [OF assms(2)] .
  obtain s where s: "shard_for_symbol (symbol_str x) n = Some s" "unat s = ?k"
    using assms(2) by (simp add: shard_of_def shard_for_symbol_def)
  have "router_push pad x (r, d) =
      Some (r\<lparr>shards := (shards r)[?k := shards r ! ?k]\<rparr>,
            fwrite_end (log_file (shard_base base ?k)) (enc_order pad x) d)"
    using assms(1) k s by (simp add: router_push_def router_ok_def log_push_def)
  then show ?thesis using assms(1) by simp
qed

definition shard_holds :: "string \<Rightarrow> nat \<Rightarrow> Order list \<Rightarrow> fs \<Rightarrow> bool" where
  "shard_holds base k xs d =
     log_holds dec_order sizeof_Order xs (file_bytes (log_file (shard_base base k)) d)"

lemma router_push_all:
  assumes "n \<noteq> 0"
  shows "router_ok base n r \<Longrightarrow> list_all order_wf xs \<Longrightarrow> (\<And>k. k < unat n \<Longrightarrow> shard_holds base k (ys k) d) \<Longrightarrow>
     \<exists>r' d'. push_all (router_push pad) xs (r, d) = Some (r', d') \<and>
       (\<forall>k < unat n. shard_holds base k (ys k @ filter (\<lambda>x. shard_of n x = k) xs) d')"
proof (induction xs arbitrary: r d ys)
  case Nil
  then show ?case by simp
next
  case (Cons x xs)
  let ?j = "shard_of n x"
  let ?d = "fwrite_end (log_file (shard_base base ?j)) (enc_order pad x) d"
  obtain r1 where r1: "router_push pad x (r, d) = Some (r1, ?d)" "router_ok base n r1"
    using router_push_step [OF Cons.prems(1) assms] by blast
  have "shard_holds base k ((ys(?j := ys ?j @ [x])) k) ?d" if "k < unat n" for k
  proof (cases "k = ?j")
    case True
    then show ?thesis
      using Cons.prems(2,3) that order_codec.holds_append
      by (simp add: shard_holds_def fwrite_end_def)
  next
    case False
    then have "log_file (shard_base base k) \<noteq> log_file (shard_base base ?j)"
      using shard_files_distinct by blast
    then show ?thesis using False Cons.prems(3) [OF that] by (simp add: shard_holds_def fwrite_end_def)
  qed
  from Cons.IH [OF r1(2) _ this] Cons.prems(2) obtain r' d' where
    rec: "push_all (router_push pad) xs (r1, ?d) = Some (r', d')" and
    h: "\<forall>k < unat n. shard_holds base k ((ys(?j := ys ?j @ [x])) k @ filter (\<lambda>x. shard_of n x = k) xs) d'"
    by auto
  have "shard_holds base k (ys k @ filter (\<lambda>x. shard_of n x = k) (x # xs)) d'" if "k < unat n" for k
    using h [rule_format, OF that] by (cases "k = ?j") auto
  then show ?case using r1(1) rec by auto
qed

text \<open>
  With at least one shard, every push of a gateway succeeds, and each shard's log ends
  up with what it held before, followed by exactly the orders whose symbol hashes to that
  shard, in the order in which they were pushed: no order goes to two shards or to none.
\<close>

lemma router_partitions_orders:
  assumes "make_router base n d0 = Inr (r, d)" and "n \<noteq> 0" and "list_all order_wf xs"
    and "\<forall>k < unat n. shard_holds base k (ys k) d"
  shows "\<exists>r' d'. push_all (router_push pad) xs (r, d) = Some (r', d') \<and>
           (\<forall>k < unat n. shard_holds base k (ys k @ filter (\<lambda>x. shard_of n x = k) xs) d')"
  using router_push_all [OF assms(2) make_router_ok [OF assms(1)] assms(3)] assms(4) by blast

lemma make_shards_total:
  "(\<And>p. can_open d p) \<Longrightarrow>
     \<exists>qs d'. make_shards base i n d = Inr (qs, d') \<and> (\<forall>p. can_open d' p \<and> file_bytes p d' = file_bytes p d)"
proof (induction n arbitrary: i d)
  case 0
  then show ?case by simp
next
  case (Suc n)
  let ?lp = "shard_base base i @ ''.log''"
  let ?d = "set_file ?lp (file_bytes ?lp d) d"
  obtain q where "make_log_queue (shard_base base i) [] d = Inr (q, ?d)"
    using Suc.prems by (auto simp: make_log_queue_def fopen_append_def Let_def)
  moreover obtain qs d' where "make_shards base (Suc i) n ?d = Inr (qs, d')"
    "\<forall>p. can_open d' p \<and> file_bytes p d' = file_bytes p ?d"
    using Suc.IH [of ?d "Suc i"] Suc.prems by auto
  ultimately show ?case by auto
qed

lemma router_partitions_orders_sample:
  "\<exists>r d r' d'. make_router ''g'' 4 empty_disk = Inr (r, d) \<and>
     push_all (router_push 0) [default_order, default_order] (r, d) = Some (r', d') \<and>
     shard_holds ''g'' (shard_of 4 default_order) [default_order, default_order] d'"
proof -
  obtain qs d where m: "make_shards ''g'' 0 4 empty_disk = Inr (qs, d)"
    and b: "\<forall>p. file_bytes p d = file_bytes p empty_disk"
    using make_shards_total [of empty_disk "''g''" 0 4] by (auto simp: empty_disk_def)
  then obtain r where r: "make_router ''g'' 4 empty_disk = Inr (r, d)"
    by (simp add: make_router_def)
  have "\<forall>k < unat (4 :: u32). shard_holds ''g'' k [] d"
    using b by (simp add: shard_holds_def log_holds_def file_bytes_def empty_disk_def)
  then obtain r' d' where p: "push_all (router_push 0) [default_order, default_order] (r, d) = Some (r', d')"
    and h: "\<forall>k < unat (4 :: u32). shard_holds ''g'' k
        ([] @ filter (\<lambda>x. shard_of 4 x = k) [default_order, default_order]) d'"
    using router_partitions_orders [OF r, of "[default_order, default_order]" "\<lambda>_. []" 0] default_order_wf
    by auto
  have "shard_holds ''g'' (shard_of 4 default_order) [default_order, default_order] d'"
    using h [rule_format, OF shard_of_less [of 4 default_order]] by simp
  with r p show ?thesis by blast
qed

end
