(* ===== verification/LeaderLock.thy ===== *)
theory LeaderLock
  imports Main
begin

text \<open>
  \<open>ShardLeaderLock\<close> of \<open>include/shard_leader_lock.hpp\<close> and the replicas of one shard that compete
  for it.  The operating system's part is \<open>flock\<close> with \<open>LOCK_EX | LOCK_NB\<close>: the lock of the file
  belongs to at most one open file description, a call succeeds when it is free or already the
  caller's, and closing the description, which the death of its process does, frees it.  A
  descriptor is a number, \<open>None\<close> when \<open>open\<close> failed.
\<close>

section \<open>State and operations\<close>

record ShardLeaderLock =
  ll_fd :: "nat option"
  ll_held :: bool

definition make_leader_lock :: "nat option \<Rightarrow> ShardLeaderLock" where
  "make_leader_lock fd = \<lparr>ll_fd = fd, ll_held = False\<rparr>"

definition flock_nb :: "nat \<Rightarrow> nat option \<Rightarrow> bool \<times> nat option" where
  "flock_nb fd owner = (if owner = None \<or> owner = Some fd then (True, Some fd) else (False, owner))"

definition close_fd :: "nat \<Rightarrow> nat option \<Rightarrow> nat option" where
  "close_fd fd owner = (if owner = Some fd then None else owner)"

definition try_acquire :: "ShardLeaderLock \<Rightarrow> nat option \<Rightarrow> bool \<times> ShardLeaderLock \<times> nat option" where
  "try_acquire l owner =
     (if ll_held l then (True, l, owner)
      else case ll_fd l of
             None \<Rightarrow> (False, l, owner)
           | Some fd \<Rightarrow>
               (case flock_nb fd owner of
                  (ok, owner') \<Rightarrow>
                    (let l' = (if ok then l\<lparr>ll_held := True\<rparr> else l) in (ll_held l', l', owner'))))"

definition destroy_leader_lock :: "ShardLeaderLock \<Rightarrow> nat option \<Rightarrow> nat option" where
  "destroy_leader_lock l owner = (case ll_fd l of None \<Rightarrow> owner | Some fd \<Rightarrow> close_fd fd owner)"

section \<open>Replicas\<close>

text \<open>
  The live replicas of a shard, each with its lock object, and the owner of the file's lock.
  A replica starts with a descriptor no live replica has, tries, and ends or is killed.
\<close>

record shard_world =
  replicas :: "nat \<rightharpoonup> ShardLeaderLock"
  lock_owner :: "nat option"

datatype replica_event = Start nat "nat option" | Try nat | Die nat

definition fresh_fd :: "nat option \<Rightarrow> shard_world \<Rightarrow> bool" where
  "fresh_fd fd w = (fd = None \<or> (\<forall>l \<in> ran (replicas w). ll_fd l \<noteq> fd))"

fun replica_step :: "replica_event \<Rightarrow> shard_world \<Rightarrow> shard_world" where
  "replica_step (Start i fd) w = w\<lparr>replicas := (replicas w)(i \<mapsto> make_leader_lock fd)\<rparr>"
| "replica_step (Try i) w =
     (case replicas w i of
        None \<Rightarrow> w
      | Some l \<Rightarrow> (case try_acquire l (lock_owner w) of
          (_, l', owner) \<Rightarrow> \<lparr>replicas = (replicas w)(i \<mapsto> l'), lock_owner = owner\<rparr>))"
| "replica_step (Die i) w =
     (case replicas w i of
        None \<Rightarrow> w
      | Some l \<Rightarrow> \<lparr>replicas = (replicas w)(i := None), lock_owner = destroy_leader_lock l (lock_owner w)\<rparr>)"

inductive shard_reachable :: "shard_world \<Rightarrow> bool" where
  init: "shard_reachable \<lparr>replicas = Map.empty, lock_owner = None\<rparr>"
| start: "shard_reachable w \<Longrightarrow> replicas w i = None \<Longrightarrow> fresh_fd fd w \<Longrightarrow>
    shard_reachable (replica_step (Start i fd) w)"
| attempt: "shard_reachable w \<Longrightarrow> shard_reachable (replica_step (Try i) w)"
| die: "shard_reachable w \<Longrightarrow> shard_reachable (replica_step (Die i) w)"

definition held_inv :: "shard_world \<Rightarrow> bool" where
  "held_inv w = (\<forall>i l. replicas w i = Some l \<longrightarrow> ll_held l = (ll_fd l \<noteq> None \<and> ll_fd l = lock_owner w))"

definition fds_inv :: "shard_world \<Rightarrow> bool" where
  "fds_inv w = (\<forall>i j l m. replicas w i = Some l \<longrightarrow> replicas w j = Some m \<longrightarrow> ll_fd l \<noteq> None \<longrightarrow>
     ll_fd l = ll_fd m \<longrightarrow> i = j)"

definition owner_inv :: "shard_world \<Rightarrow> bool" where
  "owner_inv w = (\<forall>fd. lock_owner w = Some fd \<longrightarrow> (\<exists>i l. replicas w i = Some l \<and> ll_fd l = Some fd))"

definition lock_inv :: "shard_world \<Rightarrow> bool" where
  "lock_inv w = (held_inv w \<and> fds_inv w \<and> owner_inv w)"

lemma lock_inv_start:
  assumes "lock_inv w" and "replicas w i = None" and "fresh_fd fd w"
  shows "lock_inv (replica_step (Start i fd) w)"
proof -
  let ?w = "replica_step (Start i fd) w"
  have fresh: "ll_fd l \<noteq> Some f" if "replicas w j = Some l" "fd = Some f" for j l f
    using that assms(3) by (auto simp: fresh_fd_def ran_def)
  have owner: "lock_owner w \<noteq> Some f" if "fd = Some f" for f
    using assms(1) that fresh by (auto simp: lock_inv_def owner_inv_def)
  have "held_inv ?w"
    using assms(1) owner by (cases fd) (auto simp: lock_inv_def held_inv_def make_leader_lock_def)
  moreover have "fds_inv ?w"
    using assms(1) fresh
    by (cases fd) (auto simp: lock_inv_def fds_inv_def make_leader_lock_def split: if_splits, metis+)
  moreover have "owner_inv ?w"
    using assms(1,2) by (simp add: lock_inv_def owner_inv_def) (metis option.distinct(1))
  ultimately show ?thesis by (simp add: lock_inv_def)
qed

lemma lock_inv_acquired:
  assumes "lock_inv w" and l: "replicas w i = Some l" "ll_fd l = Some fd" and none: "lock_owner w = None"
  shows "lock_inv \<lparr>replicas = (replicas w)(i \<mapsto> l\<lparr>ll_held := True\<rparr>), lock_owner = Some fd\<rparr>"
proof -
  have other: "ll_fd m \<noteq> Some fd" if "replicas w j = Some m" "j \<noteq> i" for j m
    using assms(1) that l unfolding lock_inv_def fds_inv_def by (metis option.distinct(1))
  have "held_inv \<lparr>replicas = (replicas w)(i \<mapsto> l\<lparr>ll_held := True\<rparr>), lock_owner = Some fd\<rparr>"
    using assms(1) other l none by (auto simp: lock_inv_def held_inv_def)
  moreover have "fds_inv \<lparr>replicas = (replicas w)(i \<mapsto> l\<lparr>ll_held := True\<rparr>), lock_owner = Some fd\<rparr>"
    using assms(1) other l by (simp add: lock_inv_def fds_inv_def) (metis option.sel)
  ultimately show ?thesis using l by (auto simp: lock_inv_def owner_inv_def)
qed

lemma lock_inv_try: "lock_inv w \<Longrightarrow> lock_inv (replica_step (Try i) w)"
proof (cases "replicas w i")
  case None
  assume "lock_inv w"
  with None show ?thesis by simp
next
  case (Some l)
  assume inv: "lock_inv w"
  show ?thesis
  proof (cases "ll_held l \<or> ll_fd l = None \<or> lock_owner w \<noteq> None \<and> lock_owner w \<noteq> ll_fd l")
    case True
    then have "try_acquire l (lock_owner w) = (ll_held l, l, lock_owner w)"
      by (auto simp: try_acquire_def flock_nb_def split: option.split)
    then have "replica_step (Try i) w = w" using Some by (simp add: map_upd_triv)
    with inv show ?thesis by simp
  next
    case False
    then obtain fd where fd: "ll_fd l = Some fd" "\<not> ll_held l" by auto
    have none: "lock_owner w = None" using False fd Some inv by (auto simp: lock_inv_def held_inv_def)
    have "replica_step (Try i) w =
        \<lparr>replicas = (replicas w)(i \<mapsto> l\<lparr>ll_held := True\<rparr>), lock_owner = Some fd\<rparr>"
      using Some fd none by (simp add: try_acquire_def flock_nb_def)
    then show ?thesis using lock_inv_acquired [OF inv Some fd(1) none] by simp
  qed
qed

lemma lock_inv_die: "lock_inv w \<Longrightarrow> lock_inv (replica_step (Die i) w)"
proof (cases "replicas w i")
  case None
  assume "lock_inv w"
  with None show ?thesis by simp
next
  case (Some l)
  assume inv: "lock_inv w"
  let ?w = "replica_step (Die i) w"
  have w: "replicas ?w = (replicas w)(i := None)"
    "lock_owner ?w = (if ll_fd l \<noteq> None \<and> lock_owner w = ll_fd l then None else lock_owner w)"
    using Some by (auto simp: destroy_leader_lock_def close_fd_def split: option.split)
  have other: "ll_fd m \<noteq> ll_fd l" if "replicas w j = Some m" "j \<noteq> i" "ll_fd l \<noteq> None" for j m
    using inv that Some unfolding lock_inv_def fds_inv_def by metis
  have "held_inv ?w" using inv other unfolding lock_inv_def held_inv_def w by auto
  moreover have "fds_inv ?w" using inv unfolding lock_inv_def fds_inv_def w by (auto split: if_splits)
  moreover have "owner_inv ?w"
    unfolding owner_inv_def
  proof (intro allI impI)
    fix fd
    assume "lock_owner ?w = Some fd"
    then have o: "lock_owner w = Some fd" "ll_fd l \<noteq> Some fd"
      unfolding w by (auto split: if_splits)
    then obtain j m where "replicas w j = Some m" "ll_fd m = Some fd"
      using inv by (auto simp: lock_inv_def owner_inv_def)
    moreover from this o Some have "j \<noteq> i" by auto
    ultimately show "\<exists>i l. replicas ?w i = Some l \<and> ll_fd l = Some fd" unfolding w by auto
  qed
  ultimately show ?thesis by (simp add: lock_inv_def)
qed

lemma lock_inv_reachable: "shard_reachable w \<Longrightarrow> lock_inv w"
proof (induction rule: shard_reachable.induct)
  case init
  then show ?case by (simp add: lock_inv_def held_inv_def fds_inv_def owner_inv_def)
qed (simp_all only: lock_inv_start lock_inv_try lock_inv_die)

text \<open>
  At any time at most one live replica of a shard believes it is the leader, and it is the one
  that owns the file's lock.
\<close>

lemma lock_holder_unique:
  assumes "lock_inv w" and "replicas w i = Some l" and "replicas w j = Some m"
    and "ll_held l" and "ll_held m"
  shows "i = j \<and> ll_fd l = lock_owner w"
  using assms unfolding lock_inv_def held_inv_def fds_inv_def by metis

definition two_replicas :: shard_world where
  "two_replicas = replica_step (Try 0) (replica_step (Start 1 (Some 8)) (replica_step (Start 0 (Some 7))
     \<lparr>replicas = Map.empty, lock_owner = None\<rparr>))"

lemma two_replicas_reachable: "shard_reachable two_replicas"
  unfolding two_replicas_def
  by (intro shard_reachable.attempt shard_reachable.start shard_reachable.init)
    (simp_all add: fresh_fd_def make_leader_lock_def)

text \<open>
  When the leader dies, however it dies, the lock is free, and the next live replica
  with an open descriptor that tries becomes the leader.
\<close>

lemma failover:
  assumes "shard_reachable w" and "replicas w i = Some l" and "ll_held l"
    and "replicas w j = Some m" and "j \<noteq> i" and "ll_fd m \<noteq> None"
  shows "\<exists>m'. replicas (replica_step (Try j) (replica_step (Die i) w)) j = Some m' \<and> ll_held m'"
proof -
  have inv: "lock_inv w" using lock_inv_reachable [OF assms(1)] .
  then have "ll_fd l = lock_owner w" "ll_fd l \<noteq> None" using assms(2,3) unfolding lock_inv_def held_inv_def by metis+
  then have "lock_owner (replica_step (Die i) w) = None"
    using assms(2) by (auto simp: destroy_leader_lock_def close_fd_def)
  moreover have "replicas (replica_step (Die i) w) j = Some m" using assms(2,4,5) by simp
  moreover obtain fd where "ll_fd m = Some fd" using assms(6) by auto
  ultimately show ?thesis
    by (cases "ll_held m") (auto simp: try_acquire_def flock_nb_def)
qed

lemma failover_sample:
  "\<exists>m'. replicas (replica_step (Try 1) (replica_step (Die 0) two_replicas)) 1 = Some m' \<and> ll_held m'"
proof -
  have "replicas two_replicas 0 = Some \<lparr>ll_fd = Some 7, ll_held = True\<rparr>"
    "replicas two_replicas 1 = Some \<lparr>ll_fd = Some 8, ll_held = False\<rparr>"
    by (simp_all add: two_replicas_def make_leader_lock_def try_acquire_def flock_nb_def)
  then obtain l m where "replicas two_replicas 0 = Some l" "ll_held l" "replicas two_replicas 1 = Some m"
    "ll_fd m \<noteq> None" by auto
  then show ?thesis using failover [OF two_replicas_reachable] by simp
qed

end
