(* ===== verification/MutexQueue.thy ===== *)
theory MutexQueue
  imports OrderQueue
begin

text \<open>
  \<open>MutexOrderQueue\<close> of \<open>include/mutex_order_queue.hpp\<close>, twice.  First each call as a whole,
  for the contract of the interface.  Then the interleaving of one consumer, any number of
  producers and one thread that shuts the queue down, in the steps in which the code
  synchronises: a critical section under \<open>mu_\<close> is one step, the notification after it
  another, the predicate of \<open>cv_.wait\<close> is evaluated under the lock, and blocking releases the
  lock in a step of its own.  \<open>shutdown\<close> does not take the lock.
\<close>

section \<open>Calls\<close>

record MutexOrderQueue =
  mq_queue :: "Order list"
  mq_done :: bool

definition mutex_queue :: MutexOrderQueue where
  "mutex_queue = \<lparr>mq_queue = [], mq_done = False\<rparr>"

definition mutex_push :: "Order \<Rightarrow> MutexOrderQueue \<Rightarrow> MutexOrderQueue option" where
  "mutex_push x q = Some (q\<lparr>mq_queue := mq_queue q @ [x]\<rparr>)"

definition mutex_pop :: "MutexOrderQueue \<Rightarrow> pop_result \<times> MutexOrderQueue" where
  "mutex_pop q =
     (if mq_queue q \<noteq> [] \<or> mq_done q
      then (case mq_queue q of
              [] \<Rightarrow> (Drained, q)
            | x # xs \<Rightarrow> (Popped x, q\<lparr>mq_queue := xs\<rparr>))
      else (Waiting, q))"

definition mutex_shutdown :: "MutexOrderQueue \<Rightarrow> MutexOrderQueue" where
  "mutex_shutdown q = q\<lparr>mq_done := True\<rparr>"

interpretation mutex: total_queue "\<lambda>_. True" "\<lambda>_. True" "\<lambda>_ _. True" mq_queue mq_done mutex_push mutex_pop mutex_shutdown
  by unfold_locales (auto simp: mutex_push_def mutex_pop_def mutex_shutdown_def)

section \<open>Interleavings\<close>

text \<open>
  Where the consumer is: outside \<open>pop\<close>; about to evaluate the predicate, holding \<open>mu_\<close>;
  about to block after the predicate was false, still holding it; blocked; notified and
  about to take \<open>mu_\<close> again; returned false.  \<open>pending\<close> counts the producers that have
  pushed and not yet called \<open>notify_one\<close>; \<open>pushed\<close> and \<open>popped\<close> record the history.
\<close>

datatype consumer_pc = C_Out | C_Check | C_Enter | C_Blocked | C_Woken | C_False

datatype closer_pc = S_Open | S_Stored | S_Done

record mutex_state =
  m_queue :: "Order list"
  m_done :: bool
  consumer :: consumer_pc
  pending :: nat
  closer :: closer_pc
  pushed :: "Order list"
  popped :: "Order list"

datatype mutex_event =
  Ev_push Order | Ev_notify_one | Ev_shutdown_store | Ev_notify_all
  | Ev_pop | Ev_predicate | Ev_block | Ev_wake | Ev_spurious

definition mutex_init :: mutex_state where
  "mutex_init = \<lparr>m_queue = [], m_done = False, consumer = C_Out, pending = 0, closer = S_Open,
     pushed = [], popped = []\<rparr>"

definition holds_lock :: "mutex_state \<Rightarrow> bool" where
  "holds_lock st = (consumer st = C_Check \<or> consumer st = C_Enter)"

text \<open>A notification reaches the consumer only when it is blocked.\<close>

definition notify :: "mutex_state \<Rightarrow> mutex_state" where
  "notify st = (if consumer st = C_Blocked then st\<lparr>consumer := C_Woken\<rparr> else st)"

fun mutex_step :: "mutex_event \<Rightarrow> mutex_state \<Rightarrow> mutex_state option" where
  "mutex_step (Ev_push x) st =
     (if holds_lock st then None
      else Some (st\<lparr>m_queue := m_queue st @ [x], pushed := pushed st @ [x], pending := pending st + 1\<rparr>))"
| "mutex_step Ev_notify_one st =
     (if pending st = 0 then None else Some (notify (st\<lparr>pending := pending st - 1\<rparr>)))"
| "mutex_step Ev_shutdown_store st =
     (if closer st = S_Open then Some (st\<lparr>m_done := True, closer := S_Stored\<rparr>) else None)"
| "mutex_step Ev_notify_all st =
     (if closer st = S_Stored then Some (notify (st\<lparr>closer := S_Done\<rparr>)) else None)"
| "mutex_step Ev_pop st =
     (if consumer st = C_Out then Some (st\<lparr>consumer := C_Check\<rparr>) else None)"
| "mutex_step Ev_predicate st =
     (if consumer st \<noteq> C_Check then None
      else if m_queue st \<noteq> [] \<or> m_done st
      then (case m_queue st of
              [] \<Rightarrow> Some (st\<lparr>consumer := C_False\<rparr>)
            | x # xs \<Rightarrow> Some (st\<lparr>m_queue := xs, popped := popped st @ [x], consumer := C_Out\<rparr>))
      else Some (st\<lparr>consumer := C_Enter\<rparr>))"
| "mutex_step Ev_block st =
     (if consumer st = C_Enter then Some (st\<lparr>consumer := C_Blocked\<rparr>) else None)"
| "mutex_step Ev_wake st =
     (if consumer st = C_Woken then Some (st\<lparr>consumer := C_Check\<rparr>) else None)"
| "mutex_step Ev_spurious st =
     (if consumer st = C_Blocked then Some (st\<lparr>consumer := C_Woken\<rparr>) else None)"

fun mutex_run :: "mutex_event list \<Rightarrow> mutex_state \<Rightarrow> mutex_state option" where
  "mutex_run [] st = Some st"
| "mutex_run (ev # evs) st = (case mutex_step ev st of None \<Rightarrow> None | Some st' \<Rightarrow> mutex_run evs st')"

section \<open>What holds in every interleaving\<close>

definition mutex_inv :: "mutex_state \<Rightarrow> bool" where
  "mutex_inv st =
     (pushed st = popped st @ m_queue st \<and>
      (consumer st = C_Enter \<longrightarrow> m_queue st = []) \<and>
      (consumer st = C_Blocked \<and> m_queue st \<noteq> [] \<longrightarrow> 0 < pending st) \<and>
      (consumer st = C_False \<longrightarrow> m_done st) \<and>
      (m_done st = (closer st \<noteq> S_Open)))"

lemma mutex_inv_step: "mutex_inv st \<Longrightarrow> mutex_step ev st = Some st' \<Longrightarrow> mutex_inv st'"
  by (cases ev)
    (auto simp: mutex_inv_def notify_def holds_lock_def split: if_splits list.splits)

lemma mutex_inv_run: "mutex_inv st \<Longrightarrow> mutex_run evs st = Some st' \<Longrightarrow> mutex_inv st'"
  by (induction evs arbitrary: st) (auto dest: mutex_inv_step split: option.splits)

lemma mutex_inv_init: "mutex_inv mutex_init"
  by (simp add: mutex_inv_def mutex_init_def)



section \<open>The lost wake-up of shutdown\<close>

definition stuck_schedule :: "mutex_event list" where
  "stuck_schedule = [Ev_pop, Ev_predicate, Ev_shutdown_store, Ev_notify_all, Ev_block]"

text \<open>
  C37: \<open>shutdown\<close> stores the flag and notifies without holding \<open>mu_\<close>, so both can
  fall between the consumer's evaluation of the predicate and its blocking.  After that
  schedule the queue is empty and shut down, the shutdown call has returned, and the
  consumer is blocked; no step is left but a push or a spurious wake-up, so the thread that
  joins the consumer waits for ever.
\<close>

theorem shutdown_wakeup_lost:
  "\<exists>st. mutex_run stuck_schedule mutex_init = Some st \<and> m_done st \<and> closer st = S_Done \<and>
     consumer st = C_Blocked \<and> m_queue st = [] \<and> pending st = 0 \<and>
     {ev. mutex_step ev st \<noteq> None} = {ev. ev = Ev_spurious \<or> (\<exists>x. ev = Ev_push x)}"
proof -
  obtain st where st: "mutex_run stuck_schedule mutex_init = Some st" "m_done st" "closer st = S_Done"
    "consumer st = C_Blocked" "m_queue st = []" "pending st = 0"
    by (simp add: stuck_schedule_def mutex_init_def notify_def)
  have "(mutex_step ev st \<noteq> None) = (ev = Ev_spurious \<or> (\<exists>x. ev = Ev_push x))" for ev
    using st by (cases ev) (simp_all add: holds_lock_def)
  with st show ?thesis by blast
qed

end
