(* ===== verification/LockFreeQueue.thy ===== *)
theory LockFreeQueue
  imports OrderQueue
begin

text \<open>
  \<open>LockFreeOrderQueue\<close> of \<open>include/lockfree_order_queue.hpp\<close>: a bounded ring buffer for one
  producer and one consumer with 64-bit \<open>head\<close> and \<open>tail\<close> counters.  The constructor's loop,
  each call as a whole for the contract of the interface, and in \<open>LockFreeConcurrent\<close> the
  interleaving of the two threads at the granularity of the atomic operations.
\<close>

unbundle bit_operations_syntax

section \<open>Construction\<close>

record LockFreeOrderQueue =
  capacity :: u64
  mask_bits :: u64
  buffer :: "Order list"
  head :: u64
  tail :: u64
  lf_done :: bool
  spin_count :: u64

text \<open>\<open>while (capacity_ < min_capacity) capacity_ <<= 1;\<close>\<close>

partial_function (option) round_capacity :: "u64 \<Rightarrow> u64 \<Rightarrow> u64 option" where
  "round_capacity c min_capacity =
     (if c < min_capacity then round_capacity (push_bit 1 c) min_capacity else Some c)"

definition make_lockfree :: "u64 \<Rightarrow> LockFreeOrderQueue option" where
  "make_lockfree min_capacity =
     (case round_capacity 1 min_capacity of
        None \<Rightarrow> None
      | Some c \<Rightarrow>
          Some \<lparr>capacity = c, mask_bits = c - 1, buffer = replicate (unat c) default_order,
                head = 0, tail = 0, lf_done = False, spin_count = 0\<rparr>)"

lemma unat_pow2: "k < 64 \<Longrightarrow> unat (2 ^ k :: u64) = 2 ^ k"
proof -
  assume "k < 64"
  then have "(2 :: nat) ^ k < 2 ^ 64" by (intro power_strict_increasing) simp_all
  then show ?thesis
    using unat_of_nat [of "2 ^ k", where 'a = 64] by (simp add: take_bit_nat_eq_self)
qed

lemma unat_pow2_le: "unat (2 ^ k :: u64) \<le> 2 ^ 63"
proof (cases "k < 64")
  case True
  then have "(2 :: nat) ^ k \<le> 2 ^ 63" by (intro power_increasing) simp_all
  with True show ?thesis by (simp add: unat_pow2)
next
  case False
  then have z: "(2 ^ k :: u64) = 0" by simp
  show ?thesis unfolding z by simp
qed

lemma push_bit_pow2: "push_bit 1 (2 ^ k :: u64) = 2 ^ Suc k"
  by (simp add: push_bit_eq_mult)

lemma round_capacity_returns:
  assumes "k < 64" and "unat m \<le> 2 ^ 63" and "k = 0 \<or> 2 ^ (k - 1) < unat m"
  shows "\<exists>j < 64. round_capacity (2 ^ k) m = Some (2 ^ j) \<and> unat m \<le> 2 ^ j \<and> (j = 0 \<or> 2 ^ (j - 1) < unat m)"
  using assms
proof (induction "63 - k" arbitrary: k)
  case 0
  then have "k = 63" by simp
  then have "\<not> (2 ^ k :: u64) < m" using 0 by (simp add: word_less_nat_alt unat_pow2)
  then show ?case
    using 0 \<open>k = 63\<close> by (subst round_capacity.simps) (auto intro!: exI [of _ 63])
next
  case (Suc n)
  show ?case
  proof (cases "(2 ^ k :: u64) < m")
    case True
    then have "2 ^ k < unat m" using Suc.prems(1) by (simp add: word_less_nat_alt unat_pow2)
    moreover have "round_capacity (2 ^ k) m = round_capacity (2 ^ Suc k) m"
      using True by (subst round_capacity.simps) (simp only: push_bit_pow2 if_True)
    ultimately show ?thesis
      using Suc.hyps(1) [of "Suc k"] Suc.hyps(2) Suc.prems by simp
  next
    case False
    then have "unat m \<le> 2 ^ k" using Suc.prems(1) by (simp add: word_less_nat_alt unat_pow2)
    with False Suc.prems show ?thesis
      by (subst round_capacity.simps) (auto intro!: exI [of _ k])
  qed
qed

lemma round_capacity_result:
  assumes "round_capacity c m = Some r"
  shows "(\<exists>k. c = 2 ^ k) \<longrightarrow> m \<le> r \<and> (\<exists>k. r = 2 ^ k)"
proof (rule round_capacity.raw_induct [OF _ assms])
  fix f :: "u64 \<Rightarrow> u64 \<Rightarrow> u64 option" and c m r
  assume IH: "\<And>c m r. f c m = Some r \<Longrightarrow> (\<exists>k. c = 2 ^ k) \<longrightarrow> m \<le> r \<and> (\<exists>k. r = 2 ^ k)"
    and eq: "(if c < m then f (push_bit 1 c) m else Some c) = Some r"
  show "(\<exists>k. c = 2 ^ k) \<longrightarrow> m \<le> r \<and> (\<exists>k. r = 2 ^ k)"
  proof
    assume "\<exists>k. c = 2 ^ k"
    then obtain k where k: "c = 2 ^ k" ..
    show "m \<le> r \<and> (\<exists>k. r = 2 ^ k)"
    proof (cases "c < m")
      case True
      then have "f (2 ^ Suc k) m = Some r" using eq k by (simp only: if_True push_bit_pow2)
      then show ?thesis using IH by blast
    next
      case False
      then show ?thesis using eq k by auto
    qed
  qed
qed

text \<open>
  C32: The constructor's loop ends exactly when the requested capacity is at most
  \<open>2 ^ 63\<close>, and then the capacity is the least power of two that is large enough; for a
  larger request the shift reaches zero and the loop never ends.
\<close>

theorem round_capacity_correct:
  "case round_capacity 1 m of
     None \<Rightarrow> 2 ^ 63 < unat m
   | Some c \<Rightarrow> unat m \<le> 2 ^ 63 \<and>
       (\<exists>j < 64. c = 2 ^ j \<and> unat m \<le> 2 ^ j \<and> (j = 0 \<or> 2 ^ (j - 1) < unat m))"
proof (cases "unat m \<le> 2 ^ 63")
  case True
  then obtain j where "j < 64" "round_capacity 1 m = Some (2 ^ j)" "unat m \<le> 2 ^ j"
    "j = 0 \<or> 2 ^ (j - 1) < unat m"
    using round_capacity_returns [of 0 m] by auto
  with True show ?thesis by (auto intro!: exI [of _ j])
next
  case False
  have "round_capacity 1 m = None"
  proof (rule ccontr)
    assume "round_capacity 1 m \<noteq> None"
    then obtain r where "round_capacity 1 m = Some r" by auto
    moreover have "\<exists>k. (1 :: u64) = 2 ^ k" by (intro exI [of _ 0]) simp
    ultimately obtain k where "m \<le> 2 ^ k" using round_capacity_result by blast
    then show False using False unat_pow2_le [of k] by (simp add: word_le_nat_alt)
  qed
  with False show ?thesis by simp
qed

section \<open>Calls\<close>

definition slot :: "LockFreeOrderQueue \<Rightarrow> u64 \<Rightarrow> nat" where
  "slot q i = unat (i AND mask_bits q)"

definition has_slot :: "LockFreeOrderQueue \<Rightarrow> bool" where
  "has_slot q = (head q - tail q < capacity q)"

definition lf_push :: "Order \<Rightarrow> LockFreeOrderQueue \<Rightarrow> LockFreeOrderQueue option" where
  "lf_push x q =
     (if has_slot q
      then Some (q\<lparr>buffer := (buffer q)[slot q (head q) := x], head := head q + 1\<rparr>)
      else None)"

definition lf_pop :: "LockFreeOrderQueue \<Rightarrow> pop_result \<times> LockFreeOrderQueue" where
  "lf_pop q =
     (if tail q < head q then (Popped (buffer q ! slot q (tail q)), q\<lparr>tail := tail q + 1\<rparr>)
      else if lf_done q
      then (if tail q < head q
            then (Popped (buffer q ! slot q (tail q)), q\<lparr>tail := tail q + 1\<rparr>)
            else (Drained, q))
      else (Waiting, q))"

definition lf_shutdown :: "LockFreeOrderQueue \<Rightarrow> LockFreeOrderQueue" where
  "lf_shutdown q = q\<lparr>lf_done := True\<rparr>"

section \<open>The ring as a list\<close>

definition ring_ok :: "LockFreeOrderQueue \<Rightarrow> bool" where
  "ring_ok q = (\<exists>k < 64. capacity q = 2 ^ k \<and> mask_bits q = 2 ^ k - 1 \<and> length (buffer q) = 2 ^ k)"

definition ring_contents :: "LockFreeOrderQueue \<Rightarrow> Order list" where
  "ring_contents q =
     map (\<lambda>i. buffer q ! (i mod length (buffer q))) [unat (tail q) ..< unat (head q)]"

definition lf_inv :: "LockFreeOrderQueue \<Rightarrow> bool" where
  "lf_inv q = (ring_ok q \<and> tail q \<le> head q \<and>
               unat (head q) - unat (tail q) \<le> length (buffer q))"

definition lf_fits :: "nat \<Rightarrow> LockFreeOrderQueue \<Rightarrow> bool" where
  "lf_fits n q = (unat (head q) + n < 2 ^ 64)"

lemma slot_mod: "ring_ok q \<Longrightarrow> slot q i = unat i mod length (buffer q)"
proof -
  assume "ring_ok q"
  then obtain k where "mask_bits q = 2 ^ k - 1" "length (buffer q) = 2 ^ k" by (auto simp: ring_ok_def)
  then have "slot q i = unat (take_bit k i)"
    by (simp add: slot_def take_bit_eq_mask mask_eq_exp_minus_1)
  also have "\<dots> = unat i mod 2 ^ k" by (subst unsigned_take_bit_eq) (simp add: take_bit_eq_mod)
  finally show ?thesis using \<open>length (buffer q) = 2 ^ k\<close> by simp
qed

lemma ring_size: "ring_ok q \<Longrightarrow> unat (capacity q) = length (buffer q) \<and> 0 < length (buffer q)"
  by (auto simp: ring_ok_def unat_pow2)

lemma mod_distinct: "i < (j :: nat) \<Longrightarrow> j - i < n \<Longrightarrow> i mod n \<noteq> j mod n"
proof
  assume a: "i < j" "j - i < n" "i mod n = j mod n"
  then have "n dvd j - i" using mod_eq_dvd_iff_nat [of i j n] by simp
  then show False using a nat_dvd_not_less [of "j - i" n] by simp
qed

lemma has_slot_nat: "lf_inv q \<Longrightarrow> has_slot q = (unat (head q) - unat (tail q) < length (buffer q))"
  using ring_size [of q] by (simp add: has_slot_def lf_inv_def word_less_nat_alt unat_u64_sub)

lemma ring_contents_push:
  assumes "ring_ok q" and "t \<le> h" and "h - t < length (buffer q)"
  shows "map (\<lambda>i. (buffer q)[h mod length (buffer q) := x] ! (i mod length (buffer q))) [t ..< Suc h] =
           map (\<lambda>i. buffer q ! (i mod length (buffer q))) [t ..< h] @ [x]"
proof -
  have "h mod length (buffer q) < length (buffer q)" using ring_size [OF assms(1)] by simp
  moreover have "i mod length (buffer q) \<noteq> h mod length (buffer q)" if "i \<in> set [t ..< h]" for i
    using that assms(3) by (intro mod_distinct) auto
  then have "map (\<lambda>i. (buffer q)[h mod length (buffer q) := x] ! (i mod length (buffer q))) [t ..< h] =
      map (\<lambda>i. buffer q ! (i mod length (buffer q))) [t ..< h]"
    by (intro map_cong refl nth_list_update_neq) metis
  ultimately show ?thesis using assms(2) by simp
qed

lemma lf_push_law:
  assumes "lf_inv q" and "lf_fits (Suc n) q" and "lf_push x q = Some q'"
  shows "lf_inv q' \<and> lf_fits n q' \<and> ring_contents q' = ring_contents q @ [x] \<and> lf_done q' = lf_done q"
proof -
  have ok: "ring_ok q" and le: "unat (tail q) \<le> unat (head q)"
    using assms(1) by (simp_all add: lf_inv_def word_le_nat_alt)
  have room: "unat (head q) - unat (tail q) < length (buffer q)" and
    q': "q' = q\<lparr>buffer := (buffer q)[unat (head q) mod length (buffer q) := x], head := head q + 1\<rparr>"
    using assms(1,3) has_slot_nat by (auto simp: lf_push_def slot_mod [OF ok] split: if_splits)
  have h: "unat (head q') = Suc (unat (head q))"
    using assms(2) by (simp add: q' lf_fits_def unat_u64_Suc)
  have "ring_contents q' = ring_contents q @ [x]"
    using ring_contents_push [OF ok le room, of x] h by (simp add: ring_contents_def q')
  moreover have "ring_ok q'" using ok by (simp add: ring_ok_def q')
  ultimately show ?thesis
    using assms(2) h le room by (simp add: lf_inv_def lf_fits_def word_le_nat_alt) (simp add: q')
qed

lemma lf_pop_law:
  assumes "lf_inv q" and "ring_contents q = x # xs"
  shows "\<exists>q'. lf_pop q = (Popped x, q') \<and> lf_inv q' \<and> ring_contents q' = xs \<and>
           lf_done q' = lf_done q \<and> (\<forall>n. lf_fits n q \<longrightarrow> lf_fits n q')"
proof -
  let ?q = "q\<lparr>tail := tail q + 1\<rparr>"
  have ok: "ring_ok q" using assms(1) by (simp add: lf_inv_def)
  have lt: "unat (tail q) < unat (head q)"
    using assms(2) by (auto simp: ring_contents_def upt_rec [of "unat (tail q)"] split: if_splits)
  have t: "unat (tail q + 1) = Suc (unat (tail q))"
  proof -
    have "unat (tail q) + 1 < 18446744073709551616" using lt unat_u64_less [of "head q"] by linarith
    then show ?thesis by (simp add: unat_u64_Suc)
  qed
  have "x = buffer q ! slot q (tail q) \<and> ring_contents ?q = xs"
    using assms(2) lt t by (simp add: ring_contents_def upt_conv_Cons slot_mod [OF ok])
  moreover have "lf_inv ?q"
    using assms(1) lt t ok by (simp add: lf_inv_def word_le_nat_alt ring_ok_def) linarith
  ultimately show ?thesis
    using lt by (auto simp: lf_pop_def word_less_nat_alt lf_fits_def)
qed

interpretation lockfree: order_queue "\<lambda>_. True" lf_inv lf_fits ring_contents lf_done lf_push lf_pop lf_shutdown
proof
  fix q n x q' xs
  show "lf_fits (Suc n) q \<Longrightarrow> lf_fits n q" by (simp add: lf_fits_def)
  show "lf_inv q \<Longrightarrow> lf_fits (Suc n) q \<Longrightarrow> lf_push x q = Some q' \<Longrightarrow>
      lf_inv q' \<and> lf_fits n q' \<and> ring_contents q' = ring_contents q @ [x] \<and> lf_done q' = lf_done q"
    by (rule lf_push_law)
  show "lf_inv q \<Longrightarrow> ring_contents q = x # xs \<Longrightarrow>
      \<exists>q'. lf_pop q = (Popped x, q') \<and> lf_inv q' \<and> ring_contents q' = xs \<and>
        lf_done q' = lf_done q \<and> (\<forall>n. lf_fits n q \<longrightarrow> lf_fits n q')"
    by (rule lf_pop_law)
  show "lf_inv q \<Longrightarrow> ring_contents q = [] \<Longrightarrow> lf_pop q = (if lf_done q then Drained else Waiting, q)"
    by (auto simp: lf_inv_def ring_contents_def lf_pop_def word_less_nat_alt)
  show "lf_inv q \<Longrightarrow>
      lf_inv (lf_shutdown q) \<and> ring_contents (lf_shutdown q) = ring_contents q \<and>
      lf_done (lf_shutdown q) \<and> (lf_fits n q \<longrightarrow> lf_fits n (lf_shutdown q))"
    by (simp add: lf_shutdown_def lf_inv_def ring_ok_def ring_contents_def lf_fits_def)
qed

text \<open>With room for \<open>n\<close> more orders in the ring, \<open>n\<close> pushes do not spin.\<close>

definition lf_room :: "nat \<Rightarrow> LockFreeOrderQueue \<Rightarrow> bool" where
  "lf_room n q = (lf_fits n q \<and> length (ring_contents q) + n \<le> length (buffer q))"

lemma lf_push_buffer: "lf_push x q = Some q' \<Longrightarrow> length (buffer q') = length (buffer q)"
  by (auto simp: lf_push_def split: if_splits)

lemma lf_pop_buffer: "lf_pop q = (r, q') \<Longrightarrow> buffer q' = buffer q"
  by (auto simp: lf_pop_def split: if_splits)

lemma lf_push_room:
  assumes "lf_inv q" and "length (ring_contents q) < length (buffer q)"
  shows "\<exists>q'. lf_push x q = Some q'"
proof -
  obtain k where k: "k < 64" "capacity q = 2 ^ k" "length (buffer q) = 2 ^ k"
    using assms(1) by (auto simp: lf_inv_def ring_ok_def)
  have "unat (head q - tail q) = unat (head q) - unat (tail q)"
    using assms(1) by (simp add: lf_inv_def unat_u64_sub)
  moreover have "unat (capacity q) = 2 ^ k" using k by (simp add: unat_pow2)
  ultimately have "has_slot q"
    using assms(2) k(3) by (simp add: has_slot_def word_less_nat_alt ring_contents_def)
  then show ?thesis by (simp add: lf_push_def)
qed

interpretation lockfree_room: total_queue "\<lambda>_. True" lf_inv lf_room ring_contents lf_done lf_push lf_pop lf_shutdown
proof
  fix q n x q' xs
  show "lf_room (Suc n) q \<Longrightarrow> lf_room n q" by (auto simp: lf_room_def intro: lockfree.fits_less)
  show "lf_inv q \<Longrightarrow> lf_room (Suc n) q \<Longrightarrow> lf_push x q = Some q' \<Longrightarrow>
      lf_inv q' \<and> lf_room n q' \<and> ring_contents q' = ring_contents q @ [x] \<and> lf_done q' = lf_done q"
    using lf_push_law [of q n x q'] lf_push_buffer [of x q q'] by (simp add: lf_room_def)
  show "lf_inv q \<Longrightarrow> ring_contents q = x # xs \<Longrightarrow>
      \<exists>q'. lf_pop q = (Popped x, q') \<and> lf_inv q' \<and> ring_contents q' = xs \<and>
        lf_done q' = lf_done q \<and> (\<forall>n. lf_room n q \<longrightarrow> lf_room n q')"
    using lf_pop_law [of q x xs] lf_pop_buffer [of q] by (fastforce simp: lf_room_def)
  show "lf_inv q \<Longrightarrow> ring_contents q = [] \<Longrightarrow> lf_pop q = (if lf_done q then Drained else Waiting, q)"
    by (rule lockfree.pop_at_end)
  show "lf_inv q \<Longrightarrow>
      lf_inv (lf_shutdown q) \<and> ring_contents (lf_shutdown q) = ring_contents q \<and>
      lf_done (lf_shutdown q) \<and> (lf_room n q \<longrightarrow> lf_room n (lf_shutdown q))"
    using lockfree.shut_closes [of q n] by (simp add: lf_room_def) (simp add: lf_shutdown_def)
  show "lf_inv q \<Longrightarrow> lf_room (Suc n) q \<Longrightarrow> \<exists>q'. lf_push x q = Some q'"
    using lf_push_room [of q x] by (simp add: lf_room_def)
qed

lemma make_lockfree_inv:
  assumes "make_lockfree m = Some q"
  shows "lf_inv q \<and> ring_contents q = [] \<and> head q = 0 \<and> \<not> lf_done q \<and> unat m \<le> length (buffer q)"
proof -
  obtain c where c: "round_capacity 1 m = Some c" and
    q: "q = \<lparr>capacity = c, mask_bits = c - 1, buffer = replicate (unat c) default_order,
             head = 0, tail = 0, lf_done = False, spin_count = 0\<rparr>"
    using assms by (auto simp: make_lockfree_def split: option.splits)
  have "unat m \<le> 2 ^ 63"
  proof (rule ccontr)
    assume a: "\<not> unat m \<le> 2 ^ 63"
    have "\<exists>k. (1 :: u64) = 2 ^ k" by (intro exI [of _ 0]) simp
    then obtain k where "m \<le> 2 ^ k" using round_capacity_result [OF c] by auto
    then show False using a unat_pow2_le [of k] by (simp add: word_le_nat_alt)
  qed
  then obtain j where "j < 64" "c = 2 ^ j" "unat m \<le> 2 ^ j"
    using round_capacity_returns [of 0 m] c by auto
  then show ?thesis by (auto simp: q lf_inv_def ring_ok_def ring_contents_def unat_pow2)
qed

end
