(* ===== verification/LockFreeConcurrent.thy ===== *)
theory LockFreeConcurrent
  imports LockFreeQueue "HOL-Library.Sublist"
begin

text \<open>
  The two threads of \<open>LockFreeOrderQueue\<close> and a call of \<open>shutdown\<close>, interleaved at the
  granularity of the code's atomic loads and stores and of its accesses to the buffer, in a
  sequentially consistent memory; \<open>LockFreeWeak\<close> has the memory orders of the code.  \<open>lf_pushed\<close> and
  \<open>lf_popped\<close> record what was published and released, \<open>at_shutdown\<close> what had been published
  when \<open>shutdown\<close> was first called.
\<close>

section \<open>Threads and steps\<close>

text \<open>
  The producer: outside \<open>push\<close>; in the loop with \<open>head\<close> loaded; past the loop; with the
  slot written and not yet published.
\<close>

datatype producer_pc = P_Idle | P_Loop Order u64 | P_Slot Order u64 | P_Written Order u64

text \<open>
  The consumer: outside \<open>pop\<close>; at the top of the loop with \<open>tail\<close> loaded; past a test that
  found data; with the slot read and not yet released; past a test that found none; past a
  load that found \<open>done_\<close> set; returned false.
\<close>

datatype popper_pc = K_Idle | K_Loop u64 | K_Data u64 | K_Read u64 Order | K_Empty u64 | K_Recheck u64 | K_False

record lf_state =
  ring :: LockFreeOrderQueue
  prod :: producer_pc
  cons :: popper_pc
  lf_pushed :: "Order list"
  lf_popped :: "Order list"
  at_shutdown :: "Order list option"

datatype lf_event =
  Push_load_head Order | Push_load_tail | Push_write | Push_publish
  | Pop_load_tail | Pop_load_head | Pop_read | Pop_release | Pop_load_done | Pop_recheck | Shut_store

definition lf_init :: "LockFreeOrderQueue \<Rightarrow> lf_state" where
  "lf_init q = \<lparr>ring = q, prod = P_Idle, cons = K_Idle, lf_pushed = [], lf_popped = [], at_shutdown = None\<rparr>"

fun lf_step :: "lf_event \<Rightarrow> lf_state \<Rightarrow> lf_state option" where
  "lf_step (Push_load_head x) st =
     (case prod st of P_Idle \<Rightarrow> Some (st\<lparr>prod := P_Loop x (head (ring st))\<rparr>) | _ \<Rightarrow> None)"
| "lf_step Push_load_tail st =
     (case prod st of
        P_Loop x h \<Rightarrow>
          (if h - tail (ring st) < capacity (ring st) then Some (st\<lparr>prod := P_Slot x h\<rparr>)
           else Some (st\<lparr>ring := (ring st)\<lparr>spin_count := spin_count (ring st) + 1\<rparr>\<rparr>))
      | _ \<Rightarrow> None)"
| "lf_step Push_write st =
     (case prod st of
        P_Slot x h \<Rightarrow>
          Some (st\<lparr>ring := (ring st)\<lparr>buffer := (buffer (ring st))[slot (ring st) h := x]\<rparr>,
                   prod := P_Written x h\<rparr>)
      | _ \<Rightarrow> None)"
| "lf_step Push_publish st =
     (case prod st of
        P_Written x h \<Rightarrow>
          Some (st\<lparr>ring := (ring st)\<lparr>head := h + 1\<rparr>, prod := P_Idle, lf_pushed := lf_pushed st @ [x]\<rparr>)
      | _ \<Rightarrow> None)"
| "lf_step Pop_load_tail st =
     (case cons st of K_Idle \<Rightarrow> Some (st\<lparr>cons := K_Loop (tail (ring st))\<rparr>) | _ \<Rightarrow> None)"
| "lf_step Pop_load_head st =
     (case cons st of
        K_Loop t \<Rightarrow> Some (st\<lparr>cons := (if t < head (ring st) then K_Data t else K_Empty t)\<rparr>)
      | _ \<Rightarrow> None)"
| "lf_step Pop_read st =
     (case cons st of
        K_Data t \<Rightarrow> Some (st\<lparr>cons := K_Read t (buffer (ring st) ! slot (ring st) t)\<rparr>)
      | _ \<Rightarrow> None)"
| "lf_step Pop_release st =
     (case cons st of
        K_Read t x \<Rightarrow>
          Some (st\<lparr>ring := (ring st)\<lparr>tail := t + 1\<rparr>, cons := K_Idle, lf_popped := lf_popped st @ [x]\<rparr>)
      | _ \<Rightarrow> None)"
| "lf_step Pop_load_done st =
     (case cons st of
        K_Empty t \<Rightarrow> Some (st\<lparr>cons := (if lf_done (ring st) then K_Recheck t else K_Loop t)\<rparr>)
      | _ \<Rightarrow> None)"
| "lf_step Pop_recheck st =
     (case cons st of
        K_Recheck t \<Rightarrow> Some (st\<lparr>cons := (if t < head (ring st) then K_Data t else K_False)\<rparr>)
      | _ \<Rightarrow> None)"
| "lf_step Shut_store st =
     Some (st\<lparr>ring := (ring st)\<lparr>lf_done := True\<rparr>,
              at_shutdown := (case at_shutdown st of None \<Rightarrow> Some (lf_pushed st) | Some ys \<Rightarrow> Some ys)\<rparr>)"

fun lf_run :: "lf_event list \<Rightarrow> lf_state \<Rightarrow> lf_state option" where
  "lf_run [] st = Some st"
| "lf_run (ev # evs) st = (case lf_step ev st of None \<Rightarrow> None | Some st' \<Rightarrow> lf_run evs st')"

section \<open>The invariant\<close>

definition ring_inv :: "lf_state \<Rightarrow> bool" where
  "ring_inv st =
     (let q = ring st; p = lf_pushed st; c = length (lf_popped st) in
      ring_ok q \<and> unat (head q) = length p \<and> unat (tail q) = c \<and> c \<le> length p \<and>
      length p - c \<le> length (buffer q) \<and> lf_popped st = take c p \<and>
      (\<forall>i. c \<le> i \<and> i < length p \<longrightarrow> buffer q ! (i mod length (buffer q)) = p ! i))"

definition producer_inv :: "lf_state \<Rightarrow> bool" where
  "producer_inv st =
     (let q = ring st; room = length (lf_pushed st) - length (lf_popped st) < length (buffer q) in
      case prod st of
        P_Idle \<Rightarrow> True
      | P_Loop x h \<Rightarrow> h = head q
      | P_Slot x h \<Rightarrow> h = head q \<and> room
      | P_Written x h \<Rightarrow> h = head q \<and> room \<and> buffer q ! slot q h = x)"

definition consumer_inv :: "lf_state \<Rightarrow> bool" where
  "consumer_inv st =
     (let q = ring st; some = length (lf_popped st) < length (lf_pushed st) in
      case cons st of
        K_Idle \<Rightarrow> True
      | K_Loop t \<Rightarrow> t = tail q
      | K_Data t \<Rightarrow> t = tail q \<and> some
      | K_Read t x \<Rightarrow> t = tail q \<and> some \<and> x = lf_pushed st ! length (lf_popped st)
      | K_Empty t \<Rightarrow> t = tail q
      | K_Recheck t \<Rightarrow> t = tail q \<and> lf_done q
      | K_False \<Rightarrow> (\<exists>ys. at_shutdown st = Some ys \<and> prefix ys (lf_popped st)))"

definition shutdown_inv :: "lf_state \<Rightarrow> bool" where
  "shutdown_inv st =
     (case at_shutdown st of
        None \<Rightarrow> \<not> lf_done (ring st)
      | Some ys \<Rightarrow> lf_done (ring st) \<and> prefix ys (lf_pushed st))"

definition spsc_inv :: "lf_state \<Rightarrow> bool" where
  "spsc_inv st = (ring_inv st \<and> producer_inv st \<and> consumer_inv st \<and> shutdown_inv st)"

lemmas spsc_defs = spsc_inv_def ring_inv_def producer_inv_def consumer_inv_def shutdown_inv_def Let_def

lemma ring_ok_update [simp]:
  "ring_ok (q\<lparr>head := h\<rparr>) = ring_ok q" "ring_ok (q\<lparr>tail := t\<rparr>) = ring_ok q"
  "ring_ok (q\<lparr>lf_done := d\<rparr>) = ring_ok q" "ring_ok (q\<lparr>spin_count := n\<rparr>) = ring_ok q"
  "ring_ok (q\<lparr>buffer := (buffer q)[i := x]\<rparr>) = ring_ok q"
  by (simp_all add: ring_ok_def)

lemma slot_update [simp]:
  "slot (q\<lparr>head := h\<rparr>) i = slot q i" "slot (q\<lparr>tail := t\<rparr>) i = slot q i"
  "slot (q\<lparr>lf_done := d\<rparr>) i = slot q i" "slot (q\<lparr>spin_count := n\<rparr>) i = slot q i"
  "slot (q\<lparr>buffer := b\<rparr>) i = slot q i"
  by (simp_all add: slot_def)

text \<open>What each part of the invariant does not depend on.\<close>

lemma ring_inv_frame [simp]:
  "ring_inv (st\<lparr>prod := p\<rparr>) = ring_inv st" "ring_inv (st\<lparr>cons := c\<rparr>) = ring_inv st"
  "ring_inv (st\<lparr>at_shutdown := a\<rparr>) = ring_inv st"
  "ring_inv (st\<lparr>ring := (ring st)\<lparr>lf_done := d\<rparr>\<rparr>) = ring_inv st"
  "ring_inv (st\<lparr>ring := (ring st)\<lparr>spin_count := n\<rparr>\<rparr>) = ring_inv st"
  by (simp_all add: ring_inv_def Let_def)

lemma producer_inv_frame [simp]:
  "producer_inv (st\<lparr>cons := c\<rparr>) = producer_inv st"
  "producer_inv (st\<lparr>at_shutdown := a\<rparr>) = producer_inv st"
  "producer_inv (st\<lparr>ring := (ring st)\<lparr>lf_done := d\<rparr>\<rparr>) = producer_inv st"
  "producer_inv (st\<lparr>ring := (ring st)\<lparr>spin_count := n\<rparr>\<rparr>) = producer_inv st"
  by (simp_all add: producer_inv_def Let_def split: producer_pc.split)

lemma consumer_inv_frame [simp]:
  "consumer_inv (st\<lparr>prod := p\<rparr>) = consumer_inv st"
  "consumer_inv (st\<lparr>ring := (ring st)\<lparr>spin_count := n\<rparr>\<rparr>) = consumer_inv st"
  by (simp_all add: consumer_inv_def Let_def split: popper_pc.split)

lemma shutdown_inv_frame [simp]:
  "shutdown_inv (st\<lparr>prod := p\<rparr>) = shutdown_inv st" "shutdown_inv (st\<lparr>cons := c\<rparr>) = shutdown_inv st"
  "shutdown_inv (st\<lparr>ring := (ring st)\<lparr>spin_count := n\<rparr>\<rparr>) = shutdown_inv st"
  by (simp_all add: shutdown_inv_def split: option.split)

lemma producer_inv_pc:
  "producer_inv (st\<lparr>prod := P_Loop x h\<rparr>) = (h = head (ring st))"
  "producer_inv (st\<lparr>prod := P_Slot x h\<rparr>) =
     (h = head (ring st) \<and> length (lf_pushed st) - length (lf_popped st) < length (buffer (ring st)))"
  by (simp_all add: producer_inv_def Let_def split: producer_pc.split)

lemma consumer_inv_pc:
  "consumer_inv (st\<lparr>cons := K_Loop t\<rparr>) = (t = tail (ring st))"
  "consumer_inv (st\<lparr>cons := K_Data t\<rparr>) =
     (t = tail (ring st) \<and> length (lf_popped st) < length (lf_pushed st))"
  "consumer_inv (st\<lparr>cons := K_Read t x\<rparr>) =
     (t = tail (ring st) \<and> length (lf_popped st) < length (lf_pushed st) \<and>
      x = lf_pushed st ! length (lf_popped st))"
  "consumer_inv (st\<lparr>cons := K_Empty t\<rparr>) = (t = tail (ring st))"
  "consumer_inv (st\<lparr>cons := K_Recheck t\<rparr>) = (t = tail (ring st) \<and> lf_done (ring st))"
  "consumer_inv (st\<lparr>cons := K_False\<rparr>) =
     (\<exists>ys. at_shutdown st = Some ys \<and> prefix ys (lf_popped st))"
  by (simp_all add: consumer_inv_def Let_def split: popper_pc.split)

lemma spsc_push_begin: "spsc_inv st \<Longrightarrow> lf_step (Push_load_head x) st = Some st' \<Longrightarrow> spsc_inv st'"
  by (auto simp: spsc_inv_def producer_inv_pc split: producer_pc.splits)

lemma spsc_pop_begin: "spsc_inv st \<Longrightarrow> lf_step Pop_load_tail st = Some st' \<Longrightarrow> spsc_inv st'"
  by (auto simp: spsc_inv_def consumer_inv_pc split: popper_pc.splits)

lemma spsc_load_done: "spsc_inv st \<Longrightarrow> lf_step Pop_load_done st = Some st' \<Longrightarrow> spsc_inv st'"
  by (cases "cons st") (auto simp: spsc_inv_def consumer_inv_pc consumer_inv_def [of st] Let_def)

lemma spsc_shut: "spsc_inv st \<Longrightarrow> lf_step Shut_store st = Some st' \<Longrightarrow> spsc_inv st'"
proof -
  assume inv: "spsc_inv st" and step: "lf_step Shut_store st = Some st'"
  define a where "a = (case at_shutdown st of None \<Rightarrow> Some (lf_pushed st) | Some ys \<Rightarrow> Some ys)"
  let ?s = "st\<lparr>ring := (ring st)\<lparr>lf_done := True\<rparr>\<rparr>"
  have st': "st' = ?s\<lparr>at_shutdown := a\<rparr>" using step by (simp add: a_def)
  have "shutdown_inv st'"
    using inv by (auto simp: st' a_def spsc_inv_def shutdown_inv_def split: option.splits)
  moreover have "consumer_inv st'"
    using inv by (cases "cons st") (auto simp: st' a_def spsc_inv_def consumer_inv_def Let_def)
  moreover have "ring_inv st'" "producer_inv st'"
    using inv unfolding st' by (simp_all add: spsc_inv_def)
  ultimately show ?thesis by (simp add: spsc_inv_def)
qed

lemma ring_inv_less:
  "ring_inv st \<Longrightarrow> (tail (ring st) < head (ring st)) = (length (lf_popped st) < length (lf_pushed st))"
  by (simp add: ring_inv_def Let_def word_less_nat_alt)

lemma spsc_load_head: "spsc_inv st \<Longrightarrow> lf_step Pop_load_head st = Some st' \<Longrightarrow> spsc_inv st'"
  by (cases "cons st")
    (auto simp: spsc_inv_def consumer_inv_pc consumer_inv_def [of st] Let_def ring_inv_less)

lemma spsc_recheck:
  assumes "spsc_inv st" and "lf_step Pop_recheck st = Some st'"
  shows "spsc_inv st'"
proof -
  obtain t where c: "cons st = K_Recheck t" using assms(2) by (cases "cons st") simp_all
  have t: "t = tail (ring st)" "lf_done (ring st)" and r: "ring_inv st"
    using assms(1) c by (simp_all add: spsc_inv_def consumer_inv_def Let_def)
  obtain ys where ys: "at_shutdown st = Some ys" "prefix ys (lf_pushed st)"
    using assms(1) t(2) by (auto simp: spsc_inv_def shutdown_inv_def split: option.splits)
  have "lf_popped st = lf_pushed st" if "\<not> length (lf_popped st) < length (lf_pushed st)"
  proof -
    have "lf_popped st = take (length (lf_popped st)) (lf_pushed st)" "length (lf_popped st) \<le> length (lf_pushed st)"
      using r by (simp_all add: ring_inv_def Let_def)
    with that show ?thesis by (metis le_neq_implies_less take_all_iff order_refl)
  qed
  then show ?thesis
    using assms c t ys r by (auto simp: spsc_inv_def consumer_inv_pc ring_inv_less)
qed

lemma spsc_load_tail:
  assumes "spsc_inv st" and "lf_step Push_load_tail st = Some st'"
  shows "spsc_inv st'"
proof -
  obtain x h where p: "prod st = P_Loop x h" using assms(2) by (cases "prod st") simp_all
  then have h: "h = head (ring st)" using assms(1) by (simp add: spsc_inv_def producer_inv_def Let_def)
  have r: "ring_inv st" using assms(1) by (simp add: spsc_inv_def)
  then have ok: "ring_ok (ring st)"
    and "unat (head (ring st) - tail (ring st)) = length (lf_pushed st) - length (lf_popped st)"
    by (simp_all add: ring_inv_def Let_def word_le_nat_alt unat_u64_sub)
  then have "(head (ring st) - tail (ring st) < capacity (ring st)) =
      (length (lf_pushed st) - length (lf_popped st) < length (buffer (ring st)))"
    using ring_size [OF ok] by (simp add: word_less_nat_alt)
  then show ?thesis
    using assms p h by (auto simp: spsc_inv_def producer_inv_pc split: if_splits)
qed

lemma spsc_write:
  assumes "spsc_inv st" and "lf_step Push_write st = Some st'"
  shows "spsc_inv st'"
proof -
  let ?n = "length (buffer (ring st))"
  obtain x h where p: "prod st = P_Slot x h" using assms(2) by (auto split: producer_pc.splits)
  have ok: "ring_ok (ring st)" and h: "unat h = length (lf_pushed st)" "h = head (ring st)"
    and room: "length (lf_pushed st) - length (lf_popped st) < ?n"
    using assms(1) p by (auto simp: spsc_defs)
  have st': "st' = st\<lparr>ring := (ring st)\<lparr>buffer := (buffer (ring st))[length (lf_pushed st) mod ?n := x]\<rparr>,
      prod := P_Written x h\<rparr>"
    using assms(2) p h(1) by (simp add: slot_mod [OF ok])
  have new: "(buffer (ring st))[length (lf_pushed st) mod ?n := x] ! slot (ring st) h = x"
    using ring_size [OF ok] h(1) by (simp add: slot_mod [OF ok])
  have "(buffer (ring st))[length (lf_pushed st) mod ?n := x] ! (i mod ?n) = lf_pushed st ! i"
    if "length (lf_popped st) \<le> i \<and> i < length (lf_pushed st)" for i
  proof -
    have "i mod ?n \<noteq> length (lf_pushed st) mod ?n" using that room by (intro mod_distinct) auto
    moreover have "buffer (ring st) ! (i mod ?n) = lf_pushed st ! i"
      using that assms(1) by (simp add: spsc_inv_def ring_inv_def Let_def)
    ultimately show ?thesis by simp
  qed
  then show ?thesis
    using assms(1) new h room
    by (simp add: st' spsc_defs split: popper_pc.splits option.splits)
qed

lemma spsc_publish:
  assumes "spsc_inv st" and "lf_step Push_publish st = Some st'" and "length (lf_pushed st') < 2 ^ 64"
  shows "spsc_inv st'"
proof -
  let ?n = "length (buffer (ring st))"
  obtain x h where p: "prod st = P_Written x h" using assms(2) by (auto split: producer_pc.splits)
  have ok: "ring_ok (ring st)" and h: "unat h = length (lf_pushed st)" "h = head (ring st)"
    and room: "length (lf_pushed st) - length (lf_popped st) < ?n"
    and x: "buffer (ring st) ! slot (ring st) h = x"
    using assms(1) p by (auto simp: spsc_defs)
  have st': "st' = st\<lparr>ring := (ring st)\<lparr>head := h + 1\<rparr>, prod := P_Idle, lf_pushed := lf_pushed st @ [x]\<rparr>"
    using assms(2) p by simp
  have "unat (h + 1) = Suc (length (lf_pushed st))"
    using assms(3) h(1) by (simp add: st' unat_u64_Suc)
  moreover have "buffer (ring st) ! (i mod ?n) = (lf_pushed st @ [x]) ! i"
    if "length (lf_popped st) \<le> i \<and> i < Suc (length (lf_pushed st))" for i
    using that assms(1) x h(1) slot_mod [OF ok, of h]
    by (cases "i = length (lf_pushed st)") (auto simp: spsc_defs nth_append)
  ultimately show ?thesis
    using assms(1) room ok
    by (auto simp: st' spsc_defs nth_append split: popper_pc.splits option.splits)
qed

lemma spsc_read:
  assumes "spsc_inv st" and "lf_step Pop_read st = Some st'"
  shows "spsc_inv st'"
proof -
  obtain t where c: "cons st = K_Data t" using assms(2) by (cases "cons st") simp_all
  then have t: "t = tail (ring st)" "length (lf_popped st) < length (lf_pushed st)" and r: "ring_inv st"
    using assms(1) by (simp_all add: spsc_inv_def consumer_inv_def Let_def)
  then have "buffer (ring st) ! slot (ring st) t = lf_pushed st ! length (lf_popped st)"
    by (simp add: slot_mod ring_inv_def Let_def)
  then show ?thesis using assms c t by (auto simp: spsc_inv_def consumer_inv_pc)
qed

lemma spsc_release:
  assumes "spsc_inv st" and "lf_step Pop_release st = Some st'"
  shows "spsc_inv st'"
proof -
  obtain t x where c: "cons st = K_Read t x" using assms(2) by (cases "cons st") simp_all
  have t: "t = tail (ring st)" and lt: "length (lf_popped st) < length (lf_pushed st)"
    and x: "x = lf_pushed st ! length (lf_popped st)"
    and inv: "ring_inv st" "producer_inv st" "shutdown_inv st"
    using assms(1) c by (auto simp: spsc_inv_def consumer_inv_def Let_def)
  have pop: "lf_popped st = take (length (lf_popped st)) (lf_pushed st)"
    and h: "unat (head (ring st)) = length (lf_pushed st)" "unat t = length (lf_popped st)"
    using inv(1) t by (simp_all add: ring_inv_def Let_def)
  have st': "st' = st\<lparr>ring := (ring st)\<lparr>tail := t + 1\<rparr>, cons := K_Idle, lf_popped := lf_popped st @ [x]\<rparr>"
    using assms(2) c by simp
  have "unat t + 1 < 18446744073709551616"
    using lt h unat_u64_less [of "head (ring st)"] by linarith
  then have "unat (t + 1) = Suc (length (lf_popped st))" using h by (simp add: unat_u64_Suc)
  moreover have "lf_popped st @ [x] = take (Suc (length (lf_popped st))) (lf_pushed st)"
    using pop lt x by (simp add: take_Suc_conv_app_nth)
  ultimately have "ring_inv st'" using inv(1) lt by (auto simp: st' ring_inv_def Let_def)
  moreover have "producer_inv st'"
    using inv(2) lt by (cases "prod st") (auto simp: st' producer_inv_def Let_def)
  moreover have "consumer_inv st'" "shutdown_inv st'"
    using inv(3) by (simp_all add: st' consumer_inv_def shutdown_inv_def Let_def split: option.splits)
  ultimately show ?thesis by (simp add: spsc_inv_def)
qed

lemmas spsc_steps = spsc_push_begin spsc_load_tail spsc_write spsc_pop_begin spsc_load_head spsc_read
  spsc_release spsc_load_done spsc_recheck spsc_shut

lemma spsc_step:
  assumes "spsc_inv st" and "lf_step ev st = Some st'" and "length (lf_pushed st') < 2 ^ 64"
  shows "spsc_inv st'"
  using assms by (cases ev) (auto simp del: lf_step.simps intro: spsc_steps spsc_publish)

lemma lf_step_pushed: "lf_step ev st = Some st' \<Longrightarrow> prefix (lf_pushed st) (lf_pushed st')"
  by (cases ev) (auto split: producer_pc.splits popper_pc.splits if_splits)

lemma lf_run_pushed: "lf_run evs st = Some st' \<Longrightarrow> prefix (lf_pushed st) (lf_pushed st')"
  by (induction evs arbitrary: st)
    (auto split: option.splits dest: lf_step_pushed intro: prefix_order.trans)

lemma spsc_run:
  "spsc_inv st \<Longrightarrow> lf_run evs st = Some st' \<Longrightarrow> length (lf_pushed st') < 2 ^ 64 \<Longrightarrow> spsc_inv st'"
proof (induction evs arbitrary: st)
  case Nil
  then show ?case by simp
next
  case (Cons ev evs)
  then obtain st1 where s: "lf_step ev st = Some st1" "lf_run evs st1 = Some st'"
    by (auto split: option.splits)
  then have "length (lf_pushed st1) < 2 ^ 64"
    using lf_run_pushed [OF s(2)] Cons.prems(3) prefix_length_le by fastforce
  then show ?case using Cons s spsc_step by blast
qed

section \<open>What holds in every interleaving\<close>

lemma spsc_init: "make_lockfree m = Some q \<Longrightarrow> spsc_inv (lf_init q)"
proof -
  assume "make_lockfree m = Some q"
  moreover from this have "tail q = 0" by (auto simp: make_lockfree_def split: option.splits)
  ultimately show ?thesis
    using make_lockfree_inv [of m q] by (simp add: lf_init_def spsc_defs lf_inv_def)
qed

text \<open>
  In every interleaving of the producer, the consumer and \<open>shutdown\<close>, as long as the
  counters have not wrapped: the consumer gets the orders in the order in which they were
  published, none lost, none twice and none before it is completely written; the ring never
  holds more than its capacity; and \<open>pop\<close> returns false only after \<open>shutdown\<close>, with
  everything published before the shutdown already consumed.
\<close>

lemma lockfree_spsc_safe:
  assumes "make_lockfree m = Some q" and "lf_run evs (lf_init q) = Some st"
    and "length (lf_pushed st) < 2 ^ 64"
  shows "prefix (lf_popped st) (lf_pushed st) \<and>
         length (lf_pushed st) - length (lf_popped st) \<le> length (buffer (ring st)) \<and>
         (cons st = K_False \<longrightarrow> (\<exists>ys. at_shutdown st = Some ys \<and> prefix ys (lf_popped st)))"
proof -
  have inv: "spsc_inv st" using spsc_run [OF spsc_init [OF assms(1)] assms(2,3)] .
  then have "lf_popped st = take (length (lf_popped st)) (lf_pushed st)"
    "length (lf_pushed st) - length (lf_popped st) \<le> length (buffer (ring st))"
    by (simp_all add: spsc_defs)
  moreover have "\<exists>ys. at_shutdown st = Some ys \<and> prefix ys (lf_popped st)" if "cons st = K_False"
    using inv that by (simp add: spsc_defs)
  ultimately show ?thesis by (metis take_is_prefix)
qed

definition full_pass :: "lf_event list" where
  "full_pass = [Push_load_head default_order, Push_load_tail, Push_write, Pop_load_tail, Pop_load_head,
     Push_publish, Shut_store, Pop_load_done, Pop_recheck, Pop_read, Pop_release,
     Pop_load_tail, Pop_load_head, Pop_load_done, Pop_recheck]"

lemma make_lockfree_2: "\<exists>q. make_lockfree 2 = Some q \<and> capacity q = 2 \<and> mask_bits q = 1 \<and>
   length (buffer q) = 2 \<and> head q = 0 \<and> tail q = 0 \<and> \<not> lf_done q"
proof -
  have "round_capacity 1 2 = Some 2"
    by (subst round_capacity.simps, subst round_capacity.simps) (simp add: push_bit_eq_mult)
  then show ?thesis by (simp add: make_lockfree_def)
qed

lemma lockfree_spsc_safe_sample:
  "\<exists>q st. make_lockfree 2 = Some q \<and> lf_run full_pass (lf_init q) = Some st \<and>
     length (lf_pushed st) < 2 ^ 64 \<and> cons st = K_False \<and>
     prefix (lf_popped st) (lf_pushed st) \<and>
     (\<exists>ys. at_shutdown st = Some ys \<and> ys = [default_order] \<and> prefix ys (lf_popped st))"
proof -
  obtain q where q: "make_lockfree 2 = Some q" "capacity q = 2" "mask_bits q = 1"
    "length (buffer q) = 2" "head q = 0" "tail q = 0" "\<not> lf_done q"
    using make_lockfree_2 by blast
  obtain st where st: "lf_run full_pass (lf_init q) = Some st" "lf_pushed st = [default_order]"
    "cons st = K_False" "at_shutdown st = Some [default_order]"
    using q(2-) by (simp add: full_pass_def lf_init_def slot_def)
  then show ?thesis
    using q(1) lockfree_spsc_safe [OF q(1) st(1)] by (intro exI [of _ q] exI [of _ st]) auto
qed

text \<open>
  The two threads never touch the same slot at once: whenever the producer is about to
  write a slot and the consumer about to read one, the slots differ.
\<close>

lemma lockfree_race_free:
  assumes "make_lockfree m = Some q" and "lf_run evs (lf_init q) = Some st"
    and "length (lf_pushed st) < 2 ^ 64" and "prod st = P_Slot x h" and "cons st = K_Data t"
  shows "slot (ring st) h \<noteq> slot (ring st) t"
proof -
  let ?n = "length (buffer (ring st))"
  have inv: "spsc_inv st" using spsc_run [OF spsc_init [OF assms(1)] assms(2,3)] .
  then have "ring_ok (ring st)" "unat h = length (lf_pushed st)" "unat t = length (lf_popped st)"
    "length (lf_popped st) < length (lf_pushed st)" "length (lf_pushed st) - length (lf_popped st) < ?n"
    using assms(4,5) by (simp_all add: spsc_defs)
  then show ?thesis using mod_distinct [of "unat t" "unat h" ?n] by (simp add: slot_mod)
qed

lemma lockfree_race_free_sample:
  "\<exists>q st h t. make_lockfree 2 = Some q \<and>
     lf_run [Push_load_head default_order, Push_load_tail, Push_write, Push_publish,
       Push_load_head default_order, Push_load_tail, Pop_load_tail, Pop_load_head] (lf_init q) = Some st \<and>
     prod st = P_Slot default_order h \<and> cons st = K_Data t \<and> slot (ring st) h \<noteq> slot (ring st) t"
proof -
  obtain q where q: "make_lockfree 2 = Some q" "capacity q = 2" "mask_bits q = 1"
    "length (buffer q) = 2" "head q = 0" "tail q = 0" "\<not> lf_done q"
    using make_lockfree_2 by blast
  obtain st where st: "lf_run [Push_load_head default_order, Push_load_tail, Push_write, Push_publish,
      Push_load_head default_order, Push_load_tail, Pop_load_tail, Pop_load_head] (lf_init q) = Some st"
    "lf_pushed st = [default_order]" "prod st = P_Slot default_order 1" "cons st = K_Data 0"
    using q(2-) by (simp add: lf_init_def slot_def)
  then show ?thesis using q(1) lockfree_race_free [OF q(1) st(1) _ st(3,4)] by auto
qed

section \<open>Wrap-around\<close>

text \<open>
  \<open>push\<close> compares \<open>head - tail\<close> with the capacity, which is right across the wrap of
  the counters; \<open>pop\<close> compares \<open>tail < head\<close>, which is not.  When the push numbered
  \<open>2 ^ 64\<close> wraps \<open>head\<close> to zero, the order it wrote is in the ring and \<open>pop\<close> does not see it:
  it waits, or reports the queue as drained.
\<close>

lemma lockfree_pop_misses_after_wrap:
  assumes "ring_ok q" and "head q = - 1" and "tail q = - 1"
  shows "\<exists>q'. lf_push x q = Some q' \<and> buffer q' ! slot q' (tail q') = x \<and>
           head q' - tail q' = 1 \<and> lf_pop q' = (if lf_done q then Drained else Waiting, q')"
proof -
  have n: "unat (capacity q) = length (buffer q)" "0 < length (buffer q)" using ring_size [OF assms(1)] by auto
  then have "has_slot q" using assms(2,3) by (simp add: has_slot_def word_less_nat_alt)
  moreover have "slot q (- 1) < length (buffer q)" using n(2) by (simp add: slot_mod [OF assms(1)])
  ultimately show ?thesis using assms by (simp add: lf_push_def lf_pop_def slot_def)
qed

lemma lockfree_pop_misses_after_wrap_sample:
  "\<exists>q q'. ring_ok q \<and> lf_push default_order q = Some q' \<and> lf_pop q' = (Waiting, q')"
proof -
  obtain q where q: "make_lockfree 2 = Some q" "\<not> lf_done q" using make_lockfree_2 by blast
  let ?q = "q\<lparr>head := - 1, tail := - 1\<rparr>"
  have ok: "ring_ok ?q" using make_lockfree_inv [OF q(1)] by (simp add: lf_inv_def ring_ok_def)
  obtain q' where "lf_push default_order ?q = Some q'" "lf_pop q' = (Waiting, q')"
    using lockfree_pop_misses_after_wrap [OF ok, of default_order] q(2) by auto
  with ok show ?thesis by blast
qed

end
