(* ===== verification/Processes.thy ===== *)
theory Processes
  imports EngineProps TradeLog ShardRouter LeaderLock MutexQueue LockFreeConcurrent
begin

text \<open>
  The consumer loops of the executables: \<open>src/server_main.cpp\<close>, one matching engine behind a
  queue, and \<open>src/engine_main.cpp\<close>, a shard's replica with one matching engine per symbol, the
  leader lock and the trade log.  A line the program prints is a value of \<open>out_line\<close>.

  The specification of a replica is \<open>step_books\<close>: what an order does to the books of the shard,
  with no lock, no disk and no output.  Every replica refines it, whatever it finds the lock
  file's owner to be, and so all replicas that saw the same orders have the same books.
\<close>

section \<open>The single-process server\<close>

datatype out_line =
  Trade_line Trade | Reject_line Rejection | Promoted_line | Warning_line "u8 list" u32 | Serving_line "u8 list"

fun result_lines :: "SubmitResult \<Rightarrow> out_line list" where
  "result_lines (Trades ts) = map Trade_line ts"
| "result_lines (Rejected r) = [Reject_line r]"

definition server_handle :: "Order \<Rightarrow> MatchingEngine \<times> out_line list \<Rightarrow> (MatchingEngine \<times> out_line list) option" where
  "server_handle x = (\<lambda>(e, out).
     case submit_order x e of
       None \<Rightarrow> None
     | Some (result, e') \<Rightarrow> Some (e', out @ result_lines result))"

definition server_consumer ::
  "('q \<Rightarrow> pop_result \<times> 'q) \<Rightarrow> nat \<Rightarrow> 'q \<Rightarrow> (MatchingEngine \<times> out_line list) option" where
  "server_consumer pop n q = map_option snd (consume pop server_handle n q (make_engine lit_10, []))"

section \<open>The engine process\<close>

record engine_proc =
  shard_id :: u32
  proc_shards :: u32
  leader :: ShardLeaderLock
  active :: bool
  engines :: "u8 list \<rightharpoonup> MatchingEngine"
  trade_topic :: TradeLog
  proc_out :: "out_line list"

fun result_trades :: "SubmitResult \<Rightarrow> Trade list" where
  "result_trades (Trades ts) = ts"
| "result_trades (Rejected r) = []"

definition publish_all :: "Trade list \<Rightarrow> TradeLog \<Rightarrow> fs \<Rightarrow> fs" where
  "publish_all ts l d = foldl (\<lambda>d t. publish t l d) d ts"

text \<open>Start-up: the first attempt at the lock, before any order is read.\<close>

definition make_proc :: "u32 \<Rightarrow> u32 \<Rightarrow> ShardLeaderLock \<Rightarrow> TradeLog \<Rightarrow> nat option \<Rightarrow> engine_proc \<times> nat option" where
  "make_proc shard n l lg owner =
     (case try_acquire l owner of
        (ok, l', owner') \<Rightarrow>
          (\<lparr>shard_id = shard, proc_shards = n, leader = l', active = ok, engines = Map.empty,
            trade_topic = lg, proc_out = []\<rparr>, owner'))"

text \<open>The attempt at promotion at the top of the loop.\<close>

definition promote :: "engine_proc \<Rightarrow> nat option \<Rightarrow> engine_proc \<times> nat option" where
  "promote p owner =
     (if active p then (p, owner)
      else case try_acquire (leader p) owner of
             (ok, l', owner') \<Rightarrow>
               (p\<lparr>leader := l', active := ok,
                  proc_out := proc_out p @ (if ok then [Promoted_line] else [])\<rparr>, owner'))"

definition engine_of :: "(u8 list \<rightharpoonup> MatchingEngine) \<Rightarrow> u8 list \<Rightarrow> MatchingEngine" where
  "engine_of m s = (case m s of None \<Rightarrow> make_engine lit_10 | Some e \<Rightarrow> e)"

text \<open>
  \<open>main\<close> up to its loop: the shard's queue with the replica's own checkpoint, the lock object on
  the descriptor \<open>fd\<close> that opening the lock file gave, and the trade log.
\<close>

definition engine_start ::
  "string \<Rightarrow> u32 \<Rightarrow> u32 \<Rightarrow> string \<Rightarrow> nat option \<Rightarrow> nat option \<Rightarrow> fs \<Rightarrow>
     queue_error + (LogBackedOrderQueue \<times> engine_proc \<times> nat option \<times> fs)" where
  "engine_start log_base shard n replica_id fd owner d =
     (case make_log_queue (shard_base log_base (unat shard)) replica_id d of
        Inl err \<Rightarrow> Inl err
      | Inr (q, d1) \<Rightarrow>
          (case make_trade_log (shard_base log_base (unat shard)) d1 of
             Inl err \<Rightarrow> Inl err
           | Inr (lg, d2) \<Rightarrow>
               (case make_proc shard n (make_leader_lock fd) lg owner of
                  (p, owner') \<Rightarrow> Inr (q, p, owner', d2))))"

text \<open>
  The body of the loop but for the disk: the trades it publishes, the process, the owner of
  the lock.  \<open>None\<close> is the remainder by zero shards or the matching loop's undefined case.
\<close>

definition engine_core ::
  "Order \<Rightarrow> engine_proc \<Rightarrow> nat option \<Rightarrow> (Trade list \<times> engine_proc \<times> nat option) option" where
  "engine_core x p0 owner0 =
     (case promote p0 owner0 of (p, owner) \<Rightarrow>
     (let s = symbol_str x
      in case shard_for_symbol s (proc_shards p) of
           None \<Rightarrow> None
         | Some expected \<Rightarrow>
             (let warn = (if expected \<noteq> shard_id p then [Warning_line s expected] else []);
                  serving = (if engines p s = None \<and> active p then [Serving_line s] else [])
              in case submit_order x (engine_of (engines p) s) of
                   None \<Rightarrow> None
                 | Some (result, e') \<Rightarrow>
                     (let p' = p\<lparr>engines := (engines p)(s \<mapsto> e'),
                                 proc_out := proc_out p @ warn @ serving\<rparr>
                      in if \<not> active p then Some ([], p', owner)
                         else Some (result_trades result,
                                    p'\<lparr>proc_out := proc_out p' @ result_lines result\<rparr>, owner)))))"

text \<open>
  \<open>while (queue.pop(order))\<close>, with at most \<open>n\<close> calls of \<open>pop\<close>; the queue's files and the trade
  log are on one disk.
\<close>

fun engine_loop ::
  "nat \<Rightarrow> LogBackedOrderQueue \<Rightarrow> engine_proc \<Rightarrow> nat option \<Rightarrow> fs \<Rightarrow>
     (LogBackedOrderQueue \<times> engine_proc \<times> nat option \<times> fs) option" where
  "engine_loop 0 q p owner d = None"
| "engine_loop (Suc n) q p owner d =
     (case log_pop (q, d) of
        (Popped x, q', d') \<Rightarrow>
          (case engine_core x p owner of
             None \<Rightarrow> None
           | Some (ts, p', owner') \<Rightarrow> engine_loop n q' p' owner' (publish_all ts (trade_topic p') d'))
      | (Drained, q', d') \<Rightarrow> Some (q', p, owner, d')
      | (Waiting, q', d') \<Rightarrow> None
      | (Threw err, q', d') \<Rightarrow> None)"

section \<open>The specification of a replica\<close>

definition step_books :: "Order \<Rightarrow> (u8 list \<rightharpoonup> MatchingEngine) \<Rightarrow> (u8 list \<rightharpoonup> MatchingEngine) option" where
  "step_books x m =
     (case submit_order x (engine_of m (symbol_str x)) of
        None \<Rightarrow> None
      | Some (result, e') \<Rightarrow> Some (m(symbol_str x \<mapsto> e')))"

text \<open>The trades of an order, which the active replica publishes.\<close>

definition book_trades :: "Order \<Rightarrow> (u8 list \<rightharpoonup> MatchingEngine) \<Rightarrow> Trade list" where
  "book_trades x m =
     (case submit_order x (engine_of m (symbol_str x)) of
        None \<Rightarrow> [] | Some (result, e') \<Rightarrow> result_trades result)"

fun run_trades :: "Order list \<Rightarrow> (u8 list \<rightharpoonup> MatchingEngine) \<Rightarrow> Trade list" where
  "run_trades [] m = []"
| "run_trades (x # xs) m =
     (case step_books x m of None \<Rightarrow> [] | Some m' \<Rightarrow> book_trades x m @ run_trades xs m')"

text \<open>
  A replica in an environment: with each order comes the owner of the lock file the replica
  finds when it handles it.
\<close>

fun run_replica :: "(nat option \<times> Order) list \<Rightarrow> engine_proc \<Rightarrow> (Trade list \<times> engine_proc) option" where
  "run_replica [] p = Some ([], p)"
| "run_replica ((owner, x) # xs) p =
     (case engine_core x p owner of
        None \<Rightarrow> None
      | Some (ts, p', owner') \<Rightarrow>
          (case run_replica xs p' of
             None \<Rightarrow> None
           | Some (ts', p'') \<Rightarrow> Some (ts @ ts', p'')))"

section \<open>One step of a replica\<close>

lemma promote_fields:
  "promote p owner = (p', owner') \<Longrightarrow>
     engines p' = engines p \<and> proc_shards p' = proc_shards p \<and> shard_id p' = shard_id p \<and>
     trade_topic p' = trade_topic p \<and> (active p \<longrightarrow> active p')"
  by (auto simp: promote_def split: if_splits prod.splits)

text \<open>Handling an order is the specification's step, and publishes its trades if active.\<close>

lemma engine_core_refines:
  assumes "proc_shards p \<noteq> 0"
  shows "case step_books x (engines p) of
           None \<Rightarrow> engine_core x p owner = None
         | Some m \<Rightarrow> \<exists>p' owner'.
             engine_core x p owner =
               Some (if active p' then book_trades x (engines p) else [], p', owner') \<and>
             engines p' = m \<and> proc_shards p' = proc_shards p \<and> shard_id p' = shard_id p \<and>
             trade_topic p' = trade_topic p \<and> active p' = active (fst (promote p owner))"
proof -
  obtain p1 o1 where pr: "promote p owner = (p1, o1)" by fastforce
  note f = promote_fields [OF pr]
  obtain k where k: "shard_for_symbol (symbol_str x) (proc_shards p1) = Some k"
    using assms f by (simp add: shard_for_symbol_def)
  show ?thesis
  proof (cases "submit_order x (engine_of (engines p) (symbol_str x))")
    case None
    then show ?thesis using f k pr by (simp add: step_books_def engine_core_def Let_def)
  next
    case (Some r)
    then show ?thesis
      using f k pr
      by (cases r) (cases "active p1"; simp add: step_books_def engine_core_def book_trades_def Let_def)
  qed
qed

lemma engine_core_Some:
  assumes "proc_shards p \<noteq> 0" and "engine_core x p owner = Some (ts, p', owner')"
  shows "step_books x (engines p) = Some (engines p') \<and> proc_shards p' = proc_shards p \<and>
         trade_topic p' = trade_topic p \<and> active p' = active (fst (promote p owner)) \<and>
         ts = (if active p' then book_trades x (engines p) else [])"
  using engine_core_refines [OF assms(1), of x owner] assms(2)
  by (cases "step_books x (engines p)") auto

lemma active_stays: "active p \<Longrightarrow> active (fst (promote p owner))"
  by (simp add: promote_def)

section \<open>The books of a shard\<close>

definition books_ok :: "(u8 list \<rightharpoonup> MatchingEngine) \<Rightarrow> bool" where
  "books_ok m = (\<forall>s. book_ok (book (engine_of m s)))"

lemma submit_order_total:
  assumes "book_ok (book e)" and "valid_order x"
  shows "\<exists>r e'. submit_order x e = Some (r, e') \<and> book_ok (book e')"
  using assms(1)
proof (cases rule: submit_order_cases [of e x])
  case rejected
  then show ?thesis using assms(1) by simp
next
  case (matched i os ts e2)
  then show ?thesis using matched_sides(1) [OF assms matched(2,3)] by simp
qed

lemma engine_of_upd: "engine_of (m(s \<mapsto> e)) s' = (if s' = s then e else engine_of m s')"
  by (simp add: engine_of_def)

lemma books_ok_empty: "books_ok Map.empty"
  using engine_ok_start by (simp add: books_ok_def engine_of_def engine_ok_def)

lemma step_books_total:
  assumes "books_ok m" and "valid_order x"
  shows "\<exists>m'. step_books x m = Some m' \<and> books_ok m'"
proof -
  have "book_ok (book (engine_of m (symbol_str x)))" using assms(1) by (simp add: books_ok_def)
  then obtain r e' where "submit_order x (engine_of m (symbol_str x)) = Some (r, e')" "book_ok (book e')"
    using submit_order_total [OF _ assms(2)] by blast
  then show ?thesis using assms(1) by (simp add: step_books_def books_ok_def engine_of_upd)
qed

lemma run_books_total:
  "books_ok m \<Longrightarrow> list_all valid_order xs \<Longrightarrow> \<exists>m'. run_orders step_books xs m = Some m' \<and> books_ok m'"
proof (induction xs arbitrary: m)
  case Nil
  then show ?case by simp
next
  case (Cons x xs)
  then obtain m1 where "step_books x m = Some m1" "books_ok m1" using step_books_total [of m x] by auto
  then show ?case using Cons by simp
qed

text \<open>The engine of a symbol sees the orders of that symbol and no others.\<close>

definition submit_step :: "Order \<Rightarrow> MatchingEngine \<Rightarrow> MatchingEngine option" where
  "submit_step x e = map_option snd (submit_order x e)"

lemma run_books_isolated:
  "run_orders step_books xs m = Some m' \<Longrightarrow>
     run_orders submit_step (filter (\<lambda>x. symbol_str x = s) xs) (engine_of m s) = Some (engine_of m' s)"
proof (induction xs arbitrary: m)
  case Nil
  then show ?case by simp
next
  case (Cons x xs)
  then obtain m1 where m1: "step_books x m = Some m1" "run_orders step_books xs m1 = Some m'"
    by (auto split: option.splits)
  then obtain e where e: "submit_step x (engine_of m (symbol_str x)) = Some e"
    "m1 = m(symbol_str x \<mapsto> e)"
    by (auto simp: step_books_def submit_step_def split: option.splits)
  have "engine_of m1 s = (if s = symbol_str x then e else engine_of m s)"
    using e(2) by (simp only: engine_of_upd)
  then show ?case using Cons.IH [OF m1(2)] e(1) by auto
qed

section \<open>Replicas\<close>

lemma run_replica_books:
  "proc_shards p \<noteq> 0 \<Longrightarrow> length owners = length xs \<Longrightarrow>
     map_option (\<lambda>(ts, p'). engines p') (run_replica (zip owners xs) p) = run_orders step_books xs (engines p)"
proof (induction owners xs arbitrary: p rule: list_induct2')
  case (4 owner owners x xs)
  show ?case
  proof (cases "engine_core x p owner")
    case None
    then show ?thesis
      using engine_core_refines [OF 4(2), of x owner] by (auto split: option.splits)
  next
    case (Some r)
    obtain ts p' owner' where r: "r = (ts, p', owner')" by (metis prod_cases3)
    note step = engine_core_Some [OF 4(2) Some [unfolded r]]
    have "map_option (\<lambda>(ts, p'). engines p') (run_replica (zip owners xs) p') =
        run_orders step_books xs (engines p')"
      using 4 step by simp
    then show ?thesis using Some r step by (auto split: option.splits)
  qed
qed simp_all

text \<open>
  All replicas of a shard agree.  Two replicas that start with the same books and
  handle the same valid orders both handle all of them and end with the same books, whatever
  each of them finds the lock file's owner to be at each order, and whichever of them is
  active.
\<close>

lemma replicas_agree:
  assumes "proc_shards p \<noteq> 0" and "proc_shards p2 \<noteq> 0" and "engines p = engines p2"
    and "books_ok (engines p)" and "list_all valid_order xs"
    and "length owners = length xs" and "length owners2 = length xs"
  shows "\<exists>ts p' ts2 p2'. run_replica (zip owners xs) p = Some (ts, p') \<and>
           run_replica (zip owners2 xs) p2 = Some (ts2, p2') \<and> engines p' = engines p2'"
proof -
  obtain m where m: "run_orders step_books xs (engines p) = Some m"
    using run_books_total [OF assms(4,5)] by blast
  then show ?thesis
    using run_replica_books [OF assms(1,6)] run_replica_books [OF assms(2,7)] assms(3) by auto
qed

definition sample_proc :: "nat option \<Rightarrow> nat option \<Rightarrow> engine_proc" where
  "sample_proc fd owner = fst (make_proc 0 4 (make_leader_lock fd) \<lparr>tl_path = ''t''\<rparr> owner)"

lemma sample_proc_simps [simp]:
  "engines (sample_proc fd owner) = Map.empty" "proc_shards (sample_proc fd owner) = 4"
  "tl_path (trade_topic (sample_proc fd owner)) = ''t''"
  by (simp_all add: sample_proc_def make_proc_def split: prod.split)

lemma sample_orders_valid: "list_all valid_order [ask_100, bid_100]"
  by (simp add: valid_order_def sample_orders)

lemma replicas_agree_sample:
  "\<exists>ts p ts2 p2. run_replica (zip [Some 5, Some 5] [ask_100, bid_100]) (sample_proc (Some 5) None) = Some (ts, p) \<and>
     run_replica (zip [Some 5, None] [ask_100, bid_100]) (sample_proc (Some 6) (Some 5)) = Some (ts2, p2) \<and>
     engines p = engines p2"
  using books_ok_empty sample_orders_valid by (intro replicas_agree) simp_all

text \<open>What an active replica publishes.\<close>

lemma active_publishes:
  "proc_shards p \<noteq> 0 \<Longrightarrow> length owners = length xs \<Longrightarrow> active p \<Longrightarrow>
     run_replica (zip owners xs) p = Some (ts, p') \<Longrightarrow> ts = run_trades xs (engines p)"
proof (induction owners xs arbitrary: p ts rule: list_induct2')
  case (4 owner owners x xs)
  obtain ts1 p1 owner1 ts2 where core: "engine_core x p owner = Some (ts1, p1, owner1)"
    and rec: "run_replica (zip owners xs) p1 = Some (ts2, p')" and ts: "ts = ts1 @ ts2"
    using 4(5) by (auto split: option.splits prod.splits)
  note step = engine_core_Some [OF 4(2) core]
  then have "active p1" using active_stays [OF 4(4)] by simp
  then have "ts2 = run_trades xs (engines p1)" using 4(1) [OF _ _ _ rec] 4(2,3) step by simp
  then show ?case using step ts \<open>active p1\<close> by simp
qed simp_all

lemma promote_busy:
  "\<not> active p \<Longrightarrow> leader p = \<lparr>ll_fd = Some fd, ll_held = False\<rparr> \<Longrightarrow> owner \<noteq> None \<Longrightarrow> owner \<noteq> Some fd \<Longrightarrow>
     promote p owner = (p, owner)"
  by (simp add: promote_def try_acquire_def flock_nb_def Let_def)

lemma promote_free:
  "leader p = \<lparr>ll_fd = Some fd, ll_held = False\<rparr> \<Longrightarrow> owner = None \<or> owner = Some fd \<Longrightarrow>
     active (fst (promote p owner))"
  by (auto simp: promote_def try_acquire_def flock_nb_def Let_def)

lemma engine_core_leader:
  "engine_core x p owner = Some (ts, p', owner') \<Longrightarrow> leader p' = leader (fst (promote p owner))"
  by (auto simp: engine_core_def Let_def split: prod.splits option.splits if_splits)

text \<open>
  A standby whose lock object has descriptor \<open>fd\<close> is silent as long as another
  replica owns the lock file, and from the first order at which it finds the lock free it
  publishes the trades of every order.  Those trades are the ones of a replica that had been
  active all along, since they come from the books after all the orders before.
\<close>

lemma standby_takes_over:
  assumes "proc_shards p \<noteq> 0" and "\<not> active p" and "leader p = \<lparr>ll_fd = Some fd, ll_held = False\<rparr>"
    and "length owners = length xs" and "run_replica (zip owners xs) p = Some (ts, p')"
    and "k = length (takeWhile (\<lambda>owner. owner \<noteq> None \<and> owner \<noteq> Some fd) owners)"
  shows "\<exists>m. run_orders step_books (take k xs) (engines p) = Some m \<and> ts = run_trades (drop k xs) m"
  using assms(4,1,2,3,5,6)
proof (induction owners xs arbitrary: p ts k rule: list_induct2)
  case Nil
  then show ?case by simp
next
  case (Cons owner owners x xs)
  obtain ts1 p1 owner1 ts2 where core: "engine_core x p owner = Some (ts1, p1, owner1)"
    and rec: "run_replica (zip owners xs) p1 = Some (ts2, p')" and ts: "ts = ts1 @ ts2"
    using Cons.prems(4) by (auto split: option.splits prod.splits)
  note step = engine_core_Some [OF Cons.prems(1) core]
  show ?case
  proof (cases "owner \<noteq> None \<and> owner \<noteq> Some fd")
    case True
    then have pr: "promote p owner = (p, owner)" using promote_busy [OF Cons.prems(2,3)] by simp
    then have p1: "leader p1 = leader p" "\<not> active p1" "ts1 = []"
      using engine_core_leader [OF core] step Cons.prems(2) by simp_all
    obtain m where "run_orders step_books (take (k - 1) xs) (engines p1) = Some m"
      "ts2 = run_trades (drop (k - 1) xs) m"
      using Cons.IH [OF _ _ _ rec, of "k - 1"] step p1 Cons.prems(1,3,5) True by auto
    then show ?thesis using True Cons.prems(5) step p1(3) ts by auto
  next
    case False
    then have "active p1" using promote_free [OF Cons.prems(3)] step by auto
    then have "ts2 = run_trades xs (engines p1)"
      using active_publishes [OF _ Cons.hyps _ rec] step Cons.prems(1) by simp
    then show ?thesis using False Cons.prems(5) step ts \<open>active p1\<close> by auto
  qed
qed

lemma sample_symbol: "symbol_str bid_100 = symbol_str ask_100"
  by (simp add: sample_orders symbol_str_def)

lemma sample_books:
  "step_books ask_100 Map.empty = Some [symbol_str ask_100 \<mapsto> engine_1]"
  "step_books bid_100 [symbol_str ask_100 \<mapsto> engine_1] = Some [symbol_str ask_100 \<mapsto> engine_2]"
  "book_trades bid_100 [symbol_str ask_100 \<mapsto> engine_1] = [trade_3]"
  "book_trades ask_100 Map.empty = []"
  using run_sell run_buy
  by (simp_all add: step_books_def book_trades_def engine_of_def engine_0_def sample_symbol)

lemma standby_takes_over_sample:
  "\<exists>p. run_replica (zip [Some 5, None] [ask_100, bid_100]) (sample_proc (Some 6) (Some 5)) = Some ([trade_3], p)"
proof -
  let ?p = "sample_proc (Some 6) (Some 5)" and ?owners = "[Some 5, None]" and ?xs = "[ask_100, bid_100]"
  have p: "\<not> active ?p" "leader ?p = \<lparr>ll_fd = Some 6, ll_held = False\<rparr>"
    by (simp_all add: sample_proc_def make_proc_def make_leader_lock_def try_acquire_def flock_nb_def Let_def)
  have "run_orders step_books ?xs (engines ?p) \<noteq> None" by (simp add: sample_books)
  then obtain ts p' where r: "run_replica (zip ?owners ?xs) ?p = Some (ts, p')"
    using run_replica_books [of ?p ?owners ?xs] by fastforce
  have "ts = [trade_3]"
    using standby_takes_over [OF _ p _ r refl] by (simp add: sample_books)
  with r show ?thesis by blast
qed

section \<open>The engine process and the shard's files\<close>

definition apart :: "TradeLog \<Rightarrow> LogBackedOrderQueue \<Rightarrow> bool" where
  "apart lg q = (tl_path lg \<noteq> log_path q \<and> tl_path lg \<noteq> checkpoint_path q)"

lemma publish_all_Cons: "publish_all (t # ts) lg d = publish_all ts lg (publish t lg d)"
  by (simp add: publish_all_def)

lemma publish_all_bytes:
  "file_bytes path (publish_all ts lg d) =
     file_bytes path d @ (if path = tl_path lg then concat (map enc_trade ts) else [])"
proof (induction ts arbitrary: d)
  case (Cons t ts)
  show ?case
    using Cons.IH [of "publish t lg d"]
    by (simp add: publish_all_Cons) (simp add: publish_def fwrite_end_def)
qed (simp add: publish_all_def)

lemma publish_all_frame:
  "can_open (publish_all ts lg d) = can_open d \<and>
   (path \<noteq> tl_path lg \<longrightarrow> files (publish_all ts lg d) path = files d path)"
proof (induction ts arbitrary: d)
  case (Cons t ts)
  show ?case
    using Cons.IH [of "publish t lg d"]
    by (simp add: publish_all_Cons) (simp add: publish_def fwrite_end_def files_set)
qed (simp add: publish_all_def)

text \<open>The queue depends on its two files only.\<close>

lemma log_frame:
  assumes "files d' (log_path q) = files d (log_path q)"
    and "files d' (checkpoint_path q) = files d (checkpoint_path q)" and "can_open d' = can_open d"
  shows "log_inv (q, d') = log_inv (q, d)" and "log_contents (q, d') = log_contents (q, d)"
    and "opened base cid (q, d') = opened base cid (q, d)"
proof -
  have b: "file_bytes (log_path q) d' = file_bytes (log_path q) d"
    using assms(1) by (simp add: file_bytes_def)
  have o: "log_orders (q, d') = log_orders (q, d)" using b by (rule log_orders_frame)
  have "read_checkpoint (checkpoint_path q) d' = read_checkpoint (checkpoint_path q) d"
    using assms(2,3) by (simp add: read_checkpoint_def fopen_read_def)
  then show "log_inv (q, d') = log_inv (q, d)" using b assms(3) o by (simp add: log_inv_def)
  show "log_contents (q, d') = log_contents (q, d)" using o by (simp add: log_contents_def)
  show "opened base cid (q, d') = opened base cid (q, d)" using assms(1,3) by (auto simp: opened_def) metis
qed

lemma publish_all_log:
  assumes "apart lg q"
  shows "log_inv (q, publish_all ts lg d) = log_inv (q, d)"
    and "log_contents (q, publish_all ts lg d) = log_contents (q, d)"
proof -
  have "files (publish_all ts lg d) (checkpoint_path q) = files d (checkpoint_path q)"
    "files (publish_all ts lg d) (log_path q) = files d (log_path q)"
    using assms publish_all_frame [of ts lg d "checkpoint_path q"] publish_all_frame [of ts lg d "log_path q"]
    by (auto simp: apart_def)
  then show "log_inv (q, publish_all ts lg d) = log_inv (q, d)"
    and "log_contents (q, publish_all ts lg d) = log_contents (q, d)"
    using log_frame publish_all_frame by blast+
qed

lemma log_pop_frame:
  assumes "log_pop (q, d) = (r, q', d')"
  shows "log_path q' = log_path q \<and> checkpoint_path q' = checkpoint_path q \<and>
         can_open d' = can_open d \<and>
         (path \<noteq> checkpoint_path q \<longrightarrow> files d' path = files d path \<and> file_bytes path d' = file_bytes path d)"
  using assms
  by (auto simp: log_pop_def Let_def write_checkpoint_def fopen_write_def fwrite_end_def files_set
      split: option.splits sum.splits if_splits)

text \<open>What the loop of an engine process does with the orders its queue holds.\<close>

definition loop_result ::
  "Order list \<Rightarrow> LogBackedOrderQueue \<Rightarrow> engine_proc \<Rightarrow> fs \<Rightarrow>
     (LogBackedOrderQueue \<times> engine_proc \<times> nat option \<times> fs) option \<Rightarrow> bool" where
  "loop_result xs q p d res =
     (case res of
        None \<Rightarrow> False
      | Some (q', p', owner', d') \<Rightarrow>
          run_orders step_books xs (engines p) = Some (engines p') \<and>
          log_inv (q', d') \<and> log_contents (q', d') = [] \<and>
          log_path q' = log_path q \<and> checkpoint_path q' = checkpoint_path q \<and>
          can_open d' = can_open d \<and> (files d (log_path q) \<noteq> None \<longrightarrow> files d' (log_path q) \<noteq> None) \<and>
          (active p \<longrightarrow> file_bytes (tl_path (trade_topic p)) d' =
             file_bytes (tl_path (trade_topic p)) d @ concat (map enc_trade (run_trades xs (engines p)))))"

lemma engine_loop_result:
  "log_inv (q, d) \<Longrightarrow> lq_done q \<Longrightarrow> proc_shards p \<noteq> 0 \<Longrightarrow> books_ok (engines p) \<Longrightarrow>
     list_all valid_order (log_contents (q, d)) \<Longrightarrow> apart (trade_topic p) q \<Longrightarrow>
     length (log_contents (q, d)) < n \<Longrightarrow>
     loop_result (log_contents (q, d)) q p d (engine_loop n q p owner d)"
proof (induction n arbitrary: q d p owner)
  case 0
  then show ?case by simp
next
  case (Suc n)
  show ?case
  proof (cases "log_contents (q, d)")
    case Nil
    then show ?thesis using logq.pop_at_end [of "(q, d)"] Suc.prems by (simp add: loop_result_def)
  next
    case (Cons x xs)
    then obtain q1 d1 where pop: "log_pop (q, d) = (Popped x, q1, d1)" and inv1: "log_inv (q1, d1)"
      and c1: "log_contents (q1, d1) = xs" and done1: "lq_done q1"
      using logq.pop_takes_first [of "(q, d)" x xs] Suc.prems by auto
    note fr = log_pop_frame [OF pop]
    obtain m1 where m1: "step_books x (engines p) = Some m1" "books_ok m1"
      using step_books_total [of "engines p" x] Suc.prems(4,5) Cons by auto
    obtain ts p1 owner1 where core: "engine_core x p owner = Some (ts, p1, owner1)"
      using engine_core_refines [OF Suc.prems(3), of x owner] m1 by auto
    note step = engine_core_Some [OF Suc.prems(3) core]
    let ?d = "publish_all ts (trade_topic p1) d1"
    have ap: "apart (trade_topic p1) q1" using Suc.prems(6) step fr by (simp add: apart_def)
    note pl = publish_all_log [OF ap, where ts = ts and d = d1]
    have IH: "loop_result xs q1 p1 ?d (engine_loop n q1 p1 owner1 ?d)"
      using Suc.IH [of q1 ?d p1 owner1] pl inv1 c1 done1 step m1 ap Suc.prems(3,5,7) Cons by simp
    have eq: "engine_loop (Suc n) q p owner d = engine_loop n q1 p1 owner1 ?d" using pop core by simp
    have b: "file_bytes (tl_path (trade_topic p)) ?d =
        file_bytes (tl_path (trade_topic p)) d @ concat (map enc_trade ts)"
      using publish_all_bytes step Suc.prems(6) fr [of "tl_path (trade_topic p)"]
      by (simp add: apart_def)
    have act: "active p \<Longrightarrow> active p1 \<and> ts = book_trades x (engines p)"
      using step active_stays by simp
    obtain q2 p2 owner2 d2 where rec: "engine_loop n q1 p1 owner1 ?d = Some (q2, p2, owner2, d2)"
      using IH by (auto simp: loop_result_def split: option.splits)
    have t: "trade_topic p1 = trade_topic p" "step_books x (engines p) = Some (engines p1)"
      using step by simp_all
    have "log_path q \<noteq> checkpoint_path q" using Suc.prems(1) by (simp add: log_inv_def)
    then have f: "can_open ?d = can_open d" "files ?d (log_path q) = files d (log_path q)"
      using fr [of "log_path q"] publish_all_frame [of ts "trade_topic p1" d1 "log_path q1"] ap
      by (auto simp: apart_def)
    show ?thesis
      unfolding eq rec Cons
      using IH [unfolded rec] fr [of "tl_path (trade_topic p)"] t b act f by (auto simp: loop_result_def)
  qed
qed

text \<open>A replica writes its checkpoint and the trade log, no other file.\<close>

lemma engine_core_topic: "engine_core x p owner = Some (ts, p', owner') \<Longrightarrow> trade_topic p' = trade_topic p"
  using promote_fields [of p owner]
  by (auto simp: engine_core_def Let_def split: prod.splits option.splits if_splits)

lemma engine_loop_frame:
  "engine_loop n q p owner d = Some (q', p', owner', d') \<Longrightarrow> path \<noteq> checkpoint_path q \<Longrightarrow>
     path \<noteq> tl_path (trade_topic p) \<Longrightarrow> files d' path = files d path"
proof (induction n arbitrary: q p owner d)
  case 0
  then show ?case by simp
next
  case (Suc n)
  obtain r q1 d1 where pop: "log_pop (q, d) = (r, q1, d1)" by (metis prod_cases3)
  note fr = log_pop_frame [OF pop, of path]
  show ?case
  proof (cases r)
    case (Popped x)
    obtain ts p1 owner1 where core: "engine_core x p owner = Some (ts, p1, owner1)"
      and rec: "engine_loop n q1 p1 owner1 (publish_all ts (trade_topic p1) d1) = Some (q', p', owner', d')"
      using Suc.prems(1) pop Popped by (auto split: option.splits)
    have "files d' path = files (publish_all ts (trade_topic p1) d1) path"
      using Suc.IH [OF rec] Suc.prems(2,3) fr engine_core_topic [OF core] by simp
    then show ?thesis
      using publish_all_frame [of ts "trade_topic p1" d1 path] engine_core_topic [OF core] Suc.prems(2,3) fr by simp
  qed (use Suc.prems pop fr in auto)
qed

section \<open>Start and restart\<close>

definition trades_file :: "string \<Rightarrow> string" where
  "trades_file base = base @ ''_trades.log''"

lemma trades_file_apart: "trades_file base \<noteq> log_file base" "trades_file base \<noteq> offset_file base cid"
  using arg_cong [of "trades_file base" "offset_file base cid" last]
  by (auto simp: trades_file_def log_file_def offset_file_def)

lemma trades_file_not_shard_log: "trades_file (shard_base base k) \<noteq> log_file (shard_base base i)"
proof
  assume "trades_file (shard_base base k) = log_file (shard_base base i)"
  then have "to_string_nat k @ ''_trades'' @ ''.log'' = to_string_nat i @ ''.log''"
    by (simp add: trades_file_def log_file_def shard_base_def)
  then have "to_string_nat k @ ''_trades'' = to_string_nat i"
    unfolding append_assoc [symmetric] append_same_eq .
  then have "CHR ''_'' \<in> set (to_string_nat i)" by (metis UnI2 list.set_intros(1) set_append)
  then show False using to_string_digits by (fastforce simp: is_digit_def)
qed

lemma engine_start_split:
  assumes "engine_start base k n rid fd owner d0 = Inr (q, p, owner', d)"
  shows "\<exists>d1. make_log_queue (shard_base base (unat k)) rid d0 = Inr (q, d1) \<and>
    can_open d1 (trades_file (shard_base base (unat k))) \<and>
    d = set_file (trades_file (shard_base base (unat k)))
          (file_bytes (trades_file (shard_base base (unat k))) d1) d1 \<and>
    engines p = Map.empty \<and> proc_shards p = n \<and>
    trade_topic p = \<lparr>tl_path = trades_file (shard_base base (unat k))\<rparr>"
  using assms
  by (auto simp: engine_start_def make_trade_log_def make_proc_def fopen_append_def trades_file_def Let_def
      split: sum.splits prod.splits if_splits)

lemma engine_start_facts:
  assumes "engine_start base k n rid fd owner d0 = Inr (q, p, owner', d)"
  shows "opened (shard_base base (unat k)) rid (q, d)" and "engines p = Map.empty" and "proc_shards p = n"
    and "apart (trade_topic p) q"
proof -
  let ?b = "shard_base base (unat k)"
  obtain d1 where mk: "make_log_queue ?b rid d0 = Inr (q, d1)"
    and d: "d = set_file (trades_file ?b) (file_bytes (trades_file ?b) d1) d1"
    and p: "engines p = Map.empty" "proc_shards p = n" "trade_topic p = \<lparr>tl_path = trades_file ?b\<rparr>"
    using engine_start_split [OF assms] by blast
  show "engines p = Map.empty" "proc_shards p = n" by (fact p)+
  have o: "opened ?b rid (q, d1)" by (rule make_log_queue_opened [OF mk])
  then show "opened ?b rid (q, d)" using trades_file_apart [of ?b] d by (auto simp: opened_def files_set)
  show "apart (trade_topic p) q" using o p(3) trades_file_apart [of ?b] by (simp add: apart_def opened_def)
qed

lemma engine_start_frame:
  assumes "engine_start base k n rid fd owner d0 = Inr (q, p, owner', d)"
  shows "can_open d = can_open d0" and "checkpoint_path q = offset_file (shard_base base (unat k)) rid"
    and "path \<noteq> log_file (shard_base base (unat k)) \<Longrightarrow> path \<noteq> trades_file (shard_base base (unat k)) \<Longrightarrow>
           files d path = files d0 path"
proof -
  let ?b = "shard_base base (unat k)"
  obtain d1 where mk: "make_log_queue ?b rid d0 = Inr (q, d1)"
    and d: "d = set_file (trades_file ?b) (file_bytes (trades_file ?b) d1) d1"
    using engine_start_split [OF assms] by blast
  have d1: "d1 = set_file (log_file ?b) (file_bytes (log_file ?b) d0) d0"
    using mk by (auto simp: make_log_queue_def fopen_append_def Let_def log_file_def split: option.splits if_splits)
  show "can_open d = can_open d0" by (simp add: d d1)
  show "checkpoint_path q = offset_file ?b rid"
    using make_log_queue_opened [OF mk] by (simp add: opened_def)
  show "path \<noteq> log_file ?b \<Longrightarrow> path \<noteq> trades_file ?b \<Longrightarrow> files d path = files d0 path"
    by (simp add: d d1 files_set)
qed

lemma shut_contents: "log_contents (q\<lparr>lq_done := True\<rparr>, d) = log_contents (q, d)"
  and shut_inv: "log_inv (q\<lparr>lq_done := True\<rparr>, d) = log_inv (q, d)"
  by (simp_all add: log_contents_def log_inv_def log_orders_def)

lemma started_loop_result:
  assumes "engine_start base k n rid fd owner d0 = Inr (q, p, owner', d)" and "n \<noteq> 0"
    and "log_inv (q, d)" and "list_all valid_order (log_contents (q, d))"
    and "length (log_contents (q, d)) < fuel"
  shows "loop_result (log_contents (q, d)) q p d (engine_loop fuel (q\<lparr>lq_done := True\<rparr>) p owner' d)"
proof -
  note st = engine_start_facts [OF assms(1)]
  have "apart (trade_topic p) (q\<lparr>lq_done := True\<rparr>)" using st(4) by (simp add: apart_def)
  then have "loop_result (log_contents (q, d)) (q\<lparr>lq_done := True\<rparr>) p d
      (engine_loop fuel (q\<lparr>lq_done := True\<rparr>) p owner' d)"
    using engine_loop_result [of "q\<lparr>lq_done := True\<rparr>" d p fuel owner'] assms(2-5) st books_ok_empty
    by (simp add: shut_contents shut_inv)
  then show ?thesis by (simp add: loop_result_def split: option.splits prod.splits)
qed


text \<open>A first start: the log is there and the replica has no checkpoint yet.\<close>

lemma first_start:
  assumes "\<And>path. can_open d path" and "files d (offset_file (shard_base base (unat k)) rid) = None"
    and "log_holds dec_order sizeof_Order xs (file_bytes (log_file (shard_base base (unat k))) d)"
    and "length xs * sizeof_Order < 2 ^ 63"
  shows "\<exists>q p owner' d'. engine_start base k n rid fd owner d = Inr (q, p, owner', d') \<and>
           log_inv (q, d') \<and> log_contents (q, d') = xs \<and> log_orders (q, d') = xs \<and>
           file_bytes (tl_path (trade_topic p)) d' = file_bytes (trades_file (shard_base base (unat k))) d \<and>
           (fd \<noteq> None \<longrightarrow> owner = None \<longrightarrow> active p)"
proof -
  let ?b = "shard_base base (unat k)"
  let ?d1 = "set_file (log_file ?b) (file_bytes (log_file ?b) d) d"
  let ?d2 = "set_file (trades_file ?b) (file_bytes (trades_file ?b) ?d1) ?d1"
  let ?q = "\<lparr>log_path = log_file ?b, checkpoint_path = offset_file ?b rid, consumer_offset = 0, lq_done = False\<rparr>"
  have cp: "read_checkpoint (offset_file ?b rid) ?d1 = 0"
    using assms(2) log_file_neq_offset_file [of ?b rid]
    by (auto simp: read_checkpoint_def fopen_read_def files_set)
  then have q: "make_log_queue ?b rid d = Inr (?q, ?d1)"
    using assms(1) by (simp add: make_log_queue_def Let_def fopen_append_def
        log_file_def [symmetric] offset_file_def [symmetric])
  obtain p owner' where p: "make_proc k n (make_leader_lock fd) \<lparr>tl_path = trades_file ?b\<rparr> owner = (p, owner')"
    by fastforce
  have "engine_start base k n rid fd owner d = Inr (?q, p, owner', ?d2)"
    using assms(1) q p by (simp add: engine_start_def make_trade_log_def fopen_append_def Let_def
        trades_file_def [symmetric])
  moreover have b: "file_bytes (log_file ?b) ?d2 = file_bytes (log_file ?b) d"
    using trades_file_apart [of ?b] by auto
  moreover have o: "log_orders (?q, ?d2) = xs" using assms(3) b by (intro log_orders_eq) simp
  moreover have "log_inv (?q, ?d2)"
    using assms(1,3,4) b o cp log_file_neq_offset_file trades_file_apart(2) [of ?b rid]
    by (auto simp: log_inv_def log_holds_def read_checkpoint_frame)
  moreover have "file_bytes (tl_path (trade_topic p)) ?d2 = file_bytes (trades_file ?b) d"
    using p trades_file_apart [of ?b] by (auto simp: make_proc_def split: prod.splits)
  moreover have "fd \<noteq> None \<longrightarrow> owner = None \<longrightarrow> active p"
    using p by (auto simp: make_proc_def make_leader_lock_def try_acquire_def flock_nb_def Let_def
        split: prod.splits option.splits if_splits)
  ultimately show ?thesis using o by (auto simp: log_contents_def)
qed

definition sample_disk :: fs where
  "sample_disk = \<lparr>files = [log_file (shard_base ''m'' 0) \<mapsto> enc_order 0 ask_100 @ enc_order 0 bid_100],
                  can_open = (\<lambda>_. True)\<rparr>"

lemma sample_orders_wf: "order_wf ask_100" "order_wf bid_100"
  using default_order_wf by (simp_all add: order_wf_def sample_orders)

lemma sample_disk_holds:
  "log_holds dec_order sizeof_Order [ask_100, bid_100] (file_bytes (log_file (shard_base ''m'' 0)) sample_disk)"
proof -
  have "log_holds dec_order sizeof_Order [ask_100] (enc_order 0 ask_100)"
    using order_codec.holds_append [OF order_codec.holds_Nil sample_orders_wf(1), of 0] by simp
  from order_codec.holds_append [OF this sample_orders_wf(2), of 0]
  show ?thesis by (simp add: sample_disk_def file_bytes_def)
qed

lemma sample_start:
  "\<exists>q p owner d. engine_start ''m'' 0 1 ''r0'' (Some 5) None sample_disk = Inr (q, p, owner, d) \<and>
     log_inv (q, d) \<and> log_contents (q, d) = [ask_100, bid_100] \<and> active p \<and>
     file_bytes (tl_path (trade_topic p)) d = []"
proof -
  have "file_bytes (trades_file (shard_base ''m'' 0)) sample_disk = []"
    using trades_file_apart(1) by (simp add: sample_disk_def file_bytes_def)
  then show ?thesis
    using first_start [of sample_disk "''m''" 0 "''r0''" "[ask_100, bid_100]" 1 "Some 5" None]
      sample_disk_holds log_file_neq_offset_file [of "shard_base ''m'' 0" "''r0''"]
    by (fastforce simp: sample_disk_def sizeof_Order_value)
qed

lemma sample_run:
  "run_orders step_books [ask_100, bid_100] Map.empty = Some [symbol_str ask_100 \<mapsto> engine_2]"
  "run_trades [ask_100, bid_100] Map.empty = [trade_3]"
  by (simp_all add: sample_books)


text \<open>
  C36: A restarted replica does not get its books back.  It finds its checkpoint at the end
  of the log, so it replays nothing: it starts, and stays until new orders come, with no
  books at all, whatever rested in the books of the process before it.
\<close>

theorem restart_forgets_books:
  assumes "engine_start base k n rid fd owner d0 = Inr (q, p, owner1, d)" and "n \<noteq> 0"
    and "log_inv (q, d)" and "list_all valid_order (log_contents (q, d))"
    and "engine_loop (Suc (length (log_contents (q, d)))) (q\<lparr>lq_done := True\<rparr>) p owner1 d =
           Some (q', p', owner', d')"
    and "engine_start base k n rid fd2 owner2 d' = Inr (q2, p2, owner3, d2)"
  shows "run_orders step_books (log_contents (q, d)) Map.empty = Some (engines p') \<and>
         engines p2 = Map.empty \<and> log_contents (q2, d2) = [] \<and>
         engine_loop (Suc m) (q2\<lparr>lq_done := True\<rparr>) p2 owner3 d2 =
           Some (q2\<lparr>lq_done := True\<rparr>, p2, owner3, d2)"
proof -
  let ?b = "shard_base base (unat k)"
  note st = engine_start_facts [OF assms(1)]
  have res: "run_orders step_books (log_contents (q, d)) (engines p) = Some (engines p')"
    "log_inv (q', d')" "log_contents (q', d') = []" "opened ?b rid (q', d')"
    using started_loop_result [OF assms(1-4), of "Suc (length (log_contents (q, d)))"] assms(5) st(1)
    by (auto simp: loop_result_def opened_def)
  obtain q3 where q3: "make_log_queue ?b rid d' = Inr (q3, d')" "log_inv (q3, d')" "log_contents (q3, d') = []"
    using reopen_inv [OF res(4,2)] res(3) by auto
  from engine_start_split [OF assms(6)] q3(1)
  have d2: "q2 = q3" "d2 = set_file (trades_file ?b) (file_bytes (trades_file ?b) d') d'" by auto
  have p2: "opened ?b rid (q2, d2)" "engines p2 = Map.empty" using engine_start_facts [OF assms(6)] by simp_all
  then have f: "files d2 (log_path q2) = files d' (log_path q2)"
    "files d2 (checkpoint_path q2) = files d' (checkpoint_path q2)" "can_open d2 = can_open d'"
    using d2 trades_file_apart(1) [of ?b] trades_file_apart(2) [of ?b rid] by (auto simp: opened_def files_set)
  have "log_inv (q2, d2)" "log_contents (q2, d2) = []"
    using log_frame(1,2) [OF f] q3 d2(1) by simp_all
  then have "log_pop (q2\<lparr>lq_done := True\<rparr>, d2) = (Drained, q2\<lparr>lq_done := True\<rparr>, d2)"
    using logq.pop_at_end [of "(q2\<lparr>lq_done := True\<rparr>, d2)"] by (simp add: shut_contents shut_inv)
  then show ?thesis using res(1) st(2) p2(2) \<open>log_contents (q2, d2) = []\<close> by simp
qed

lemma start_again:
  assumes "opened (shard_base base (unat k)) rid (q, d)" and "log_inv (q, d)"
    and "can_open d (trades_file (shard_base base (unat k)))"
  shows "\<exists>q' p owner' d'. engine_start base k n rid fd owner d = Inr (q', p, owner', d')"
proof -
  obtain q' where "make_log_queue (shard_base base (unat k)) rid d = Inr (q', d)"
    using reopen_inv [OF assms(1,2)] by blast
  then show ?thesis
    using assms(3) by (simp add: engine_start_def make_trade_log_def fopen_append_def Let_def
        trades_file_def [symmetric] split: prod.split)
qed

theorem restart_forgets_books_witness:
  "\<exists>q p owner d q' p' owner' d' q2 p2 owner2 d2.
     engine_start ''m'' 0 1 ''r0'' (Some 5) None sample_disk = Inr (q, p, owner, d) \<and>
     engine_loop 3 (q\<lparr>lq_done := True\<rparr>) p owner d = Some (q', p', owner', d') \<and>
     engines p' = [symbol_str ask_100 \<mapsto> engine_2] \<and>
     engine_start ''m'' 0 1 ''r0'' (Some 6) None d' = Inr (q2, p2, owner2, d2) \<and>
     engines p2 = Map.empty \<and>
     engine_loop 1 (q2\<lparr>lq_done := True\<rparr>) p2 owner2 d2 = Some (q2\<lparr>lq_done := True\<rparr>, p2, owner2, d2)"
proof -
  obtain q p owner d where st: "engine_start ''m'' 0 1 ''r0'' (Some 5) None sample_disk = Inr (q, p, owner, d)"
    "log_inv (q, d)" "log_contents (q, d) = [ask_100, bid_100]"
    using sample_start by blast
  have v: "list_all valid_order (log_contents (q, d))" using st(3) sample_orders_valid by simp
  note res = started_loop_result [OF st(1) _ st(2) v, of 3]
  then obtain q' p' owner' d' where lp: "engine_loop 3 (q\<lparr>lq_done := True\<rparr>) p owner d = Some (q', p', owner', d')"
    using st(3) by (auto simp: loop_result_def split: option.splits)
  have r: "log_inv (q', d')" "opened (shard_base ''m'' (unat (0 :: u32))) ''r0'' (q', d')" "can_open d' = can_open d"
    using res lp st(3) engine_start_facts(1) [OF st(1)] by (auto simp: loop_result_def opened_def)
  have "can_open d (trades_file (shard_base ''m'' 0))" using engine_start_split [OF st(1)] by auto
  with r(3) have "can_open d' (trades_file (shard_base ''m'' (unat (0 :: u32))))" by simp
  from start_again [OF r(2,1) this] obtain q2 p2 owner2 d2 where
    again: "engine_start ''m'' 0 1 ''r0'' (Some 6) None d' = Inr (q2, p2, owner2, d2)" by blast
  have lp': "engine_loop (Suc (length (log_contents (q, d)))) (q\<lparr>lq_done := True\<rparr>) p owner d = Some (q', p', owner', d')"
    using lp st(3) by (simp add: eval_nat_numeral)
  show ?thesis
    using restart_forgets_books [OF st(1) _ st(2) v lp' again, of 0] st lp again sample_run(1)
    by (auto simp: One_nat_def)
qed

section \<open>The queues are interchangeable\<close>

text \<open>
  C15: The three queues are interchangeable for the server.  A producer's pushes of up to
  as many orders as the ring was asked to hold succeed on each of them, and after a shutdown the
  consumer's loop ends, with the same engine and the same printed lines over each: those of
  submitting the orders one after the other to a new engine.
\<close>

theorem queues_interchangeable:
  assumes "list_all order_wf xs" and "length xs < n"
    and "make_lockfree cap = Some lq0" and "length xs \<le> unat cap"
    and "log_inv st0" and "log_contents st0 = []" and "log_fits (length xs) st0"
  shows "\<exists>mq lq st. push_all mutex_push xs mutex_queue = Some mq \<and> push_all lf_push xs lq0 = Some lq \<and>
     push_all (log_push pad) xs st0 = Some st \<and>
     server_consumer mutex_pop n (mutex_shutdown mq) = run_orders server_handle xs (make_engine lit_10, []) \<and>
     server_consumer lf_pop n (lf_shutdown lq) = run_orders server_handle xs (make_engine lit_10, []) \<and>
     server_consumer log_pop n (log_shutdown st) = run_orders server_handle xs (make_engine lit_10, [])"
proof -
  have all: "list_all (\<lambda>_. True) xs" by (simp add: list_all_iff)
  note lf = make_lockfree_inv [OF assms(3)]
  have "length xs < 18446744073709551616" using assms(4) unat_u64_less [of cap] by linarith
  then have room: "lf_room (length xs) lq0" using lf assms(4) by (simp add: lf_room_def lf_fits_def)
  have "mq_queue mutex_queue = []" by (simp add: mutex_queue_def)
  from mutex.whole_session [OF TrueI this TrueI all assms(2), of server_handle "(make_engine lit_10, [])"]
    lockfree_room.whole_session [OF _ _ room all assms(2), of server_handle "(make_engine lit_10, [])"]
    logq.whole_session [OF assms(5,6,7,1,2), of pad server_handle "(make_engine lit_10, [])"] lf
  show ?thesis by (simp add: server_consumer_def) blast
qed

lemma ring_of_two:
  "make_lockfree 2 = Some \<lparr>capacity = 2, mask_bits = 1, buffer = replicate 2 default_order,
     head = 0, tail = 0, lf_done = False, spin_count = 0\<rparr>"
  by (simp add: make_lockfree_def round_capacity.simps)

theorem queues_interchangeable_witness:
  "\<exists>mq lq0 lq st0 st. push_all mutex_push [ask_100, bid_100] mutex_queue = Some mq \<and>
     make_lockfree 2 = Some lq0 \<and> push_all lf_push [ask_100, bid_100] lq0 = Some lq \<and>
     make_log_queue ''x'' '''' empty_disk = Inr st0 \<and> push_all (log_push 0) [ask_100, bid_100] st0 = Some st \<and>
     server_consumer mutex_pop 3 (mutex_shutdown mq) = Some (engine_2, [Trade_line trade_3]) \<and>
     server_consumer lf_pop 3 (lf_shutdown lq) = Some (engine_2, [Trade_line trade_3]) \<and>
     server_consumer log_pop 3 (log_shutdown st) = Some (engine_2, [Trade_line trade_3])"
proof -
  let ?xs = "[ask_100, bid_100]"
  obtain q d where st0: "make_log_queue ''x'' '''' empty_disk = Inr (q, d)" "log_inv (q, d)"
    "log_contents (q, d) = []" "file_bytes (log_file ''x'') d = []"
    using fresh_queue [of empty_disk "''x''" "''''"] by (auto simp: empty_disk_def)
  have fits: "log_fits (length ?xs) (q, d)"
    using st0(4) make_log_queue_opened [OF st0(1)] by (simp add: log_fits_def opened_def sizeof_Order_value)
  have run: "run_orders server_handle ?xs (make_engine lit_10, []) = Some (engine_2, [Trade_line trade_3])"
    using run_sell run_buy by (simp add: server_handle_def engine_0_def)
  have "list_all order_wf ?xs" "length ?xs < 3" "length ?xs \<le> unat (2 :: u64)"
    by (simp_all add: sample_orders_wf)
  from queues_interchangeable [OF this(1,2) ring_of_two this(3) st0(2,3) fits, of 0] ring_of_two st0(1)
  show ?thesis unfolding run by blast
qed

end
