(* ===== verification/TcpFeed.thy ===== *)
theory TcpFeed
  imports OrderQueue Layout
begin

text \<open>
  \<open>TCPFeedHandler\<close> of \<open>include/tcp_feed_handler.hpp\<close> and \<open>src/tcp_feed_handler.cpp\<close>: the wire
  format of an order, the accumulation buffer of a connection, and the event loop.  What the
  kernel reports is the input of the model: an event names the descriptor, and for a readable
  connection the chunks \<open>recv\<close> returns and how its sequence ends.  The queue is the interface of
  \<open>OrderQueue\<close>: \<open>push\<close> is an argument.  Creating and configuring the
  sockets is the subject of \<open>TcpSockets\<close>.
\<close>

section \<open>Wire format\<close>

record WireOrder =
  w_order_id :: u64
  w_client_id :: u64
  w_side :: u8
  w_type :: u8
  w_symbol :: "u8 list"
  w_price :: double
  w_quantity :: u64

definition sizeof_WireOrder :: nat where
  "sizeof_WireOrder = struct_sizeof WireOrder_members"

lemma sizeof_WireOrder_value: "sizeof_WireOrder = 48"
  by (simp add: sizeof_WireOrder_def struct_sizeof_def struct_alignof_def align_up_def WireOrder_members_def)

text \<open>\<open>memcpy(&w, buf.data(), sizeof(WireOrder))\<close>.\<close>

definition dec_wire :: "u8 list \<Rightarrow> WireOrder" where
  "dec_wire bs =
     (let m = (\<lambda>x. member_bytes WireOrder_members x bs)
      in \<lparr>w_order_id = dec_u64 (m ''order_id''), w_client_id = dec_u64 (m ''client_id''),
          w_side = m ''side'' ! 0, w_type = m ''type'' ! 0, w_symbol = m ''symbol'',
          w_price = dec_double (m ''price''), w_quantity = dec_u64 (m ''quantity'')\<rparr>)"

definition wire_to_order :: "WireOrder \<Rightarrow> Order" where
  "wire_to_order w = default_order
     \<lparr>order_id := w_order_id w, client_id := w_client_id w,
      side := (if w_side w = 0 then BUY else SELL), otype := (if w_type w = 0 then LIMIT else MARKET),
      symbol := w_symbol w, price := w_price w, quantity := w_quantity w,
      remaining_quantity := w_quantity w\<rparr>"

text \<open>What a client sends for an order.\<close>

definition enc_wire :: "48 word \<Rightarrow> Order \<Rightarrow> u8 list" where
  "enc_wire pad o1 =
     enc_u64 (order_id o1) @ enc_u64 (client_id o1) @ [enc_side (side o1), enc_type (otype o1)] @
     symbol o1 @ le_bytes 6 (unat pad) @ enc_double (price o1) @ enc_u64 (quantity o1)"

lemma dec_wire_fields:
  assumes "length bs = 48"
  shows "dec_wire bs =
     \<lparr>w_order_id = dec_u64 (field 0 8 bs), w_client_id = dec_u64 (field 8 8 bs), w_side = bs ! 16,
      w_type = bs ! 17, w_symbol = field 18 8 bs, w_price = dec_double (field 32 8 bs),
      w_quantity = dec_u64 (field 40 8 bs)\<rparr>"
  using assms
  by (simp only: dec_wire_def Let_def WireOrder_member_bytes) (simp add: field_byte [unfolded One_nat_def])

section \<open>Connections\<close>

function process_buffer ::
  "(Order \<Rightarrow> 'q \<Rightarrow> 'q option) \<Rightarrow> u8 list \<Rightarrow> 'q \<Rightarrow> (u8 list \<times> 'q) option" where
  "process_buffer push buf q =
     (if sizeof_WireOrder \<le> length buf
      then (case push (wire_to_order (dec_wire (take sizeof_WireOrder buf))) q of
              None \<Rightarrow> None
            | Some q' \<Rightarrow> process_buffer push (drop sizeof_WireOrder buf) q')
      else Some (buf, q))"
  by pat_completeness auto
termination
  by (relation "measure (\<lambda>(push, buf, q). length buf)") (auto simp: sizeof_WireOrder_value)

declare process_buffer.simps [simp del]

datatype recv_end = Would_block | Peer_closed | Recv_failed

record 'q feed_handler =
  connections :: "nat \<rightharpoonup> u8 list"
  order_sink :: 'q
  running :: bool

definition close_connection :: "nat \<Rightarrow> 'q feed_handler \<Rightarrow> 'q feed_handler" where
  "close_connection fd h = h\<lparr>connections := (connections h)(fd := None)\<rparr>"

text \<open>
  \<open>chunks\<close> are the results of the successful \<open>recv\<close> calls, \<open>fin\<close> is how the last one ended.
\<close>

definition handle_client_data ::
  "(Order \<Rightarrow> 'q \<Rightarrow> 'q option) \<Rightarrow> nat \<Rightarrow> u8 list list \<Rightarrow> recv_end \<Rightarrow> 'q feed_handler \<Rightarrow> 'q feed_handler option" where
  "handle_client_data push fd chunks fin h =
     (case connections h fd of
        None \<Rightarrow> Some h
      | Some buf \<Rightarrow>
          (let h' = h\<lparr>connections := (connections h)(fd \<mapsto> buf @ concat chunks)\<rparr>
           in case fin of
                Peer_closed \<Rightarrow> Some (close_connection fd h')
              | Recv_failed \<Rightarrow> Some (close_connection fd h')
              | Would_block \<Rightarrow>
                  (case process_buffer push (buf @ concat chunks) (order_sink h') of
                     None \<Rightarrow> None
                   | Some (buf', q') \<Rightarrow>
                       Some (h'\<lparr>connections := (connections h')(fd \<mapsto> buf'), order_sink := q'\<rparr>))))"

definition accept_connections :: "nat list \<Rightarrow> 'q feed_handler \<Rightarrow> 'q feed_handler" where
  "accept_connections fds h = h\<lparr>connections := foldl (\<lambda>m fd. m(fd \<mapsto> [])) (connections h) fds\<rparr>"

text \<open>\<open>stop\<close>, from the signal handler: the flag, and whether it writes to the pipe.\<close>

definition stop :: "'q feed_handler \<Rightarrow> bool \<times> 'q feed_handler" where
  "stop h = (running h, h\<lparr>running := False\<rparr>)"

section \<open>The event loop\<close>

text \<open>
  \<open>Ev_signal\<close> is no event of the kernel's list: it is a signal that arrives between two of them,
  whose handler calls \<open>stop\<close>.  \<open>Ev_stop\<close> is the pipe becoming readable.
\<close>

datatype feed_event =
  Ev_signal | Ev_stop | Ev_accept "nat list" | Ev_hangup nat | Ev_readable nat "u8 list list" recv_end

text \<open>The body of \<open>run\<close>'s loop over one batch of \<open>epoll_wait\<close>; a stop event leaves the batch.\<close>

fun handle_batch ::
  "(Order \<Rightarrow> 'q \<Rightarrow> 'q option) \<Rightarrow> feed_event list \<Rightarrow> 'q feed_handler \<Rightarrow> 'q feed_handler option" where
  "handle_batch push [] h = Some h"
| "handle_batch push (Ev_signal # evs) h = handle_batch push evs (snd (stop h))"
| "handle_batch push (Ev_stop # evs) h = Some (h\<lparr>running := False\<rparr>)"
| "handle_batch push (Ev_accept fds # evs) h = handle_batch push evs (accept_connections fds h)"
| "handle_batch push (Ev_hangup fd # evs) h = handle_batch push evs (close_connection fd h)"
| "handle_batch push (Ev_readable fd chunks fin # evs) h =
     (case handle_client_data push fd chunks fin h of None \<Rightarrow> None | Some h' \<Rightarrow> handle_batch push evs h')"

text \<open>The loop over the batches the kernel delivers, until a stop.\<close>

fun run_feed_loop ::
  "(Order \<Rightarrow> 'q \<Rightarrow> 'q option) \<Rightarrow> feed_event list list \<Rightarrow> 'q feed_handler \<Rightarrow> 'q feed_handler option" where
  "run_feed_loop push [] h = Some h"
| "run_feed_loop push (b # bs) h =
     (if running h
      then (case handle_batch push b h of None \<Rightarrow> None | Some h' \<Rightarrow> run_feed_loop push bs h')
      else Some h)"

text \<open>
  The whole of \<open>run\<close> after its set-up: what each call of \<open>epoll_wait\<close> gives.  An interrupted call is
  repeated; the signal that interrupted it may be the one whose handler calls \<open>stop\<close> on the
  handler object, if there is one.  Any other failure is thrown.
\<close>

datatype wait_result = Woke "feed_event list" | Interrupted bool | Wait_failed

datatype 'q feed_outcome = Returned "'q feed_handler" | Wait_threw "'q feed_handler" | Push_undefined

definition signal_handler :: "bool \<Rightarrow> 'q feed_handler \<Rightarrow> 'q feed_handler" where
  "signal_handler installed h = (if installed then snd (stop h) else h)"

fun feed_run :: "(Order \<Rightarrow> 'q \<Rightarrow> 'q option) \<Rightarrow> wait_result list \<Rightarrow> 'q feed_handler \<Rightarrow> 'q feed_outcome" where
  "feed_run push [] h = Returned h"
| "feed_run push (r # rs) h =
     (if running h
      then (case r of
              Interrupted stops \<Rightarrow> feed_run push rs (signal_handler stops h)
            | Wait_failed \<Rightarrow> Wait_threw h
            | Woke evs \<Rightarrow>
                (case handle_batch push evs h of None \<Rightarrow> Push_undefined | Some h' \<Rightarrow> feed_run push rs h'))
      else Returned h)"

section \<open>Framing\<close>

text \<open>The orders of the complete messages of a byte stream, and what is left of it.\<close>

function orders_of :: "u8 list \<Rightarrow> Order list" where
  "orders_of bs =
     (if sizeof_WireOrder \<le> length bs
      then wire_to_order (dec_wire (take sizeof_WireOrder bs)) # orders_of (drop sizeof_WireOrder bs)
      else [])"
  by pat_completeness auto
termination
  by (relation "measure length") (auto simp: sizeof_WireOrder_value)

declare orders_of.simps [simp del]

definition rest_of :: "u8 list \<Rightarrow> u8 list" where
  "rest_of bs = drop (length bs div sizeof_WireOrder * sizeof_WireOrder) bs"

lemma rest_of_short: "length bs < sizeof_WireOrder \<Longrightarrow> rest_of bs = bs"
  by (simp add: rest_of_def)

lemma rest_of_step: "sizeof_WireOrder \<le> length bs \<Longrightarrow> rest_of (drop sizeof_WireOrder bs) = rest_of bs"
proof -
  assume le: "sizeof_WireOrder \<le> length bs"
  have "length bs div sizeof_WireOrder = Suc ((length bs - sizeof_WireOrder) div sizeof_WireOrder)"
    using le by (intro le_div_geq) (simp_all add: sizeof_WireOrder_value)
  then show ?thesis by (simp add: rest_of_def add.commute)
qed

lemma process_buffer_orders:
  "process_buffer push buf q = map_option (Pair (rest_of buf)) (push_all push (orders_of buf) q)"
proof (induction push buf q rule: process_buffer.induct)
  case (1 push buf q)
  show ?case
  proof (cases "sizeof_WireOrder \<le> length buf")
    case True
    then show ?thesis
      using 1 rest_of_step [OF True]
      by (subst process_buffer.simps, subst orders_of.simps) (auto split: option.split)
  next
    case False
    then show ?thesis
      by (subst process_buffer.simps, subst orders_of.simps) (simp add: rest_of_short)
  qed
qed

lemma orders_of_append: "orders_of (xs @ ys) = orders_of xs @ orders_of (rest_of xs @ ys)"
proof (induction xs rule: orders_of.induct)
  case (1 xs)
  show ?case
  proof (cases "sizeof_WireOrder \<le> length xs")
    case True
    then have "orders_of (xs @ ys) =
        wire_to_order (dec_wire (take sizeof_WireOrder xs)) # orders_of (drop sizeof_WireOrder xs @ ys)"
      by (subst orders_of.simps) simp
    moreover have "orders_of xs =
        wire_to_order (dec_wire (take sizeof_WireOrder xs)) # orders_of (drop sizeof_WireOrder xs)"
      using True by (subst orders_of.simps) simp
    ultimately show ?thesis using 1 [OF True] rest_of_step [OF True] by simp
  next
    case False
    then show ?thesis by (simp add: rest_of_short orders_of.simps [of xs])
  qed
qed

lemma rest_of_append: "rest_of (xs @ ys) = rest_of (rest_of xs @ ys)"
proof (induction xs rule: orders_of.induct)
  case (1 xs)
  show ?case
  proof (cases "sizeof_WireOrder \<le> length xs")
    case True
    then have "rest_of (xs @ ys) = rest_of (drop sizeof_WireOrder xs @ ys)"
      using rest_of_step [of "xs @ ys"] by simp
    then show ?thesis using 1 [OF True] rest_of_step [OF True] by simp
  next
    case False
    then show ?thesis by (simp add: rest_of_short)
  qed
qed

lemma push_all_append:
  "push_all push (xs @ ys) q = (case push_all push xs q of None \<Rightarrow> None | Some q' \<Rightarrow> push_all push ys q')"
  by (induction xs arbitrary: q) (auto split: option.split)

section \<open>The handler without the queue\<close>

text \<open>
  What a batch of events does, whatever the queue is: the orders it pushes, the connections
  and the flag afterwards.
\<close>

fun batch_effect ::
  "feed_event list \<Rightarrow> (nat \<rightharpoonup> u8 list) \<Rightarrow> bool \<Rightarrow> Order list \<times> (nat \<rightharpoonup> u8 list) \<times> bool" where
  "batch_effect [] m r = ([], m, r)"
| "batch_effect (Ev_signal # evs) m r = batch_effect evs m False"
| "batch_effect (Ev_stop # evs) m r = ([], m, False)"
| "batch_effect (Ev_accept fds # evs) m r = batch_effect evs (foldl (\<lambda>m fd. m(fd \<mapsto> [])) m fds) r"
| "batch_effect (Ev_hangup fd # evs) m r = batch_effect evs (m(fd := None)) r"
| "batch_effect (Ev_readable fd chunks fin # evs) m r =
     (case m fd of
        None \<Rightarrow> batch_effect evs m r
      | Some buf \<Rightarrow>
          (if fin = Would_block
           then (case batch_effect evs (m(fd \<mapsto> rest_of (buf @ concat chunks))) r of
                   (xs, m', r') \<Rightarrow> (orders_of (buf @ concat chunks) @ xs, m', r'))
           else batch_effect evs (m(fd := None)) r))"

lemma handle_batch_effect:
  "batch_effect evs (connections h) (running h) = (xs, m, r) \<Longrightarrow>
     handle_batch push evs h =
       map_option (\<lambda>q. h\<lparr>connections := m, order_sink := q, running := r\<rparr>) (push_all push xs (order_sink h))"
proof (induction push evs h arbitrary: xs rule: handle_batch.induct)
  case (6 push fd chunks fin evs h)
  show ?case
  proof (cases "connections h fd")
    case None
    then show ?thesis using 6 by (simp add: handle_client_data_def)
  next
    case (Some buf)
    let ?bs = "buf @ concat chunks"
    show ?thesis
    proof (cases "fin = Would_block")
      case False
      then have step: "handle_client_data push fd chunks fin h = Some (close_connection fd h)"
        using Some by (cases fin) (simp_all add: handle_client_data_def close_connection_def)
      have "batch_effect evs (connections (close_connection fd h)) (running (close_connection fd h)) = (xs, m, r)"
        using 6(2) Some False by (simp add: close_connection_def)
      from 6(1) [OF step this] show ?thesis using step by (simp add: close_connection_def)
    next
      case True
      obtain ys where ys: "batch_effect evs ((connections h)(fd \<mapsto> rest_of ?bs)) (running h) = (ys, m, r)"
        and xs: "xs = orders_of ?bs @ ys"
        using 6(2) Some True by (auto split: prod.splits)
      show ?thesis
      proof (cases "push_all push (orders_of ?bs) (order_sink h)")
        case None
        then show ?thesis using Some True xs
          by (simp add: handle_client_data_def process_buffer_orders Let_def push_all_append)
      next
        case q: (Some q)
        let ?h = "h\<lparr>connections := (connections h)(fd \<mapsto> rest_of ?bs), order_sink := q\<rparr>"
        have step: "handle_client_data push fd chunks fin h = Some ?h"
          using Some True q by (simp add: handle_client_data_def process_buffer_orders Let_def)
        have "batch_effect evs (connections ?h) (running ?h) = (ys, m, r)" using ys by simp
        from 6(1) [OF step this] show ?thesis using step q xs by (simp add: push_all_append)
      qed
    qed
  qed
qed (simp_all add: stop_def accept_connections_def close_connection_def)

section \<open>What reaches the queue\<close>

text \<open>The order the handler makes of what a client sent.\<close>

definition received :: "Order \<Rightarrow> Order" where
  "received o1 = o1\<lparr>remaining_quantity := quantity o1, timestamp := 0\<rparr>"

lemma length_enc_wire: "order_wf o1 \<Longrightarrow> length (enc_wire pad o1) = sizeof_WireOrder"
  by (simp add: enc_wire_def order_wf_def kSymbolLen_def sizeof_WireOrder_value)

lemma wire_roundtrip:
  assumes "order_wf o1"
  shows "wire_to_order (dec_wire (enc_wire pad o1)) = received o1"
proof -
  have sym: "length (symbol o1) = 8" using assms by (simp add: order_wf_def kSymbolLen_def)
  have len: "length (enc_wire pad o1) = 48" using length_enc_wire [OF assms] by (simp add: sizeof_WireOrder_value)
  have b: "enc_wire pad o1 ! 16 = enc_side (side o1)" "enc_wire pad o1 ! 17 = enc_type (otype o1)"
    by (simp_all add: enc_wire_def nth_append)
  have s: "(if enc_side s = 0 then BUY else SELL) = s" "(if enc_type t = 0 then LIMIT else MARKET) = t" for s t
    by (cases s; simp) (cases t; simp)
  show ?thesis
    unfolding wire_to_order_def dec_wire_fields [OF len] b WireOrder.select_convs s
    using sym by (simp add: enc_wire_def received_def default_order_def)
qed

lemma orders_of_stream:
  "list_all order_wf os \<Longrightarrow> orders_of (concat (map (enc_wire pad) os)) = map received os"
proof (induction os)
  case Nil
  then show ?case by (subst orders_of.simps) (simp add: sizeof_WireOrder_value)
next
  case (Cons x os)
  then have x: "order_wf x" by simp
  have "orders_of (enc_wire pad x @ concat (map (enc_wire pad) os)) =
      wire_to_order (dec_wire (enc_wire pad x)) # orders_of (concat (map (enc_wire pad) os))"
    using length_enc_wire [OF x, of pad] by (subst orders_of.simps) simp
  with Cons wire_roundtrip [OF x] show ?case by simp
qed

text \<open>What the events of a batch bring from one connection, and the event of a wake-up.\<close>

definition stream :: "nat \<Rightarrow> (nat \<times> u8 list list) list \<Rightarrow> u8 list" where
  "stream fd evs = concat (map (\<lambda>(c, chunks). if c = fd then concat chunks else []) evs)"

definition wake_up :: "nat \<times> u8 list list \<Rightarrow> feed_event" where
  "wake_up = (\<lambda>(fd, chunks). Ev_readable fd chunks Would_block)"

definition from_client :: "nat \<Rightarrow> (nat \<times> Order) list \<Rightarrow> Order list" where
  "from_client fd arr = map snd (filter (\<lambda>(c, x). c = fd) arr)"

lemma stream_Cons: "stream fd ((c, chunks) # evs) = (if c = fd then concat chunks else []) @ stream fd evs"
  by (simp add: stream_def)

lemma from_client_append:
  "from_client fd (map (Pair c) xs @ arr) = (if c = fd then xs else []) @ from_client fd arr"
  by (simp add: from_client_def comp_def)

lemma only_client:
  assumes "\<forall>fd. fd \<noteq> c \<longrightarrow> from_client fd arr = []"
  shows "map snd arr = from_client c arr"
proof -
  have "x \<in> set arr \<Longrightarrow> fst x = c" for x
    using assms by (cases x) (force simp: from_client_def filter_empty_conv)
  then have "filter (\<lambda>(fd, x). fd = c) arr = arr" by (auto intro!: filter_True)
  then show ?thesis by (simp add: from_client_def)
qed

lemma short_rest: "length (rest_of bs) < sizeof_WireOrder"
  by (simp add: rest_of_def sizeof_WireOrder_value minus_div_mult_eq_mod)

lemma orders_of_short: "length bs < sizeof_WireOrder \<Longrightarrow> orders_of bs = []"
  by (subst orders_of.simps) simp

text \<open>Wake-ups of any connections in any order, each with its buffer.\<close>

lemma wake_ups:
  "(\<And>fd. length (b fd) < sizeof_WireOrder) \<Longrightarrow> (\<And>fd. fd \<in> fst ` set evs \<Longrightarrow> m fd = Some (b fd)) \<Longrightarrow>
     \<exists>arr. (\<forall>fd. from_client fd arr = orders_of (b fd @ stream fd evs)) \<and>
       batch_effect (map wake_up evs) m r =
         (map snd arr,
          (\<lambda>fd. if fd \<in> fst ` set evs then Some (rest_of (b fd @ stream fd evs)) else m fd), r)"
proof (induction evs arbitrary: m b)
  case Nil
  then show ?case
    by (intro exI [of _ "[]"]) (simp add: from_client_def stream_def orders_of_short)
next
  case (Cons ev evs)
  obtain c chunks where ev: "ev = (c, chunks)" by fastforce
  let ?bs = "b c @ concat chunks"
  let ?b = "b(c := rest_of ?bs)" and ?m = "m(c \<mapsto> rest_of ?bs)"
  have short: "length (?b fd) < sizeof_WireOrder" for fd using Cons.prems(1) short_rest by simp
  have conn: "?m fd = Some (?b fd)" if "fd \<in> fst ` set evs" for fd
    using Cons.prems(2) that by auto
  obtain arr where arr: "\<forall>fd. from_client fd arr = orders_of (?b fd @ stream fd evs)"
    and rec: "batch_effect (map wake_up evs) ?m r =
      (map snd arr, (\<lambda>fd. if fd \<in> fst ` set evs then Some (rest_of (?b fd @ stream fd evs)) else ?m fd), r)"
    using Cons.IH [of ?b ?m, OF short conn] by blast
  have 1: "from_client fd (map (Pair c) (orders_of ?bs) @ arr) = orders_of (b fd @ stream fd (ev # evs))" for fd
    using arr orders_of_append [of ?bs "stream c evs"] by (auto simp: ev stream_Cons from_client_append)
  have "stream c evs = []" if "c \<notin> fst ` set evs" using that by (force simp: stream_def)
  then have 2: "(\<lambda>fd. if fd \<in> fst ` set evs then Some (rest_of (?b fd @ stream fd evs)) else ?m fd) =
      (\<lambda>fd. if fd \<in> fst ` set (ev # evs) then Some (rest_of (b fd @ stream fd (ev # evs))) else m fd)"
    using rest_of_append [of ?bs "stream c evs"] rest_of_short [OF short_rest, of ?bs]
    by (intro ext) (auto simp: ev stream_Cons)
  have "batch_effect (map wake_up (ev # evs)) m r =
      (orders_of ?bs @ map snd arr,
       (\<lambda>fd. if fd \<in> fst ` set (ev # evs) then Some (rest_of (b fd @ stream fd (ev # evs))) else m fd), r)"
    using rec [unfolded 2] Cons.prems(2) [of c] by (simp add: ev wake_up_def)
  then show ?case
    using 1 by (intro exI [of _ "map (Pair c) (orders_of ?bs) @ arr"]) (simp add: comp_def)
qed

lemma rest_of_stream: "list_all order_wf os \<Longrightarrow> rest_of (concat (map (enc_wire pad) os)) = []"
proof -
  assume "list_all order_wf os"
  then have "length (concat (map (enc_wire pad) os)) = length os * sizeof_WireOrder"
    using length_enc_wire by (induction os) auto
  then show ?thesis by (simp add: rest_of_def sizeof_WireOrder_value)
qed

lemma wake_ups_orders:
  assumes "\<forall>fd. list_all order_wf (os fd) \<and> stream fd evs = concat (map (enc_wire pad) (os fd))"
    and "\<And>fd. fd \<in> fst ` set evs \<Longrightarrow> connections h fd = Some []"
  shows "\<exists>arr. (\<forall>fd. from_client fd arr = map received (os fd)) \<and>
           handle_batch push (map wake_up evs) h =
             map_option (\<lambda>q. h\<lparr>order_sink := q\<rparr>) (push_all push (map snd arr) (order_sink h))"
proof -
  have c: "(\<lambda>fd. if fd \<in> fst ` set evs then Some (rest_of (stream fd evs)) else connections h fd) = connections h"
    using assms rest_of_stream by fastforce
  have o: "orders_of (stream fd evs) = map received (os fd)" for fd
    using assms(1) orders_of_stream by simp
  have "length ([] :: u8 list) < sizeof_WireOrder" by (simp add: sizeof_WireOrder_value)
  from wake_ups [of "\<lambda>_. []" evs "connections h" "running h", OF this assms(2), unfolded append_Nil c o]
  obtain arr where "\<forall>fd. from_client fd arr = map received (os fd)"
    "batch_effect (map wake_up evs) (connections h) (running h) = (map snd arr, connections h, running h)"
    by auto
  then show ?thesis using handle_batch_effect [of "map wake_up evs" h "map snd arr" _ _ push] by auto
qed

lemma accepted: "fd \<in> set fds \<Longrightarrow> foldl (\<lambda>m fd. m(fd \<mapsto> [])) m fds fd = Some []"
proof (induction fds rule: rev_induct)
  case (snoc x xs)
  then show ?case by (cases "fd = x") simp_all
qed simp


definition list_push :: "Order \<Rightarrow> Order list \<Rightarrow> Order list option" where
  "list_push x q = Some (q @ [x])"

definition one_client :: "Order list feed_handler" where
  "one_client = \<lparr>connections = [5 \<mapsto> []], order_sink = [], running = True\<rparr>"

definition no_clients :: "Order list feed_handler" where
  "no_clients = \<lparr>connections = Map.empty, order_sink = [], running = True\<rparr>"

definition cut_reads :: "(nat \<times> u8 list list) list" where
  "cut_reads = [(5, [take 7 (enc_wire 0 default_order)]), (6, [enc_wire 0 default_order]),
                (5, [drop 7 (enc_wire 0 default_order)])]"

definition cut_orders :: "nat \<Rightarrow> Order list" where
  "cut_orders fd = (if fd = 5 \<or> fd = 6 then [default_order] else [])"

lemma cut_reads_stream:
  "\<forall>fd. list_all order_wf (cut_orders fd) \<and> stream fd cut_reads = concat (map (enc_wire 0) (cut_orders fd))"
  by (simp add: cut_reads_def cut_orders_def stream_def order_wf_def default_order_def)


section \<open>Stopping, interruptions and failures\<close>

text \<open>
  After a stop event the loop handles nothing more: the rest of the batch and all later
  batches are ignored.
\<close>

lemma stop_ends_loop:
  assumes "running h" and "handle_batch push evs h = Some h'" and "Ev_stop \<notin> set evs"
  shows "run_feed_loop push ((evs @ Ev_stop # evs') # bs) h = Some (h'\<lparr>running := False\<rparr>)"
proof -
  have "handle_batch push (evs @ Ev_stop # evs') h = Some (h'\<lparr>running := False\<rparr>)"
    using assms(2,3)
  proof (induction push evs h rule: handle_batch.induct)
    case (6 push fd chunks fin evs h)
    then show ?case by (auto split: option.splits)
  qed simp_all
  then show ?thesis using assms(1) by (cases bs) simp_all
qed

lemma stop_ends_loop_sample:
  "run_feed_loop list_push [[Ev_accept [6], Ev_stop, Ev_hangup 6], [Ev_hangup 5]] one_client =
     Some (one_client\<lparr>connections := [5 \<mapsto> [], 6 \<mapsto> []], running := False\<rparr>)"
  using stop_ends_loop [of one_client list_push "[Ev_accept [6]]"
      "one_client\<lparr>connections := [5 \<mapsto> [], 6 \<mapsto> []]\<rparr>" "[Ev_hangup 6]" "[[Ev_hangup 5]]"]
  by (simp add: one_client_def accept_connections_def)

lemma feed_run_stopped: "\<not> running h \<Longrightarrow> feed_run push rs h = Returned h"
  by (cases rs) simp_all

lemma feed_run_woke:
  "feed_run push (map Woke bs) h =
     (case run_feed_loop push bs h of None \<Rightarrow> Push_undefined | Some h' \<Rightarrow> Returned h')"
  by (induction bs arbitrary: h) (simp_all split: option.split)

lemma feed_run_interrupted:
  "feed_run push (filter (\<lambda>r. r \<noteq> Interrupted False) rs) h = feed_run push rs h"
proof (induction rs arbitrary: h)
  case (Cons r rs)
  show ?case
  proof (cases "running h")
    case False
    then show ?thesis by (simp add: feed_run_stopped)
  next
    case True
    then show ?thesis using Cons by (auto simp: signal_handler_def split: wait_result.split option.split)
  qed
qed simp

lemma feed_run_append:
  "feed_run push (rs @ rs') h =
     (case feed_run push rs h of Returned h' \<Rightarrow> feed_run push rs' h' | out \<Rightarrow> out)"
  by (induction rs arbitrary: h)
    (auto simp: feed_run_stopped split: wait_result.split option.split feed_outcome.split)

text \<open>
  The event loop under signals and failures.  Interrupted waits change nothing, wherever
  they occur; without them the loop is the one over the delivered batches.  A signal that calls
  \<open>stop\<close> while the loop waits ends it with everything handled before still done, and what comes
  later is not handled; a failing wait throws, with everything handled before still done.
\<close>

lemma feed_loop_waits:
  "feed_run push (filter (\<lambda>r. r \<noteq> Interrupted False) rs) h = feed_run push rs h \<and>
   feed_run push (map Woke bs) h =
     (case run_feed_loop push bs h of None \<Rightarrow> Push_undefined | Some h' \<Rightarrow> Returned h') \<and>
   feed_run push (map Woke bs @ Interrupted True # rs) h =
     (case run_feed_loop push bs h of None \<Rightarrow> Push_undefined | Some h' \<Rightarrow> Returned (h'\<lparr>running := False\<rparr>)) \<and>
   feed_run push (map Woke bs @ Wait_failed # rs) h =
     (case run_feed_loop push bs h of
        None \<Rightarrow> Push_undefined | Some h' \<Rightarrow> if running h' then Wait_threw h' else Returned h')"
proof -
  have "\<not> running h' \<Longrightarrow> h'\<lparr>running := False\<rparr> = h'" for h' :: "'a feed_handler" by simp
  then show ?thesis
    by (auto simp: feed_run_interrupted feed_run_woke feed_run_append signal_handler_def stop_def feed_run_stopped
        split: option.split)
qed

end
