(* ===== verification/Server.thy ===== *)
theory Server
  imports Processes TcpFeed
begin

text \<open>
  The single-process server of \<open>src/server_main.cpp\<close>: the feed handler in the main thread and
  the consumer in a second one, with a mutex queue between them.  A schedule says in which
  order the batches of the handler and the attempts of \<open>pop\<close> happen; afterwards the main thread
  shuts the queue down and joins the consumer.
\<close>

section \<open>The process\<close>

datatype server_action = Feed "feed_event list" | Consume

record server =
  handler :: "MutexOrderQueue feed_handler"
  results :: "MatchingEngine \<times> out_line list"

definition make_server :: server where
  "make_server =
     \<lparr>handler = \<lparr>connections = Map.empty, order_sink = mutex_queue, running = True\<rparr>,
      results = (make_engine lit_10, [])\<rparr>"

fun server_run :: "server_action list \<Rightarrow> server \<Rightarrow> server option" where
  "server_run [] s = Some s"
| "server_run (Feed b # acts) s =
     (if running (handler s)
      then (case handle_batch mutex_push b (handler s) of
              None \<Rightarrow> None
            | Some h \<Rightarrow> server_run acts (s\<lparr>handler := h\<rparr>))
      else server_run acts s)"
| "server_run (Consume # acts) s =
     (case mutex_pop (order_sink (handler s)) of
        (Popped x, q) \<Rightarrow>
          (case server_handle x (results s) of
             None \<Rightarrow> None
           | Some r \<Rightarrow> server_run acts (s\<lparr>handler := (handler s)\<lparr>order_sink := q\<rparr>, results := r\<rparr>))
      | (_, q) \<Rightarrow> server_run acts s)"

definition server_main :: "server_action list \<Rightarrow> nat \<Rightarrow> (MatchingEngine \<times> out_line list) option" where
  "server_main acts n =
     (case server_run acts make_server of
        None \<Rightarrow> None
      | Some s \<Rightarrow>
          map_option snd
            (consume mutex_pop server_handle n (mutex_shutdown (order_sink (handler s))) (results s)))"

section \<open>Schedules\<close>

text \<open>The orders the handler's batches bring; the consumer's actions do not matter.\<close>

fun server_orders :: "server_action list \<Rightarrow> (nat \<rightharpoonup> u8 list) \<Rightarrow> bool \<Rightarrow> Order list" where
  "server_orders [] m r = []"
| "server_orders (Consume # acts) m r = server_orders acts m r"
| "server_orders (Feed b # acts) m r =
     (if r then (case batch_effect b m r of (xs, m', r') \<Rightarrow> xs @ server_orders acts m' r')
      else server_orders acts m r)"

lemma mutex_push_all: "push_all mutex_push xs q = Some (q\<lparr>mq_queue := mq_queue q @ xs\<rparr>)"
  by (induction xs arbitrary: q) (simp_all add: mutex_push_def)

lemma mutex_drain:
  assumes "length (mq_queue q) < n"
  shows "map_option snd (consume mutex_pop server_handle n (mutex_shutdown q) st) =
           run_orders server_handle (mq_queue q) st"
  using mutex.consume_drains [of "mutex_shutdown q" n server_handle st] assms
  by (simp add: mutex_shutdown_def)

lemma server_total:
  "book_ok (book e) \<Longrightarrow> list_all valid_order xs \<Longrightarrow>
     \<exists>e' out'. run_orders server_handle xs (e, out) = Some (e', out')"
proof (induction xs arbitrary: e out)
  case Nil
  then show ?case by simp
next
  case (Cons x xs)
  then obtain r e1 where "submit_order x e = Some (r, e1)" "book_ok (book e1)"
    using submit_order_total [of e x] by auto
  then show ?case using Cons by (simp add: server_handle_def)
qed

lemma server_run_drain:
  "\<not> mq_done (order_sink (handler s)) \<Longrightarrow>
   length (mq_queue (order_sink (handler s)) @ server_orders acts (connections (handler s)) (running (handler s))) < n \<Longrightarrow>
     (case server_run acts s of
        None \<Rightarrow> None
      | Some s' \<Rightarrow>
          map_option snd
            (consume mutex_pop server_handle n (mutex_shutdown (order_sink (handler s'))) (results s'))) =
     run_orders server_handle
       (mq_queue (order_sink (handler s)) @ server_orders acts (connections (handler s)) (running (handler s)))
       (results s)"
proof (induction acts s rule: server_run.induct)
  case (1 s)
  then show ?case by (simp add: mutex_drain)
next
  case (2 b acts s)
  show ?case
  proof (cases "running (handler s)")
    case False
    then show ?thesis using 2 by simp
  next
    case True
    obtain xs m r where eff: "batch_effect b (connections (handler s)) (running (handler s)) = (xs, m, r)"
      by (metis prod_cases3)
    let ?q = "(order_sink (handler s))\<lparr>mq_queue := mq_queue (order_sink (handler s)) @ xs\<rparr>"
    let ?h = "(handler s)\<lparr>connections := m, order_sink := ?q, running := r\<rparr>"
    have step: "handle_batch mutex_push b (handler s) = Some ?h"
      using handle_batch_effect [OF eff, of mutex_push] by (simp add: mutex_push_all)
    show ?thesis using 2(1) [OF True step] 2(3,4) True step eff by simp
  qed
next
  case (3 acts s)
  show ?case
  proof (cases "mq_queue (order_sink (handler s))")
    case Nil
    then have "mutex_pop (order_sink (handler s)) = (Waiting, order_sink (handler s))"
      using 3(5) by (simp add: mutex_pop_def)
    then show ?thesis using 3 by simp
  next
    case (Cons x xs)
    then have pop: "mutex_pop (order_sink (handler s)) = (Popped x, (order_sink (handler s))\<lparr>mq_queue := xs\<rparr>)"
      by (simp add: mutex_pop_def)
    show ?thesis
    proof (cases "server_handle x (results s)")
      case None
      then show ?thesis using pop Cons by simp
    next
      case (Some r)
      show ?thesis using 3(1) [OF pop [symmetric] refl Some] 3(5,6) pop Cons Some by simp
    qed
  qed
qed

lemma server_main_runs:
  "length (server_orders acts Map.empty True) < n \<Longrightarrow>
     server_main acts n = run_orders server_handle (server_orders acts Map.empty True) (make_engine lit_10, [])"
  using server_run_drain [of make_server acts n]
  by (simp add: server_main_def make_server_def mutex_queue_def)


lemma submit_received: "submit_order (received x) e = submit_order x e"
  by (simp add: submit_order_def received_def Let_def)

lemma symbol_received: "symbol_str (received x) = symbol_str x"
  by (simp add: received_def symbol_str_def)

lemma one_message:
  assumes "order_wf x"
  shows "orders_of (enc_wire pad x) = [received x]" and "rest_of (enc_wire pad x) = []"
  using orders_of_stream [of "[x]" pad] rest_of_stream [of "[x]" pad] assms by simp_all

definition sample_schedule :: "server_action list" where
  "sample_schedule =
     [Feed [Ev_accept [5], Ev_readable 5 [enc_wire 0 ask_100] Would_block], Consume, Consume,
      Feed [Ev_readable 5 [enc_wire 0 bid_100] Would_block, Ev_stop]]"

lemma sample_schedule_orders:
  "server_orders sample_schedule Map.empty True = [received ask_100, received bid_100]"
  by (simp add: sample_schedule_def one_message sample_orders_wf)


end
