(* ===== verification/WireClient.thy ===== *)
theory WireClient
  imports TcpFeed
begin

text \<open>
  The Python clients of \<open>client/\<close>: \<open>make_wire_order\<close>, which both define, and the order stream of
  \<open>order_generator.py\<close>.  What they use of the \<open>struct\<close> module is modelled: the parsing of a format
  string and the packing of values, standard sizes without alignment, with the range checks that
  raise \<open>struct.error\<close>.  A Python integer is an \<open>int\<close>, a \<open>str\<close> the list of its code points.

  The clients write the format independently of the C++ declaration, so that the two agree is a
  property of the repository: a packed order decodes to the order that was meant.
\<close>

section \<open>The struct module\<close>

datatype py_error = Struct_error | Unicode_encode_error

datatype py_value = Py_int int | Py_float double | Py_bytes "u8 list"

text \<open>
  The items of a format string: a repeat count and a type code.  Blanks separate items, the
  byte-order mark comes first and is dropped.
\<close>

fun parse_items :: "nat option \<Rightarrow> string \<Rightarrow> (nat \<times> char) list" where
  "parse_items n [] = []"
| "parse_items n (c # cs) =
     (if c = CHR '' '' then parse_items n cs
      else if c \<in> set ''0123456789''
      then parse_items (Some (10 * (case n of None \<Rightarrow> 0 | Some k \<Rightarrow> k) +
             (of_char c - of_char (CHR ''0'')))) cs
      else (case n of None \<Rightarrow> 1 | Some k \<Rightarrow> k, c) # parse_items None cs)"

definition parse_format :: "string \<Rightarrow> (nat \<times> char) list" where
  "parse_format fmt = (case fmt of [] \<Rightarrow> [] | c # cs \<Rightarrow> parse_items None (if c = CHR ''<'' then cs else fmt))"

definition item_size :: "nat \<times> char \<Rightarrow> nat" where
  "item_size = (\<lambda>(n, c). n * (if c = CHR ''Q'' \<or> c = CHR ''d'' then 8 else 1))"

definition calcsize :: "string \<Rightarrow> nat" where
  "calcsize fmt = sum_list (map item_size (parse_format fmt))"

text \<open>One value of a code, and \<open>n\<close> of them.\<close>

fun pack_value :: "char \<Rightarrow> py_value \<Rightarrow> py_error + u8 list" where
  "pack_value c (Py_int v) =
     (if c = CHR ''Q'' then (if 0 \<le> v \<and> v < 2 ^ 64 then Inr (le_bytes 8 (nat v)) else Inl Struct_error)
      else if c = CHR ''B'' then (if 0 \<le> v \<and> v < 2 ^ 8 then Inr (le_bytes 1 (nat v)) else Inl Struct_error)
      else Inl Struct_error)"
| "pack_value c (Py_float x) = (if c = CHR ''d'' then Inr (enc_double x) else Inl Struct_error)"
| "pack_value c (Py_bytes bs) = Inl Struct_error"

fun pack_values :: "nat \<Rightarrow> char \<Rightarrow> py_value list \<Rightarrow> py_error + (u8 list \<times> py_value list)" where
  "pack_values 0 c vs = Inr ([], vs)"
| "pack_values (Suc n) c [] = Inl Struct_error"
| "pack_values (Suc n) c (v # vs) =
     (case pack_value c v of
        Inl err \<Rightarrow> Inl err
      | Inr bs \<Rightarrow>
          (case pack_values n c vs of Inl err \<Rightarrow> Inl err | Inr (bs', vs') \<Rightarrow> Inr (bs @ bs', vs')))"

text \<open>
  \<open>s\<close> takes one bytes object, cut or padded with NUL to the count; \<open>x\<close> writes zero bytes and takes
  no value.
\<close>

definition pack_item :: "nat \<times> char \<Rightarrow> py_value list \<Rightarrow> py_error + (u8 list \<times> py_value list)" where
  "pack_item = (\<lambda>(n, c) vs.
     if c = CHR ''x'' then Inr (replicate n 0, vs)
     else if c = CHR ''s''
     then (case vs of
             Py_bytes bs # vs' \<Rightarrow> Inr (take n bs @ replicate (n - length bs) 0, vs')
           | _ \<Rightarrow> Inl Struct_error)
     else pack_values n c vs)"

fun pack_items :: "(nat \<times> char) list \<Rightarrow> py_value list \<Rightarrow> py_error + u8 list" where
  "pack_items [] vs = (if vs = [] then Inr [] else Inl Struct_error)"
| "pack_items (it # its) vs =
     (case pack_item it vs of
        Inl err \<Rightarrow> Inl err
      | Inr (bs, vs') \<Rightarrow> (case pack_items its vs' of Inl err \<Rightarrow> Inl err | Inr bs' \<Rightarrow> Inr (bs @ bs')))"

definition struct_pack :: "string \<Rightarrow> py_value list \<Rightarrow> py_error + u8 list" where
  "struct_pack fmt vs = pack_items (parse_format fmt) vs"

section \<open>The clients\<close>

definition WIRE_ORDER_FMT :: string where
  "WIRE_ORDER_FMT = ''<QQ BB 8s 6x d Q''"

definition encode_ascii :: "nat list \<Rightarrow> py_error + u8 list" where
  "encode_ascii s = (if list_all (\<lambda>c. c < 128) s then Inr (map of_nat s) else Inl Unicode_encode_error)"

definition ljust :: "nat \<Rightarrow> u8 list \<Rightarrow> u8 list" where
  "ljust n bs = bs @ replicate (n - length bs) 0"

definition make_wire_order ::
  "int \<Rightarrow> int \<Rightarrow> int \<Rightarrow> int \<Rightarrow> double \<Rightarrow> int \<Rightarrow> nat list \<Rightarrow> py_error + u8 list" where
  "make_wire_order oid cid sd ot p qty tk =
     (case encode_ascii tk of
        Inl err \<Rightarrow> Inl err
      | Inr bs \<Rightarrow>
          struct_pack WIRE_ORDER_FMT
            [Py_int oid, Py_int cid, Py_int sd, Py_int ot, Py_bytes (ljust 8 (take 8 bs)), Py_float p, Py_int qty])"

text \<open>
  The loop of \<open>order_generator.py\<close>: the orders numbered from \<open>i\<close> on, with what the random
  generator chose for each, a side, a price, a quantity and a symbol.  The result is what
  \<open>sendall\<close> put on the socket before it was closed.
\<close>

fun send_orders :: "int \<Rightarrow> (int \<times> double \<times> int \<times> nat list) list \<Rightarrow> py_error + u8 list" where
  "send_orders i [] = Inr []"
| "send_orders i ((sd, p, qty, tk) # cs) =
     (case make_wire_order i 1 sd 0 p qty tk of
        Inl err \<Rightarrow> Inl err
      | Inr bs \<Rightarrow> (case send_orders (i + 1) cs of Inl err \<Rightarrow> Inl err | Inr bs' \<Rightarrow> Inr (bs @ bs')))"

definition order_generator :: "(int \<times> double \<times> int \<times> nat list) list \<Rightarrow> py_error + u8 list" where
  "order_generator cs = send_orders 1 cs"

section \<open>The bytes of an order\<close>

lemma format_items:
  "parse_format WIRE_ORDER_FMT =
     [(1, CHR ''Q''), (1, CHR ''Q''), (1, CHR ''B''), (1, CHR ''B''), (8, CHR ''s''), (6, CHR ''x''),
      (1, CHR ''d''), (1, CHR ''Q'')]"
  by (simp add: parse_format_def WIRE_ORDER_FMT_def)

lemma calcsize_wire: "calcsize WIRE_ORDER_FMT = sizeof_WireOrder"
  by (simp add: calcsize_def format_items item_size_def sizeof_WireOrder_value)

text \<open>The arguments \<open>make_wire_order\<close> accepts, and the image it gives.\<close>

definition packable :: "int \<Rightarrow> int \<Rightarrow> int \<Rightarrow> int \<Rightarrow> int \<Rightarrow> bool" where
  "packable oid cid sd ot qty =
     (0 \<le> oid \<and> oid < 2 ^ 64 \<and> 0 \<le> cid \<and> cid < 2 ^ 64 \<and> 0 \<le> sd \<and> sd < 2 ^ 8 \<and> 0 \<le> ot \<and> ot < 2 ^ 8 \<and>
      0 \<le> qty \<and> qty < 2 ^ 64)"

lemma length_ljust: "length (ljust 8 (take 8 bs)) = 8"
  by (simp add: ljust_def)

lemma pack_wire:
  assumes "length tk = 8"
  shows "struct_pack WIRE_ORDER_FMT
      [Py_int oid, Py_int cid, Py_int sd, Py_int ot, Py_bytes tk, Py_float p, Py_int qty] =
    (if packable oid cid sd ot qty
     then Inr (le_bytes 8 (nat oid) @ le_bytes 8 (nat cid) @ [of_int sd, of_int ot] @ tk @ replicate 6 0 @
               enc_double p @ le_bytes 8 (nat qty))
     else Inl Struct_error)"
  using assms
  by (auto simp: struct_pack_def format_items pack_item_def packable_def)

lemma le_bytes_of_int: "0 \<le> v \<Longrightarrow> v < 2 ^ 64 \<Longrightarrow> le_bytes 8 (nat v) = enc_u64 (of_int v)"
  by (simp add: enc_u64_def unat_eq_nat_uint uint_word_of_int)


lemma make_wire_order_eq:
  "make_wire_order oid cid sd ot p qty tk =
     (if \<not> list_all (\<lambda>c. c < 128) tk then Inl Unicode_encode_error
      else if \<not> packable oid cid sd ot qty then Inl Struct_error
      else Inr (enc_u64 (of_int oid) @ enc_u64 (of_int cid) @ [of_int sd, of_int ot] @
                symbol (set_symbol (map of_nat tk) default_order) @ replicate 6 0 @
                enc_double p @ enc_u64 (of_int qty)))"
proof -
  have "ljust 8 (take 8 (map of_nat tk)) = symbol (set_symbol (map of_nat tk) default_order)"
    by (simp add: ljust_def set_symbol_layout min_def)
  moreover have "packable oid cid sd ot qty \<Longrightarrow> le_bytes 8 (nat oid) = enc_u64 (of_int oid) \<and>
      le_bytes 8 (nat cid) = enc_u64 (of_int cid) \<and> le_bytes 8 (nat qty) = enc_u64 (of_int qty)"
    by (simp add: packable_def le_bytes_of_int)
  ultimately show ?thesis
    using pack_wire [OF length_ljust, of oid cid sd ot "map of_nat tk" p qty]
    by (auto simp: make_wire_order_def encode_ascii_def)
qed

text \<open>The order that the arguments of \<open>make_wire_order\<close> describe.\<close>

definition meant_order :: "int \<Rightarrow> int \<Rightarrow> int \<Rightarrow> int \<Rightarrow> double \<Rightarrow> int \<Rightarrow> nat list \<Rightarrow> Order" where
  "meant_order oid cid sd ot p qty tk =
     set_symbol (map of_nat tk) default_order
       \<lparr>order_id := of_int oid, client_id := of_int cid, side := (if sd = 0 then BUY else SELL),
        otype := (if ot = 0 then LIMIT else MARKET), price := p, quantity := of_int qty,
        remaining_quantity := of_int qty\<rparr>"

lemma of_int_byte_0: "0 \<le> v \<Longrightarrow> v < 2 ^ 8 \<Longrightarrow> ((of_int v :: u8) = 0) = (v = 0)"
proof -
  assume v: "0 \<le> v" "v < 2 ^ 8"
  have "uint (of_int v :: u8) = v" using v by (simp add: uint_word_of_int)
  then show ?thesis by (metis unsigned_0 word_of_int_0)
qed

lemma wire_image:
  fixes oid cid qty :: u64 and p :: double
  assumes "length tk = 8" and "0 \<le> sd" "sd < 2 ^ 8" "0 \<le> ot" "ot < 2 ^ 8"
  defines "bs \<equiv> enc_u64 oid @ enc_u64 cid @ [of_int sd, of_int ot] @ tk @ replicate 6 0 @
                  enc_double p @ enc_u64 qty"
  shows "length bs = sizeof_WireOrder \<and>
         wire_to_order (dec_wire bs) = default_order\<lparr>order_id := oid, client_id := cid,
           side := (if sd = 0 then BUY else SELL), otype := (if ot = 0 then LIMIT else MARKET),
           symbol := tk, price := p, quantity := qty, remaining_quantity := qty\<rparr>"
proof -
  have len: "length bs = 48" using assms(1) by (simp add: bs_def)
  have b: "bs ! 16 = of_int sd" "bs ! 17 = of_int ot" by (simp_all add: bs_def nth_append)
  have "wire_to_order (dec_wire bs) = default_order\<lparr>order_id := oid, client_id := cid,
           side := (if sd = 0 then BUY else SELL), otype := (if ot = 0 then LIMIT else MARKET),
           symbol := tk, price := p, quantity := qty, remaining_quantity := qty\<rparr>"
    unfolding wire_to_order_def dec_wire_fields [OF len] b WireOrder.select_convs
      of_int_byte_0 [OF assms(2,3)] of_int_byte_0 [OF assms(4,5)]
    using assms(1) by (simp add: bs_def)
  then show ?thesis using len by (simp add: sizeof_WireOrder_value)
qed

lemma make_wire_order_decodes:
  assumes "make_wire_order oid cid sd ot p qty tk = Inr bs"
  shows "length bs = sizeof_WireOrder \<and> wire_to_order (dec_wire bs) = meant_order oid cid sd ot p qty tk"
proof -
  have ok: "packable oid cid sd ot qty" and bs: "bs = enc_u64 (of_int oid) @ enc_u64 (of_int cid) @
      [of_int sd, of_int ot] @ symbol (set_symbol (map of_nat tk) default_order) @ replicate 6 0 @
      enc_double p @ enc_u64 (of_int qty)"
    using assms by (auto simp: make_wire_order_eq split: if_splits)
  have "length (symbol (set_symbol (map of_nat tk) default_order)) = 8"
    using set_symbol_wf by (simp add: order_wf_def kSymbolLen_def)
  from wire_image [OF this, of sd ot "of_int oid" "of_int cid" p "of_int qty"] ok show ?thesis
    by (auto simp: bs packable_def meant_order_def set_symbol_def Let_def)
qed

text \<open>
  C24: The Python clients and the C++ server agree on the wire format, which each of them
  states for itself.  \<open>make_wire_order\<close> raises exactly if the symbol is not ASCII or a number is
  out of the range of its member; otherwise its bytes have the size of \<open>WireOrder\<close> and the feed
  handler reads from them the order that was meant: every number unchanged, side and type by
  their enumerators, the symbol cut to eight bytes and padded with NUL.
\<close>

theorem wire_client_agrees:
  "case make_wire_order oid cid sd ot p qty tk of
     Inl err \<Rightarrow> err = (if list_all (\<lambda>c. c < 128) tk then Struct_error else Unicode_encode_error) \<and>
                (list_all (\<lambda>c. c < 128) tk \<and> packable oid cid sd ot qty) = False
   | Inr bs \<Rightarrow> list_all (\<lambda>c. c < 128) tk \<and> packable oid cid sd ot qty \<and>
               length bs = calcsize WIRE_ORDER_FMT \<and> length bs = sizeof_WireOrder \<and>
               wire_to_order (dec_wire bs) = meant_order oid cid sd ot p qty tk"
proof (cases "make_wire_order oid cid sd ot p qty tk")
  case (Inl err)
  then show ?thesis by (auto simp: make_wire_order_eq split: if_splits)
next
  case (Inr bs)
  then have "list_all (\<lambda>c. c < 128) tk \<and> packable oid cid sd ot qty"
    by (auto simp: make_wire_order_eq split: if_splits)
  then show ?thesis using Inr make_wire_order_decodes [OF Inr] by (simp add: calcsize_wire)
qed

section \<open>A session of the order generator\<close>

text \<open>The orders the generator means, numbered from \<open>i\<close> on.\<close>

fun generated :: "int \<Rightarrow> (int \<times> double \<times> int \<times> nat list) list \<Rightarrow> Order list" where
  "generated i [] = []"
| "generated i ((sd, p, qty, tk) # cs) = meant_order i 1 sd 0 p qty tk # generated (i + 1) cs"

lemma orders_of_chunk:
  "length bs = sizeof_WireOrder \<Longrightarrow>
     orders_of (bs @ bs') = wire_to_order (dec_wire bs) # orders_of bs' \<and> rest_of (bs @ bs') = rest_of bs'"
  using rest_of_step [of "bs @ bs'"] by (subst orders_of.simps) simp

lemma send_orders_decoded:
  "send_orders i cs = Inr bs \<Longrightarrow> orders_of bs = generated i cs \<and> rest_of bs = []"
proof (induction cs arbitrary: i bs)
  case Nil
  then show ?case using rest_of_short [of "[]"] orders_of_short [of "[]"] by (simp add: sizeof_WireOrder_value)
next
  case (Cons c cs)
  obtain sd p qty tk where c: "c = (sd, p, qty, tk)" by (metis prod_cases4)
  obtain b bs' where b: "make_wire_order i 1 sd 0 p qty tk = Inr b"
    and rec: "send_orders (i + 1) cs = Inr bs'" and bs: "bs = b @ bs'"
    using Cons.prems by (auto simp: c split: sum.splits)
  show ?case
    using Cons.IH [OF rec] make_wire_order_decodes [OF b] orders_of_chunk [of b bs'] by (simp add: c bs)
qed

text \<open>What the generator chooses is always sent.\<close>

definition choice_ok :: "int \<times> double \<times> int \<times> nat list \<Rightarrow> bool" where
  "choice_ok = (\<lambda>(sd, p, qty, tk). 0 \<le> sd \<and> sd \<le> 1 \<and> 1 \<le> qty \<and> qty \<le> 100 \<and>
     tk \<in> set (map (map of_char) [''XYZ'', ''ABC'', ''TATA'']))"

lemma send_orders_total:
  "0 \<le> i \<Longrightarrow> i + int (length cs) \<le> 2 ^ 64 \<Longrightarrow> list_all choice_ok cs \<Longrightarrow> \<exists>bs. send_orders i cs = Inr bs"
proof (induction cs arbitrary: i)
  case Nil
  then show ?case by simp
next
  case (Cons c cs)
  obtain sd p qty tk where c: "c = (sd, p, qty, tk)" by (metis prod_cases4)
  have ok: "choice_ok (sd, p, qty, tk)" using Cons.prems(3) c by simp
  then have "packable i 1 sd 0 qty" using Cons.prems(1,2) by (simp add: choice_ok_def packable_def)
  moreover have "list_all (\<lambda>c. c < 128) tk" using ok by (auto simp: choice_ok_def)
  ultimately obtain b where "make_wire_order i 1 sd 0 p qty tk = Inr b" by (simp add: make_wire_order_eq)
  moreover obtain bs where "send_orders (i + 1) cs = Inr bs" using Cons.IH [of "i + 1"] Cons.prems by auto
  ultimately show ?case by (simp add: c)
qed

text \<open>
  C39: The order generator sends its orders and closes the connection.  Its bytes are the
  orders it chose, numbered from one.  If the handler's reads end before the end of the stream
  is reported, it pushes exactly these orders, in their order.  But if the end of the stream,
  or an error, is reported in the same wake-up, the connection is closed before its buffer is
  processed, and none of them is pushed: complete orders are lost without a trace.
\<close>

theorem orders_before_close_dropped:
  assumes "list_all choice_ok cs" and "length cs < 2 ^ 63" and "connections h fd = Some []"
  shows "\<exists>bs. order_generator cs = Inr bs \<and>
     (concat chunks = bs \<longrightarrow>
        handle_client_data push fd chunks Would_block h =
          map_option (\<lambda>q. h\<lparr>order_sink := q\<rparr>) (push_all push (generated 1 cs) (order_sink h)) \<and>
        (fin \<noteq> Would_block \<longrightarrow>
           handle_client_data push fd chunks fin h = Some (h\<lparr>connections := (connections h)(fd := None)\<rparr>)))"
proof -
  obtain bs where bs: "send_orders 1 cs = Inr bs" using send_orders_total [of 1 cs] assms(1,2) by auto
  note dec = send_orders_decoded [OF bs]
  have same: "h\<lparr>connections := (connections h)(fd \<mapsto> []), order_sink := q\<rparr> = h\<lparr>order_sink := q\<rparr>" for q
    using assms(3) by (simp add: fun_upd_idem)
  have "handle_client_data push fd chunks Would_block h =
      map_option (\<lambda>q. h\<lparr>order_sink := q\<rparr>) (push_all push (generated 1 cs) (order_sink h))"
    if "concat chunks = bs"
    using that assms(3) dec same
    by (simp add: handle_client_data_def process_buffer_orders Let_def split: option.split)
  moreover have "handle_client_data push fd chunks fin h =
      Some (h\<lparr>connections := (connections h)(fd := None)\<rparr>)" if "fin \<noteq> Would_block"
    using assms(3) that by (cases fin) (simp_all add: handle_client_data_def close_connection_def)
  ultimately show ?thesis using bs by (auto simp: order_generator_def)
qed

definition sample_choice :: "int \<times> double \<times> int \<times> nat list" where
  "sample_choice = (0, F64 0x4059000000000000, 10, map of_char ''XYZ'')"

theorem orders_before_close_dropped_witness:
  "\<exists>bs. order_generator [sample_choice] = Inr bs \<and>
     handle_client_data list_push 5 [bs] Would_block one_client =
       Some (one_client\<lparr>order_sink := generated 1 [sample_choice]\<rparr>) \<and>
     handle_client_data list_push 5 [bs] Peer_closed one_client =
       Some \<lparr>connections = Map.empty, order_sink = [], running = True\<rparr>"
proof -
  obtain bs where bs: "order_generator [sample_choice] = Inr bs"
    using send_orders_total [of 1 "[sample_choice]"]
    by (auto simp: order_generator_def sample_choice_def choice_ok_def)
  have "list_all choice_ok [sample_choice]" by (simp add: sample_choice_def choice_ok_def)
  from orders_before_close_dropped [OF this, of one_client 5 "[bs]" list_push Peer_closed] bs
  show ?thesis by (simp add: one_client_def list_push_def sample_choice_def)
qed

end
