(* ===== verification/ServerSession.thy ===== *)
theory ServerSession
  imports Server WireClient
begin

text \<open>
  The server of \<open>src/server_main.cpp\<close> as a program, from its start to the text it prints, and a
  session of \<open>client/manual_test.py\<close> with it: the bytes the Python script sends, through the feed
  handler, the queue and the engine, to the line on the console.
\<close>

section \<open>The program\<close>

text \<open>
  The signal handler is installed before \<open>run\<close> sets \<open>running_\<close>; \<open>early\<close> is the number of interrupts
  in between.
\<close>

definition server_start :: "nat \<Rightarrow> server" where
  "server_start early =
     (let h = \<lparr>connections = Map.empty, order_sink = mutex_queue, running = False\<rparr>
      in \<lparr>handler = ((signal_handler True ^^ early) h)\<lparr>running := True\<rparr>, results = (make_engine lit_10, [])\<rparr>)"

fun reason_code :: "RejectReason \<Rightarrow> nat" where
  "reason_code NONE = 0"
| "reason_code PRICE_TOO_HIGH = 1"
| "reason_code PRICE_TOO_LOW = 2"

text \<open>The two formats; the server has no other lines.\<close>

fun server_text :: "out_line \<Rightarrow> string" where
  "server_text (Trade_line t) =
     ''TRADE buy='' @ to_string_nat (unat (buy_order_id t)) @ '' sell='' @ to_string_nat (unat (sell_order_id t)) @
     '' price='' @ fixed2 (t_price t) @ '' qty='' @ to_string_nat (unat (t_quantity t)) @ [CHR 0x0A]"
| "server_text (Reject_line r) =
     ''REJECT order='' @ to_string_nat (unat (rej_order_id r)) @ '' reason='' @ to_string_nat (reason_code (rej_reason r)) @
     [CHR 0x0A]"
| "server_text _ = []"

definition server_program :: "nat \<Rightarrow> server_action list \<Rightarrow> nat \<Rightarrow> string option" where
  "server_program early acts n =
     (case server_run acts (server_start early) of
        None \<Rightarrow> None
      | Some s \<Rightarrow>
          (case consume mutex_pop server_handle n (mutex_shutdown (order_sink (handler s))) (results s) of
             None \<Rightarrow> None
           | Some (q, e, out) \<Rightarrow>
               Some (''Matching engine server listening on port 9000'' @ [CHR 0x0A] @
                     concat (map server_text (snd (results s))) @ [CHR 0x0A] @ ''Shutting down...'' @ [CHR 0x0A] @
                     concat (map server_text (drop (length (snd (results s))) out)))))"

text \<open>An interrupt before the loop starts is lost: \<open>stop\<close> finds \<open>running_\<close> false and does nothing.\<close>

lemma early_interrupts_lost: "server_start early = make_server"
proof -
  have "(signal_handler True ^^ early) h = h" if "\<not> running h" for h :: "MutexOrderQueue feed_handler"
    using that by (induction early) (simp_all add: signal_handler_def stop_def)
  then show ?thesis by (simp add: server_start_def make_server_def Let_def)
qed

section \<open>The script\<close>

definition lit_101 :: double where
  "lit_101 = F64 0x4059400000000000"

text \<open>\<open>main\<close> of \<open>manual_test.py\<close>: what each of the three calls of \<open>sendall\<close> gets.\<close>

definition manual_test :: "(py_error + u8 list) list" where
  "manual_test =
     (let xyz = map of_char ''XYZ''
      in [make_wire_order 1 1 0 0 lit_100 10 xyz, make_wire_order 2 2 0 0 lit_101 15 xyz,
          make_wire_order 3 3 1 0 lit_100 10 xyz])"

definition manual_orders :: "Order list" where
  "manual_orders =
     (let xyz = map of_char ''XYZ''
      in [meant_order 1 1 0 0 lit_100 10 xyz, meant_order 2 2 0 0 lit_101 15 xyz, meant_order 3 3 1 0 lit_100 10 xyz])"

lemma manual_test_bytes:
  "\<exists>a b c. manual_test = [Inr a, Inr b, Inr c] \<and> orders_of (a @ b @ c) = manual_orders \<and> rest_of (a @ b @ c) = []"
proof -
  let ?xyz = "map of_char ''XYZ'' :: nat list"
  have ok: "\<exists>bs. make_wire_order i i sd 0 p qty ?xyz = Inr bs"
    if "0 \<le> i" "i < 4" "0 \<le> sd" "sd < 2" "0 \<le> qty" "qty < 16" for i sd p qty
    using that by (auto simp: make_wire_order_eq packable_def)
  obtain a where a: "make_wire_order 1 1 0 0 lit_100 10 ?xyz = Inr a" using ok [of 1 0 10] by auto
  obtain b where b: "make_wire_order 2 2 0 0 lit_101 15 ?xyz = Inr b" using ok [of 2 0 15] by auto
  obtain c where c: "make_wire_order 3 3 1 0 lit_100 10 ?xyz = Inr c" using ok [of 3 1 10] by auto
  have "orders_of [] = []" "rest_of [] = ([] :: u8 list)"
    using rest_of_short [of "[]"] orders_of_short [of "[]"] by (simp_all add: sizeof_WireOrder_value)
  then show ?thesis
    using make_wire_order_decodes [OF a] make_wire_order_decodes [OF b] make_wire_order_decodes [OF c]
      orders_of_chunk [of a "b @ c"] orders_of_chunk [of b c] orders_of_chunk [of c "[]"] a b c
    by (simp add: manual_test_def manual_orders_def Let_def)
qed

section \<open>What the engine makes of it\<close>

lemma prices_101 [simp]:
  "lit_100 < lit_101" "\<not> lit_101 < lit_100" "\<not> lit_101 < lit_101" "\<not> is_nan lit_101"
  by (simp_all add: lit_100_def lit_101_def less_double_def dkey_def is_nan_def inf_mag_def mag_def dneg_def)

definition manual_trade :: Trade where
  "manual_trade = \<lparr>buy_order_id = 2, sell_order_id = 3, t_price = lit_101, t_quantity = 10, t_timestamp = 4\<rparr>"

lemma meant_fields [simp]:
  "order_id (meant_order i c sd ot p q tk) = of_int i" "side (meant_order i c sd ot p q tk) = (if sd = 0 then BUY else SELL)"
  "otype (meant_order i c sd ot p q tk) = (if ot = 0 then LIMIT else MARKET)" "price (meant_order i c sd ot p q tk) = p"
  "quantity (meant_order i c sd ot p q tk) = of_int q" "remaining_quantity (meant_order i c sd ot p q tk) = of_int q"
  by (simp_all add: meant_order_def)

lemma manual_run:
  "\<exists>e. run_orders server_handle manual_orders (make_engine lit_10, []) = Some (e, [Trade_line manual_trade]) \<and>
     map (\<lambda>(p, level). (p, map (\<lambda>x. (order_id x, remaining_quantity x)) level)) (bids (book e)) =
       [(lit_101, [(2, 5)]), (lit_100, [(1, 10)])] \<and> asks (book e) = []"
  by (simp add: manual_orders_def server_handle_def submit_order_def make_engine_def empty_book_def check_def
      match_against.simps add_resting_order_def price_stops_def match_fill_def make_trade_def manual_trade_def Let_def)

lemma hundredths_101: "hundredths lit_101 = 10100"
proof -
  have "sval 0x4059400000000000 = 101 * 2 ^ 1074"
    using sval_normal [where m = "0x19400000000000" and k = 1028] by simp
  then show ?thesis by (simp add: hundredths_def lit_101_def mag_def rne_def)
qed

lemma manual_text:
  "server_text (Trade_line manual_trade) = ''TRADE buy=2 sell=3 price=101.00 qty=10'' @ [CHR 0x0A]"
proof -
  have "to_string_nat 2 = ''2''" "to_string_nat 3 = ''3''" "to_string_nat 10 = ''10''" "to_string_nat 101 = ''101''"
    by code_simp+
  moreover have "fixed2 lit_101 = to_string_nat 101 @ ''.'' @ ''00''"
    unfolding fixed2_def hundredths_101
    by (simp add: lit_101_def dneg_def is_nan_def is_inf_def inf_mag_def mag_def char_of_def bit_Suc_0_iff)
  ultimately show ?thesis by (simp add: manual_trade_def)
qed

section \<open>Schedules\<close>

definition feeds :: "server_action list \<Rightarrow> feed_event list" where
  "feeds acts = concat (map (\<lambda>a. case a of Feed b \<Rightarrow> b | Consume \<Rightarrow> []) acts)"

lemma batch_effect_append:
  "Ev_signal \<notin> set xs \<Longrightarrow>
     batch_effect (xs @ ys) m True =
       (case batch_effect xs m True of
          (a, m', r) \<Rightarrow> if r then (case batch_effect ys m' True of (b, m'', r') \<Rightarrow> (a @ b, m'', r')) else (a, m', r))"
proof (induction xs arbitrary: m)
  case (Cons ev xs)
  then show ?case by (cases ev) (auto split: prod.splits option.splits)
qed simp

lemma server_orders_stopped: "server_orders acts m False = []"
  by (induction acts m False rule: server_orders.induct) simp_all

lemma server_orders_feeds:
  "Ev_signal \<notin> set (feeds acts) \<Longrightarrow> server_orders acts m True = fst (batch_effect (feeds acts) m True)"
proof (induction acts arbitrary: m)
  case (Cons a acts)
  show ?case
  proof (cases a)
    case (Feed b)
    then have b: "Ev_signal \<notin> set b" "Ev_signal \<notin> set (feeds acts)" "feeds (a # acts) = b @ feeds acts"
      using Cons.prems by (simp_all add: feeds_def)
    show ?thesis
      unfolding b(3) batch_effect_append [OF b(1)]
      using Cons.IH [OF b(2)] by (auto simp: Feed server_orders_stopped split: prod.splits)
  qed (use Cons in \<open>simp add: feeds_def\<close>)
qed (simp add: feeds_def)

lemma server_handle_appends: "server_handle x (e, out) = Some (e', out') \<Longrightarrow> prefix out out'"
  by (auto simp: server_handle_def split: option.splits)

lemma consume_appends:
  "consume mutex_pop server_handle n q st = Some (q', st') \<Longrightarrow> prefix (snd st) (snd st')"
proof (induction n arbitrary: q st)
  case (Suc n)
  obtain r q1 where pop: "mutex_pop q = (r, q1)" by fastforce
  show ?case
  proof (cases r)
    case (Popped x)
    then obtain st1 where h: "server_handle x st = Some st1" "consume mutex_pop server_handle n q1 st1 = Some (q', st')"
      using Suc.prems pop by (auto split: option.splits)
    have "prefix (snd st) (snd st1)"
      using server_handle_appends [of x "fst st" "snd st" "fst st1" "snd st1"] h(1) by simp
    then show ?thesis using Suc.IH [OF h(2)] by simp
  qed (use Suc.prems pop in simp_all)
qed simp



end
