(* ===== verification/TcpSockets.thy ===== *)
theory TcpSockets
  imports Main
begin

text \<open>
  The descriptors of \<open>TCPFeedHandler\<close> (\<open>src/tcp_feed_handler.cpp\<close>): what \<open>run\<close> opens before its loop,
  what accepting and closing connections does, and what the destructor closes.  The kernel's
  side is the table of open descriptors, of which a new one is the lowest number not in use,
  and a list that says of each system call that can fail whether it succeeds; after its end all
  succeed.  An exception is the left of a sum, and what was done before it stays done.
\<close>

section \<open>State and system calls\<close>

datatype sys_error =
  Pipe_failed | Fcntl_get_failed | Fcntl_set_failed | Socket_failed | Bind_failed | Listen_failed
  | Epoll_create_failed | Epoll_ctl_failed

record sockets =
  answers :: "bool list"
  open_fds :: "nat list"
  watched :: "nat list"
  listen_fd :: "nat option"
  epoll_fd :: "nat option"
  stop_read_fd :: "nat option"
  stop_write_fd :: "nat option"
  clients :: "nat list"

type_synonym 'a sys = "sockets \<Rightarrow> (sys_error + 'a) \<times> sockets"

definition sbind :: "'a sys \<Rightarrow> ('a \<Rightarrow> 'b sys) \<Rightarrow> 'b sys" where
  "sbind m f = (\<lambda>s. case m s of (Inl err, s') \<Rightarrow> (Inl err, s') | (Inr x, s') \<Rightarrow> f x s')"

definition sdo :: "(sockets \<Rightarrow> sockets) \<Rightarrow> unit sys" where
  "sdo f = (\<lambda>s. (Inr (), f s))"

definition sget :: "(sockets \<Rightarrow> 'a) \<Rightarrow> 'a sys" where
  "sget f = (\<lambda>s. (Inr (f s), s))"

text \<open>A system call whose failure makes the code throw.\<close>

definition sys_call :: "sys_error \<Rightarrow> unit sys" where
  "sys_call err = (\<lambda>s. case answers s of
     [] \<Rightarrow> (Inr (), s)
   | ok # as \<Rightarrow> (if ok then Inr () else Inl err, s\<lparr>answers := as\<rparr>))"

definition lowest :: "nat list \<Rightarrow> nat" where
  "lowest fds = hd (filter (\<lambda>n. n \<notin> set fds) [0 ..< Suc (length fds)])"

definition open_new :: "nat sys" where
  "open_new = (\<lambda>s. (Inr (lowest (open_fds s)), s\<lparr>open_fds := lowest (open_fds s) # open_fds s\<rparr>))"

definition close_fds :: "nat list \<Rightarrow> sockets \<Rightarrow> sockets" where
  "close_fds fds s = s\<lparr>open_fds := filter (\<lambda>n. n \<notin> set fds) (open_fds s)\<rparr>"

section \<open>The handler\<close>

definition new_handler :: "bool list \<Rightarrow> nat list \<Rightarrow> sockets" where
  "new_handler as fds =
     \<lparr>answers = as, open_fds = fds, watched = [], listen_fd = None, epoll_fd = None,
      stop_read_fd = None, stop_write_fd = None, clients = []\<rparr>"

definition set_nonblocking :: "nat \<Rightarrow> unit sys" where
  "set_nonblocking fd = sbind (sys_call Fcntl_get_failed) (\<lambda>_. sys_call Fcntl_set_failed)"

definition epoll_add :: "nat \<Rightarrow> unit sys" where
  "epoll_add fd = sbind (sys_call Epoll_ctl_failed) (\<lambda>_. sdo (\<lambda>s. s\<lparr>watched := fd # watched s\<rparr>))"

definition open_pipe :: "unit sys" where
  "open_pipe =
     sbind (sys_call Pipe_failed) (\<lambda>_.
     sbind open_new (\<lambda>r.
     sbind open_new (\<lambda>w.
     sbind (sdo (\<lambda>s. s\<lparr>stop_read_fd := Some r, stop_write_fd := Some w\<rparr>)) (\<lambda>_.
     set_nonblocking r))))"

definition open_listener :: "unit sys" where
  "open_listener =
     sbind (sys_call Socket_failed) (\<lambda>_.
     sbind open_new (\<lambda>l.
     sbind (sdo (\<lambda>s. s\<lparr>listen_fd := Some l\<rparr>)) (\<lambda>_.
     sbind (set_nonblocking l) (\<lambda>_.
     sbind (sys_call Bind_failed) (\<lambda>_.
     sys_call Listen_failed)))))"

definition open_epoll :: "unit sys" where
  "open_epoll =
     sbind (sys_call Epoll_create_failed) (\<lambda>_.
     sbind open_new (\<lambda>e.
     sbind (sdo (\<lambda>s. s\<lparr>epoll_fd := Some e\<rparr>)) (\<lambda>_.
     sbind (sget (\<lambda>s. the (listen_fd s))) (\<lambda>l.
     sbind (epoll_add l) (\<lambda>_.
     sbind (sget (\<lambda>s. the (stop_read_fd s))) epoll_add)))))"

text \<open>\<open>run\<close> up to its loop.\<close>

definition run_setup :: "unit sys" where
  "run_setup = sbind open_pipe (\<lambda>_. sbind open_listener (\<lambda>_. open_epoll))"

text \<open>The loop of \<open>accept_connections\<close>, over the results of \<open>accept\<close> up to the one that would block.\<close>

datatype accept_result = Accepted | Transient_error

fun accept_loop :: "accept_result list \<Rightarrow> unit sys" where
  "accept_loop [] = sdo (\<lambda>s. s)"
| "accept_loop (Transient_error # rs) = accept_loop rs"
| "accept_loop (Accepted # rs) =
     sbind open_new (\<lambda>c.
     sbind (set_nonblocking c) (\<lambda>_.
     sbind (epoll_add c) (\<lambda>_.
     sbind (sdo (\<lambda>s. s\<lparr>clients := c # clients s\<rparr>)) (\<lambda>_.
     accept_loop rs))))"

definition drop_client :: "nat \<Rightarrow> sockets \<Rightarrow> sockets" where
  "drop_client fd s =
     close_fds [fd] (s\<lparr>watched := removeAll fd (watched s), clients := removeAll fd (clients s)\<rparr>)"

datatype socket_event = Listener_ready "accept_result list" | Client_gone nat

text \<open>The events of the loop that touch descriptors; only a connection's descriptor can be gone.\<close>

fun socket_events :: "socket_event list \<Rightarrow> unit sys" where
  "socket_events [] = sdo (\<lambda>s. s)"
| "socket_events (Listener_ready rs # evs) = sbind (accept_loop rs) (\<lambda>_. socket_events evs)"
| "socket_events (Client_gone fd # evs) =
     sbind (sdo (\<lambda>s. if fd \<in> set (clients s) then drop_client fd s else s)) (\<lambda>_. socket_events evs)"

definition option_list :: "'a option \<Rightarrow> 'a list" where
  "option_list x = (case x of None \<Rightarrow> [] | Some y \<Rightarrow> [y])"

definition fixed_fds :: "sockets \<Rightarrow> nat list" where
  "fixed_fds s =
     option_list (listen_fd s) @ option_list (epoll_fd s) @ option_list (stop_read_fd s) @
     option_list (stop_write_fd s)"

definition destroy_handler :: "sockets \<Rightarrow> sockets" where
  "destroy_handler s = close_fds (fixed_fds s) (close_fds (clients s) s)"

section \<open>Ownership\<close>

text \<open>
  Of the process's open descriptors \<open>os\<close> were open before, \<open>extra\<close> nobody owns, and the rest
  are those the destructor closes.
\<close>

definition owns :: "nat set \<Rightarrow> nat set \<Rightarrow> sockets \<Rightarrow> bool" where
  "owns os extra s =
     (set (open_fds s) = os \<union> extra \<union> set (clients s) \<union> set (fixed_fds s) \<and>
      (os \<union> extra) \<inter> (set (clients s) \<union> set (fixed_fds s)) = {} \<and> os \<inter> extra = {} \<and>
      set (clients s) \<inter> set (fixed_fds s) = {})"

lemma some_unused: "filter (\<lambda>n. n \<notin> set fds) [0 ..< Suc (length fds)] \<noteq> []"
proof
  assume "filter (\<lambda>n. n \<notin> set fds) [0 ..< Suc (length fds)] = []"
  then have "{0 ..< Suc (length fds)} \<subseteq> set fds" unfolding filter_empty_conv set_upt by blast
  then have "card {0 ..< Suc (length fds)} \<le> length fds"
    by (meson card_length card_mono finite_set le_trans)
  then show False by simp
qed

lemma lowest_fresh: "lowest fds \<notin> set fds"
  using hd_in_set [OF some_unused [of fds]] unfolding lowest_def set_filter by blast

lemma destroy_owned: "owns os extra s \<Longrightarrow> set (open_fds (destroy_handler s)) = os \<union> extra"
  by (auto simp: owns_def destroy_handler_def close_fds_def)

text \<open>
  The rule for a sequence of calls: a property \<open>P\<close> of the state after a normal return, and \<open>Q\<close>
  after an exception.
\<close>

definition ends :: "'a sys \<Rightarrow> sockets \<Rightarrow> ('a \<Rightarrow> sockets \<Rightarrow> bool) \<Rightarrow> (sockets \<Rightarrow> bool) \<Rightarrow> bool" where
  "ends m s P Q = (case m s of (Inl err, s') \<Rightarrow> Q s' | (Inr x, s') \<Rightarrow> P x s')"

lemma ends_sbind: "ends (sbind m f) s P Q = ends m s (\<lambda>x s'. ends (f x) s' P Q) Q"
  by (auto simp: ends_def sbind_def split: prod.splits sum.splits)

lemma ends_sdo: "ends (sdo f) s P Q = P () (f s)"
  by (simp add: ends_def sdo_def)

lemma ends_sget: "ends (sget f) s P Q = P (f s) s"
  by (simp add: ends_def sget_def)

lemma ends_open_new:
  "ends open_new s P Q = P (lowest (open_fds s)) (s\<lparr>open_fds := lowest (open_fds s) # open_fds s\<rparr>)"
  by (simp add: ends_def open_new_def)

lemma ends_sys_call:
  "(\<And>as. P () (s\<lparr>answers := as\<rparr>)) \<Longrightarrow> (\<And>as. Q (s\<lparr>answers := as\<rparr>)) \<Longrightarrow> ends (sys_call err) s P Q"
proof -
  assume a: "\<And>as. P () (s\<lparr>answers := as\<rparr>)" and b: "\<And>as. Q (s\<lparr>answers := as\<rparr>)"
  have "P () s" using a [of "answers s"] by simp
  then show ?thesis using a b by (auto simp: ends_def sys_call_def split: list.split)
qed

lemma ends_mono:
  "ends m s P Q \<Longrightarrow> (\<And>x s'. P x s' \<Longrightarrow> P' x s') \<Longrightarrow> (\<And>s'. Q s' \<Longrightarrow> Q' s') \<Longrightarrow> ends m s P' Q'"
  by (auto simp: ends_def split: prod.splits sum.splits)

lemma owns_frame [simp]:
  "owns os extra (s\<lparr>answers := as\<rparr>) = owns os extra s"
  "owns os extra (s\<lparr>watched := ws\<rparr>) = owns os extra s"
  by (simp_all add: owns_def fixed_fds_def)

lemma owns_pipe:
  "owns os {} s \<Longrightarrow> stop_read_fd s = None \<Longrightarrow> stop_write_fd s = None \<Longrightarrow> r \<notin> set (open_fds s) \<Longrightarrow>
     w \<notin> set (r # open_fds s) \<Longrightarrow>
     owns os {} (s\<lparr>open_fds := w # r # open_fds s, stop_read_fd := Some r, stop_write_fd := Some w\<rparr>)"
  by (auto simp: owns_def fixed_fds_def option_list_def)

lemma owns_listener:
  "owns os {} s \<Longrightarrow> listen_fd s = None \<Longrightarrow> l \<notin> set (open_fds s) \<Longrightarrow>
     owns os {} (s\<lparr>open_fds := l # open_fds s, listen_fd := Some l\<rparr>)"
  by (auto simp: owns_def fixed_fds_def option_list_def)

lemma owns_epoll:
  "owns os {} s \<Longrightarrow> epoll_fd s = None \<Longrightarrow> e \<notin> set (open_fds s) \<Longrightarrow>
     owns os {} (s\<lparr>open_fds := e # open_fds s, epoll_fd := Some e\<rparr>)"
  by (auto simp: owns_def fixed_fds_def option_list_def)

lemma owns_client:
  "owns os {} s \<Longrightarrow> c \<notin> set (open_fds s) \<Longrightarrow>
     owns os {} (s\<lparr>open_fds := c # open_fds s, clients := c # clients s\<rparr>)"
  by (auto simp: owns_def fixed_fds_def)

lemma owns_unowned:
  "owns os {} s \<Longrightarrow> c \<notin> set (open_fds s) \<Longrightarrow> owns os {c} (s\<lparr>open_fds := c # open_fds s\<rparr>)"
  by (auto simp: owns_def fixed_fds_def)

lemma owns_drop: "owns os {} s \<Longrightarrow> fd \<in> set (clients s) \<Longrightarrow> owns os {} (drop_client fd s)"
  by (auto simp: owns_def drop_client_def close_fds_def fixed_fds_def)

lemmas ends_rules = ends_sbind ends_sdo ends_sget ends_open_new

lemma ends_set_nonblocking:
  "(\<And>as. P () (s\<lparr>answers := as\<rparr>)) \<Longrightarrow> (\<And>as. Q (s\<lparr>answers := as\<rparr>)) \<Longrightarrow> ends (set_nonblocking fd) s P Q"
  unfolding set_nonblocking_def ends_sbind by (intro ends_sys_call) simp_all

lemma ends_epoll_add:
  "(\<And>as. P () (s\<lparr>answers := as, watched := fd # watched s\<rparr>)) \<Longrightarrow> (\<And>as. Q (s\<lparr>answers := as\<rparr>)) \<Longrightarrow>
     ends (epoll_add fd) s P Q"
  unfolding epoll_add_def ends_sbind ends_sdo by (intro ends_sys_call) simp_all

text \<open>What \<open>run\<close> has opened it owns, whether it gets to its loop or throws.\<close>

lemma pipe_owned:
  assumes "owns os {} s" and "stop_read_fd s = None" and "stop_write_fd s = None"
  shows "ends open_pipe s
    (\<lambda>_ s'. owns os {} s' \<and> listen_fd s' = listen_fd s \<and> epoll_fd s' = epoll_fd s) (owns os {})"
  unfolding open_pipe_def ends_rules
  using owns_pipe [OF _ _ _ lowest_fresh lowest_fresh] assms
  by (intro ends_sys_call ends_set_nonblocking) simp_all

lemma listener_owned:
  assumes "owns os {} s" and "listen_fd s = None"
  shows "ends open_listener s (\<lambda>_ s'. owns os {} s' \<and> epoll_fd s' = epoll_fd s) (owns os {})"
  unfolding open_listener_def ends_rules
  using owns_listener [OF _ _ lowest_fresh] assms
  by (intro ends_sys_call ends_set_nonblocking) simp_all

lemma epoll_owned:
  assumes "owns os {} s" and "epoll_fd s = None"
  shows "ends open_epoll s (\<lambda>_. owns os {}) (owns os {})"
proof -
  let ?e = "lowest (open_fds s)"
  have "owns os {} (s\<lparr>open_fds := ?e # open_fds s, epoll_fd := Some ?e\<rparr>)"
    using owns_epoll [OF assms lowest_fresh] .
  then show ?thesis
    unfolding open_epoll_def ends_rules
    using assms(1) by (intro ends_sys_call ends_epoll_add) simp_all
qed

lemma setup_owned: "ends run_setup (new_handler as fds) (\<lambda>_. owns (set fds) {}) (owns (set fds) {})"
proof -
  have s: "owns (set fds) {} (new_handler as fds)" "stop_read_fd (new_handler as fds) = None"
    "stop_write_fd (new_handler as fds) = None" "listen_fd (new_handler as fds) = None"
    "epoll_fd (new_handler as fds) = None"
    by (simp_all add: owns_def new_handler_def fixed_fds_def option_list_def)
  show ?thesis
    unfolding run_setup_def ends_sbind
    by (rule ends_mono [OF pipe_owned [OF s(1,2,3)]], rule ends_mono [OF listener_owned])
      (auto simp: s epoll_owned)
qed

text \<open>An exception while a connection is being accepted leaves exactly its descriptor unowned.\<close>

lemma accept_owned:
  "owns os {} s \<Longrightarrow> ends (accept_loop rs) s (\<lambda>_. owns os {}) (\<lambda>s'. \<exists>c. c \<notin> os \<and> owns os {c} s')"
proof (induction rs arbitrary: s)
  case Nil
  then show ?case by (simp add: ends_sdo)
next
  case (Cons r rs)
  show ?case
  proof (cases r)
    case Transient_error
    then show ?thesis using Cons by simp
  next
    case Accepted
    let ?c = "lowest (open_fds s)"
    have c: "?c \<notin> os" using lowest_fresh [of "open_fds s"] Cons.prems by (auto simp: owns_def)
    have u: "owns os {?c} (s\<lparr>open_fds := ?c # open_fds s\<rparr>)"
      using owns_unowned [OF Cons.prems lowest_fresh] .
    have "owns os {} (s\<lparr>open_fds := ?c # open_fds s, clients := ?c # clients s\<rparr>)"
      using owns_client [OF Cons.prems lowest_fresh] .
    then have k: "owns os {} (s\<lparr>open_fds := ?c # open_fds s, answers := as, watched := ws,
        clients := ?c # clients s\<rparr>)" for as ws
      by (simp add: owns_def fixed_fds_def)
    show ?thesis
      unfolding Accepted accept_loop.simps ends_rules
      using c u k
      by (intro ends_set_nonblocking ends_epoll_add) (auto intro!: Cons.IH simp: ends_rules)
  qed
qed

lemma events_owned:
  "owns os {} s \<Longrightarrow> ends (socket_events evs) s (\<lambda>_. owns os {}) (\<lambda>s'. \<exists>c. c \<notin> os \<and> owns os {c} s')"
proof (induction evs arbitrary: s)
  case Nil
  then show ?case by (simp add: ends_sdo)
next
  case (Cons ev evs)
  show ?case
  proof (cases ev)
    case (Listener_ready rs)
    show ?thesis
      unfolding Listener_ready socket_events.simps ends_sbind
      by (rule ends_mono [OF accept_owned [OF Cons.prems]]) (auto intro: Cons.IH)
  next
    case (Client_gone fd)
    then show ?thesis using Cons owns_drop [OF Cons.prems] by (simp add: ends_rules)
  qed
qed

text \<open>
  C31: The handler releases what it opened.  Whatever system calls fail: if \<open>run\<close> throws before its
  loop, or if its loop ends, the destructor leaves exactly the descriptors open that were open
  before; if accepting a connection throws, exactly one more stays open, that of the
  connection, which is not yet in the handler's table.
\<close>

theorem handler_releases_descriptors:
  "case run_setup (new_handler as fds) of
     (Inl err, s) \<Rightarrow> set (open_fds (destroy_handler s)) = set fds
   | (Inr _, s) \<Rightarrow>
       (case socket_events evs s of
          (Inr _, s') \<Rightarrow> set (open_fds (destroy_handler s')) = set fds
        | (Inl err, s') \<Rightarrow> \<exists>c. c \<notin> set fds \<and> set (open_fds (destroy_handler s')) = insert c (set fds))"
proof -
  obtain r s where rs: "run_setup (new_handler as fds) = (r, s)" by fastforce
  have own: "owns (set fds) {} s"
    using setup_owned [of as fds] rs by (auto simp: ends_def split: sum.splits)
  obtain r' s' where ev: "socket_events evs s = (r', s')" by fastforce
  have "case r' of Inl err \<Rightarrow> \<exists>c. c \<notin> set fds \<and> owns (set fds) {c} s' | Inr x \<Rightarrow> owns (set fds) {} s'"
    using events_owned [OF own, of evs] ev by (auto simp: ends_def split: sum.splits)
  then show ?thesis
    using rs ev destroy_owned [OF own] destroy_owned [of "set fds" _ s']
    by (auto split: sum.splits)
qed

text \<open>The exceptional case occurs: all calls up to the loop succeed, the first \<open>fcntl\<close> after it fails.\<close>

lemma accept_leak_example:
  "(let s = snd (run_setup (new_handler (replicate 11 True @ [False]) [0, 1, 2]))
    in case socket_events [Listener_ready [Accepted]] s of
         (Inl err, s') \<Rightarrow> err = Fcntl_get_failed \<and> open_fds (destroy_handler s') = [7, 0, 1, 2]
       | (Inr _, s') \<Rightarrow> False)"
  by code_simp

end
