(* ===== verification/AcceptLoop.thy ===== *)
theory AcceptLoop
  imports TcpSockets
begin

text \<open>
  Termination of \<open>TCPFeedHandler::accept_connections\<close> (\<open>src/tcp_feed_handler.cpp\<close>).  The loop of
  \<open>TcpSockets\<close> takes the results of \<open>accept\<close> as given; here the kernel answers.  It holds the
  connections that wait to be accepted and a limit on descriptor numbers.  \<open>accept\<close> fails with
  \<open>EMFILE\<close> if no number below the limit is free, and then the connection keeps waiting.  Whether a
  full table is reported even if no connection waits is up to the kernel: \<open>table_first\<close>.
\<close>

section \<open>The loop\<close>

datatype accept_answer = Got nat | Eagain | Emfile

definition sys_accept :: "bool \<Rightarrow> nat \<Rightarrow> nat \<Rightarrow> nat list \<Rightarrow> accept_answer" where
  "sys_accept table_first limit waiting fds =
     (if waiting = 0 then (if table_first \<and> limit \<le> lowest fds then Emfile else Eagain)
      else if limit \<le> lowest fds then Emfile else Got (lowest fds))"

text \<open>The body of the loop for a connection: the descriptor, \<open>set_nonblocking\<close>, \<open>epoll_add\<close>, the table.\<close>

definition accept_one :: "unit sys" where
  "accept_one =
     sbind open_new (\<lambda>c.
     sbind (set_nonblocking c) (\<lambda>_.
     sbind (epoll_add c) (\<lambda>_.
     sdo (\<lambda>s. s\<lparr>clients := c # clients s\<rparr>))))"

partial_function (option) accept_forever ::
  "bool \<Rightarrow> nat \<Rightarrow> nat \<Rightarrow> sockets \<Rightarrow> ((sys_error + unit) \<times> sockets) option" where
  "accept_forever table_first limit waiting s =
     (case sys_accept table_first limit waiting (open_fds s) of
        Eagain \<Rightarrow> Some (Inr (), s)
      | Emfile \<Rightarrow> accept_forever table_first limit waiting s
      | Got fd \<Rightarrow>
          (case accept_one s of
             (Inl err, s') \<Rightarrow> Some (Inl err, s')
           | (Inr _, s') \<Rightarrow> accept_forever table_first limit (waiting - 1) s'))"

section \<open>When it returns\<close>

definition free_fds :: "nat \<Rightarrow> nat list \<Rightarrow> nat list" where
  "free_fds limit fds = filter (\<lambda>n. n \<notin> set fds) [0 ..< limit]"

lemma lowest_least:
  assumes "n \<notin> set fds"
  shows "lowest fds \<le> n"
proof -
  let ?unused = "filter (\<lambda>n. n \<notin> set fds) [0 ..< Suc (length fds)]"
  have hd_least: "hd ms \<le> m" if "sorted ms" "m \<in> set ms" for ms and m :: nat
    using that by (cases ms) auto
  have "sorted ?unused" by (intro sorted_wrt_filter sorted_upt)
  then have least: "lowest fds \<le> m" if "m \<in> set ?unused" for m
    using that hd_least unfolding lowest_def by blast
  have "lowest fds \<le> length fds"
    using hd_in_set [OF some_unused [of fds]] unfolding lowest_def set_filter set_upt by simp
  moreover have "n \<in> set ?unused" if "n \<le> length fds" using that assms unfolding set_filter set_upt by simp
  ultimately show ?thesis using least [of n] by linarith
qed

lemma full_table: "limit \<le> lowest fds \<longleftrightarrow> free_fds limit fds = []"
proof -
  have "x \<in> set fds" if "limit \<le> lowest fds" "x < limit" for x
    using lowest_least [of x fds] that by fastforce
  moreover have "limit \<le> lowest fds" if "\<forall>x < limit. x \<in> set fds"
    using lowest_fresh [of fds] that leI by blast
  ultimately show ?thesis by (auto simp: free_fds_def filter_empty_conv)
qed

lemma free_after:
  assumes "lowest fds < limit"
  shows "length (free_fds limit fds) = Suc (length (free_fds limit (lowest fds # fds)))"
proof -
  have d: "distinct (free_fds limit xs)" for xs by (simp add: free_fds_def)
  have "set (free_fds limit fds) = insert (lowest fds) (set (free_fds limit (lowest fds # fds)))"
    using assms lowest_fresh [of fds] by (auto simp: free_fds_def)
  moreover have "lowest fds \<notin> set (free_fds limit (lowest fds # fds))" by (simp add: free_fds_def)
  ultimately show ?thesis using d by (metis distinct_card card_insert_disjoint finite_set)
qed

lemma accept_one_ok:
  "answers s = [] \<Longrightarrow> \<exists>s'. accept_one s = (Inr (), s') \<and> answers s' = [] \<and>
     open_fds s' = lowest (open_fds s) # open_fds s \<and> clients s' = lowest (open_fds s) # clients s"
  by (simp add: accept_one_def sbind_def open_new_def set_nonblocking_def epoll_add_def sys_call_def sdo_def)

definition room_for :: "bool \<Rightarrow> nat \<Rightarrow> nat \<Rightarrow> nat list \<Rightarrow> bool" where
  "room_for table_first limit waiting fds =
     (if table_first then waiting < length (free_fds limit fds) else waiting \<le> length (free_fds limit fds))"

lemma accept_returns:
  "answers s = [] \<Longrightarrow> room_for tf limit waiting (open_fds s) \<Longrightarrow>
     \<exists>s'. accept_forever tf limit waiting s = Some (Inr (), s') \<and> length (clients s') = length (clients s) + waiting"
proof (induction waiting arbitrary: s)
  case 0
  then have "sys_accept tf limit 0 (open_fds s) = Eagain"
    by (auto simp: sys_accept_def full_table room_for_def split: if_splits)
  then show ?case by (subst accept_forever.simps) simp
next
  case (Suc n)
  then have free: "lowest (open_fds s) < limit"
    using full_table [of limit "open_fds s"] by (auto simp: room_for_def not_le split: if_splits)
  obtain s' where s': "accept_one s = (Inr (), s')" "answers s' = []"
    "open_fds s' = lowest (open_fds s) # open_fds s" "clients s' = lowest (open_fds s) # clients s"
    using accept_one_ok [OF Suc.prems(1)] by blast
  have "room_for tf limit n (open_fds s')"
    using Suc.prems(2) free_after [OF free] s'(3) by (auto simp: room_for_def split: if_splits)
  then obtain s2 where "accept_forever tf limit n s' = Some (Inr (), s2)" "length (clients s2) = length (clients s') + n"
    using Suc.IH [OF s'(2)] by blast
  then show ?case
    using s' free by (subst accept_forever.simps) (simp add: sys_accept_def)
qed

lemma accept_returned:
  assumes "accept_forever tf limit waiting s = Some r"
  shows "answers s = [] \<longrightarrow> room_for tf limit waiting (open_fds s)"
proof (rule accept_forever.raw_induct [OF _ assms])
  fix f :: "bool \<Rightarrow> nat \<Rightarrow> nat \<Rightarrow> sockets \<Rightarrow> ((sys_error + unit) \<times> sockets) option" and tf limit waiting s r
  assume IH: "\<And>tf limit waiting s r. f tf limit waiting s = Some r \<Longrightarrow> answers s = [] \<longrightarrow> room_for tf limit waiting (open_fds s)"
    and eq: "(case sys_accept tf limit waiting (open_fds s) of
        Got fd \<Rightarrow> (case accept_one s of (Inl err, s') \<Rightarrow> Some (Inl err, s') | (Inr _, s') \<Rightarrow> f tf limit (waiting - 1) s')
      | Eagain \<Rightarrow> Some (Inr (), s) | Emfile \<Rightarrow> f tf limit waiting s) = Some r"
  show "answers s = [] \<longrightarrow> room_for tf limit waiting (open_fds s)"
  proof
    assume a: "answers s = []"
    show "room_for tf limit waiting (open_fds s)"
    proof (cases "sys_accept tf limit waiting (open_fds s)")
      case (Got fd)
      then have w: "waiting \<noteq> 0" "lowest (open_fds s) < limit" by (auto simp: sys_accept_def split: if_splits)
      obtain s' where s': "accept_one s = (Inr (), s')" "answers s' = []" "open_fds s' = lowest (open_fds s) # open_fds s"
        using accept_one_ok [OF a] by blast
      then have "f tf limit (waiting - 1) s' = Some r" using eq Got by simp
      then have "room_for tf limit (waiting - 1) (open_fds s')" using IH s'(2) by blast
      then show ?thesis using w free_after [OF w(2)] s'(3) by (auto simp: room_for_def split: if_splits)
    next
      case Eagain
      then show ?thesis by (auto simp: sys_accept_def full_table room_for_def split: if_splits)
    next
      case Emfile
      then have "f tf limit waiting s = Some r" using eq by simp
      then show ?thesis using IH a by blast
    qed
  qed
qed

text \<open>
  C35: \<open>accept_connections\<close> does not return when the process runs out of descriptors.  If no other
  call fails, it returns, with every waiting connection in the table, exactly if there are
  descriptors for them; otherwise \<open>accept\<close> fails in the same way each time, the loop takes the
  error for a transient one, and the handler's thread spins for ever: no client is served any
  more, and the loop condition that \<open>stop\<close> clears is not looked at again.
\<close>

theorem accept_loop_hangs:
  assumes "answers s = []"
  shows "case accept_forever table_first limit waiting s of
           None \<Rightarrow> \<not> room_for table_first limit waiting (open_fds s)
         | Some (r, s') \<Rightarrow> room_for table_first limit waiting (open_fds s) \<and> r = Inr () \<and>
             length (clients s') = length (clients s) + waiting"
  using accept_returns [OF assms, of table_first limit waiting] accept_returned [of table_first limit waiting s] assms
  by (cases "accept_forever table_first limit waiting s") auto

text \<open>A limit of eight descriptors: after the set-up one is free, and two clients connect.\<close>

theorem accept_loop_hangs_witness:
  "(let s = snd (run_setup (new_handler [] [0, 1, 2])) in
    answers s = [] \<and> free_fds 8 (open_fds s) = [7] \<and>
    accept_forever False 8 2 s = None \<and> accept_forever False 8 1 s \<noteq> None)"
proof -
  define s where "s = snd (run_setup (new_handler [] [0, 1, 2]))"
  have s: "answers s = []" "open_fds s = [6, 5, 4, 3, 0, 1, 2]" unfolding s_def by code_simp+
  then have f: "free_fds 8 (open_fds s) = [7]" by (simp add: free_fds_def upt_rec)
  have "accept_forever False 8 2 s = None" "accept_forever False 8 1 s \<noteq> None"
    using accept_loop_hangs [OF s(1), of False 8 2] accept_loop_hangs [OF s(1), of False 8 1] f
    by (auto simp: room_for_def split: option.splits)
  then show ?thesis using s f by (simp add: s_def Let_def)
qed

end
