(* ===== verification/OrderPool.thy ===== *)
theory OrderPool
  imports Orders "HOL-Library.Multiset"
begin

text \<open>
  \<open>OrderPool\<close> of \<open>include/order_pool.hpp\<close>: a fixed set of slots and a stack of free ones.  A
  pointer into \<open>storage_\<close> is its index.  \<open>release\<close> on a pool whose stack is full fails its
  \<open>assert\<close>, the value \<open>None\<close>.

  The contract is stated over the list of slots that are in use: \<open>pool_ok out p\<close> says that
  the free slots of \<open>p\<close> and \<open>out\<close> together are each slot exactly once.
\<close>

section \<open>State and operations\<close>

record OrderPool =
  storage :: "Order list"
  free_list :: "nat list"
  free_top :: u64

definition make_pool :: "u64 \<Rightarrow> OrderPool" where
  "make_pool cap = \<lparr>storage = replicate (unat cap) default_order, free_list = [0 ..< unat cap], free_top = cap\<rparr>"

definition acquire :: "OrderPool \<Rightarrow> nat option \<times> OrderPool" where
  "acquire p =
     (if free_top p = 0 then (None, p)
      else (let t = free_top p - 1 in (Some (free_list p ! unat t), p\<lparr>free_top := t\<rparr>)))"

definition release :: "nat \<Rightarrow> OrderPool \<Rightarrow> OrderPool option" where
  "release x p =
     (if unat (free_top p) < length (free_list p)
      then Some (p\<lparr>free_list := (free_list p)[unat (free_top p) := x], free_top := free_top p + 1\<rparr>)
      else None)"

definition available :: "OrderPool \<Rightarrow> u64" where
  "available p = free_top p"

definition pool_capacity :: "OrderPool \<Rightarrow> nat" where
  "pool_capacity p = length (storage p)"

section \<open>The contract\<close>

definition pool_ok :: "nat list \<Rightarrow> OrderPool \<Rightarrow> bool" where
  "pool_ok out p =
     (length (free_list p) = length (storage p) \<and> unat (free_top p) \<le> length (free_list p) \<and>
      length (storage p) < 2 ^ 64 \<and>
      mset (take (unat (free_top p)) (free_list p)) + mset out = mset [0 ..< length (storage p)])"

lemma pool_ok_count:
  "pool_ok out p \<Longrightarrow> unat (free_top p) + length out = length (storage p)"
  using mset_eq_length [of "take (unat (free_top p)) (free_list p) @ out" "[0 ..< length (storage p)]"]
  by (simp add: pool_ok_def)

lemma pool_ok_distinct:
  assumes "pool_ok out p"
  shows "distinct (take (unat (free_top p)) (free_list p) @ out)"
    and "set (take (unat (free_top p)) (free_list p) @ out) = {0 ..< length (storage p)}"
proof -
  have m: "mset (take (unat (free_top p)) (free_list p) @ out) = mset [0 ..< length (storage p)]"
    using assms by (simp add: pool_ok_def)
  show "distinct (take (unat (free_top p)) (free_list p) @ out)"
    using mset_eq_imp_distinct_iff [OF m] by simp
  show "set (take (unat (free_top p)) (free_list p) @ out) = {0 ..< length (storage p)}"
    using mset_eq_setD [OF m] by simp
qed

lemma make_pool_ok: "pool_ok [] (make_pool cap)"
  by (simp add: pool_ok_def make_pool_def)

text \<open>
  \<open>acquire\<close> returns null exactly when all slots are in use; otherwise it returns a slot
  of the pool that no caller has, and leaves one slot fewer.
\<close>

lemma acquire_correct:
  assumes "pool_ok out p"
  shows "case acquire p of
           (None, p') \<Rightarrow> length out = pool_capacity p \<and> p' = p
         | (Some i, p') \<Rightarrow> i < pool_capacity p \<and> i \<notin> set out \<and> pool_ok (i # out) p' \<and>
             unat (available p') + 1 = unat (available p)"
proof (cases "free_top p = 0")
  case True
  then show ?thesis using pool_ok_count [OF assms] by (simp add: acquire_def pool_capacity_def)
next
  case False
  let ?t = "unat (free_top p - 1)" and ?f = "free_list p"
  have t: "unat (free_top p) = Suc ?t" using False by (simp add: unat_minus_one unat_gt_0)
  then have lt: "?t < length ?f" using assms by (simp add: pool_ok_def)
  then have take: "take (unat (free_top p)) ?f = take ?t ?f @ [?f ! ?t]"
    by (simp add: t take_Suc_conv_app_nth)
  have "pool_ok (?f ! ?t # out) (p\<lparr>free_top := free_top p - 1\<rparr>)"
    using assms lt take by (simp add: pool_ok_def)
  moreover have "?f ! ?t \<notin> set out" "?f ! ?t < length (storage p)"
    using pool_ok_distinct [OF assms] take by auto
  ultimately show ?thesis
    using False t by (simp add: acquire_def available_def pool_capacity_def Let_def)
qed

text \<open>
  Releasing a slot that is in use succeeds, puts it back, and the next \<open>acquire\<close>
  returns it.
\<close>

lemma release_correct:
  assumes "pool_ok out p" and "i \<in> set out"
  shows "\<exists>p'. release i p = Some p' \<and> pool_ok (remove1 i out) p' \<and>
           unat (available p') = unat (available p) + 1 \<and> fst (acquire p') = Some i"
proof -
  let ?t = "unat (free_top p)" and ?f = "free_list p"
  have "0 < length out" using assms(2) by (cases out) simp_all
  then have lt: "?t < length (storage p)" using pool_ok_count [OF assms(1)] by linarith
  have len: "length ?f = length (storage p)" and b: "length (storage p) < 2 ^ 64"
    using assms(1) by (simp_all add: pool_ok_def)
  have t: "unat (free_top p + 1) = Suc ?t" using lt b by (simp add: unat_u64_Suc)
  have "take (Suc ?t) (?f[?t := i]) = take ?t ?f @ [i]"
    using lt len by (simp add: take_Suc_conv_app_nth)
  moreover have "mset (take ?t ?f) + add_mset i (mset out - {#i#}) = mset [0 ..< length (storage p)]"
    using assms by (simp add: pool_ok_def)
  ultimately have "pool_ok (remove1 i out) (p\<lparr>free_list := ?f[?t := i], free_top := free_top p + 1\<rparr>)"
    using lt len b t by (simp add: pool_ok_def)
  moreover have "free_top p + 1 \<noteq> 0" using t by (metis nat.distinct(1) unat_0)
  ultimately show ?thesis
    using lt len t by (simp add: release_def acquire_def available_def Let_def)
qed

section \<open>Sessions\<close>

datatype pool_op = Acquire | Release nat

text \<open>
  A producer's calls, with the slots it holds.  It keeps what \<open>acquire\<close> gives it and releases
  only what it holds.
\<close>

fun pool_run :: "pool_op list \<Rightarrow> OrderPool \<times> nat list \<Rightarrow> (OrderPool \<times> nat list) option" where
  "pool_run [] (p, out) = Some (p, out)"
| "pool_run (Acquire # ops) (p, out) =
     (case acquire p of
        (None, p') \<Rightarrow> pool_run ops (p', out)
      | (Some i, p') \<Rightarrow> pool_run ops (p', i # out))"
| "pool_run (Release i # ops) (p, out) =
     (if i \<in> set out
      then (case release i p of None \<Rightarrow> None | Some p' \<Rightarrow> pool_run ops (p', remove1 i out))
      else pool_run ops (p, out))"

lemma acquire_storage: "acquire p = (r, p') \<Longrightarrow> length (storage p') = length (storage p)"
  by (auto simp: acquire_def Let_def split: if_splits)

lemma release_storage: "release i p = Some p' \<Longrightarrow> length (storage p') = length (storage p)"
  by (auto simp: release_def split: if_splits)

lemma pool_run_ok:
  "pool_ok out p \<Longrightarrow>
     \<exists>p' out'. pool_run ops (p, out) = Some (p', out') \<and> pool_ok out' p' \<and> length (storage p') = length (storage p)"
proof (induction ops arbitrary: p out)
  case Nil
  then show ?case by simp
next
  case (Cons op ops)
  show ?case
  proof (cases op)
    case Acquire
    obtain r p1 where a: "acquire p = (r, p1)" by fastforce
    then show ?thesis
      using Cons.IH [of _ p1] Cons.prems acquire_correct [OF Cons.prems] acquire_storage [OF a] Acquire
      by (cases r) auto
  next
    case (Release i)
    show ?thesis
    proof (cases "i \<in> set out")
      case False
      then show ?thesis using Cons Release by simp
    next
      case True
      then obtain p1 where "release i p = Some p1" "pool_ok (remove1 i out) p1"
        using release_correct [OF Cons.prems] by blast
      then show ?thesis using Cons.IH [of "remove1 i out" p1] release_storage [of i p p1] Release True by simp
    qed
  qed
qed

text \<open>
  C30: However a producer acquires and releases slots of a pool with \<open>cap\<close> slots, no assertion
  fails; the slots it holds are distinct slots of the pool, those free and those held add up to
  the capacity, and the next \<open>acquire\<close> fails exactly when it holds them all and otherwise gives
  one it does not hold.
\<close>

theorem pool_session:
  "\<exists>p out. pool_run ops (make_pool cap, []) = Some (p, out) \<and> distinct out \<and> set out \<subseteq> {0 ..< unat cap} \<and>
     unat (available p) + length out = unat cap \<and>
     (case fst (acquire p) of
        None \<Rightarrow> length out = unat cap
      | Some i \<Rightarrow> i < unat cap \<and> i \<notin> set out)"
proof -
  obtain p out where r: "pool_run ops (make_pool cap, []) = Some (p, out)" and ok: "pool_ok out p"
    and len: "length (storage p) = unat cap"
    using pool_run_ok [OF make_pool_ok, of ops cap] by (auto simp: make_pool_def)
  have "distinct out" "set out \<subseteq> {0 ..< unat cap}"
    using pool_ok_distinct [OF ok] len by auto
  moreover have "unat (available p) + length out = unat cap"
    using pool_ok_count [OF ok] len by (simp add: available_def)
  moreover have "case fst (acquire p) of None \<Rightarrow> length out = unat cap | Some i \<Rightarrow> i < unat cap \<and> i \<notin> set out"
    using acquire_correct [OF ok] len by (auto simp: pool_capacity_def split: option.splits prod.splits)
  ultimately show ?thesis using r by blast
qed

end
