(* ===== verification/Gateway.thy ===== *)
theory Gateway
  imports TcpFeed ShardRouter
begin

text \<open>
  The gateway of \<open>src/gateway_main.cpp\<close>: a TCP feed handler in front of a shard router.  It
  writes the shards' logs and nothing else.
\<close>

section \<open>The process\<close>

definition gateway_main ::
  "48 word \<Rightarrow> string \<Rightarrow> u32 \<Rightarrow> feed_event list list \<Rightarrow> fs \<Rightarrow>
     queue_error + (ShardRouterQueue \<times> fs) feed_handler option" where
  "gateway_main pad log_base n batches d =
     (case make_router log_base n d of
        Inl err \<Rightarrow> Inl err
      | Inr st \<Rightarrow>
          Inr (run_feed_loop (router_push pad) batches
                \<lparr>connections = Map.empty, order_sink = st, running = True\<rparr>))"

section \<open>The files a gateway writes\<close>

definition keeps_others :: "string \<Rightarrow> fs \<Rightarrow> fs \<Rightarrow> bool" where
  "keeps_others base d d' =
     (can_open d' = can_open d \<and>
      (\<forall>path. (\<forall>i. path \<noteq> log_file (shard_base base i)) \<longrightarrow> files d' path = files d path))"

lemma keeps_others_trans: "keeps_others base d d' \<Longrightarrow> keeps_others base d' d'' \<Longrightarrow> keeps_others base d d''"
  by (simp add: keeps_others_def)

lemma make_shards_keeps: "make_shards base i n d = Inr (qs, d') \<Longrightarrow> keeps_others base d d'"
proof (induction n arbitrary: i d qs d')
  case 0
  then show ?case by (simp add: keeps_others_def)
next
  case (Suc n)
  obtain q d1 qs' where q: "make_log_queue (shard_base base i) [] d = Inr (q, d1)"
    and rec: "make_shards base (Suc i) n d1 = Inr (qs', d')"
    using Suc.prems by (auto split: sum.splits prod.splits)
  have "keeps_others base d d1"
    using q by (auto simp: make_log_queue_def fopen_append_def Let_def keeps_others_def files_set
        log_file_def split: option.splits if_splits)
  with Suc.IH [OF rec] show ?case by (rule keeps_others_trans [rotated])
qed

lemma push_all_keeps:
  assumes "n \<noteq> 0"
  shows "router_ok base n r \<Longrightarrow> push_all (router_push pad) xs (r, d) = Some (r', d') \<Longrightarrow> keeps_others base d d'"
proof (induction xs arbitrary: r d)
  case Nil
  then show ?case by (simp add: keeps_others_def)
next
  case (Cons x xs)
  let ?d = "fwrite_end (log_file (shard_base base (shard_of n x))) (enc_order pad x) d"
  obtain r1 where r1: "router_push pad x (r, d) = Some (r1, ?d)" "router_ok base n r1"
    using router_push_step [OF Cons.prems(1) assms] by blast
  have "keeps_others base d ?d" by (auto simp: keeps_others_def fwrite_end_def files_set)
  moreover have "keeps_others base ?d d'" using Cons.IH [OF r1(2)] Cons.prems(2) r1(1) by simp
  ultimately show ?case by (rule keeps_others_trans)
qed

section \<open>From the clients to the logs\<close>

lemma gateway_logs:
  assumes "n \<noteq> 0" and "fst ` set evs \<subseteq> set fds"
    and "\<forall>fd. list_all order_wf (os fd) \<and> stream fd evs = concat (map (enc_wire wpad) (os fd))"
  shows "\<exists>arr h r d. (\<forall>fd. from_client fd arr = map received (os fd)) \<and>
     gateway_main pad base n [Ev_accept fds # map wake_up evs] empty_disk = Inr (Some h) \<and>
     order_sink h = (r, d) \<and> keeps_others base empty_disk d \<and>
     (\<forall>k < unat n. shard_holds base k (filter (\<lambda>x. shard_of n x = k) (map snd arr)) d)"
proof -
  obtain qs d0 where m: "make_shards base 0 (unat n) empty_disk = Inr (qs, d0)"
    and b: "\<forall>p. file_bytes p d0 = file_bytes p empty_disk"
    using make_shards_total [of empty_disk base 0 "unat n"] by (auto simp: empty_disk_def)
  then obtain r0 where r0: "make_router base n empty_disk = Inr (r0, d0)" by (simp add: make_router_def)
  let ?h = "\<lparr>connections = Map.empty, order_sink = (r0, d0), running = True\<rparr>"
  have "connections (accept_connections fds ?h) fd = Some []" if "fd \<in> fst ` set evs" for fd
    using accepted [of fd fds] that assms(2) by (simp add: accept_connections_def subset_iff)
  from wake_ups_orders [OF assms(3) this, of "router_push pad"] obtain arr where
    arr: "\<forall>fd. from_client fd arr = map received (os fd)" and
    run: "handle_batch (router_push pad) (map wake_up evs) (accept_connections fds ?h) =
       map_option (\<lambda>q. (accept_connections fds ?h)\<lparr>order_sink := q\<rparr>)
         (push_all (router_push pad) (map snd arr) (r0, d0))"
    by (auto simp: accept_connections_def)
  have "list_all order_wf (map snd arr)"
    unfolding list_all_iff
  proof
    fix x assume "x \<in> set (map snd arr)"
    then obtain fd where "x \<in> set (from_client fd arr)" by (force simp: from_client_def)
    then show "order_wf x" using arr assms(3) by (auto simp: list_all_iff received_def order_wf_def)
  qed
  moreover have "shard_holds base k [] d0" for k
    using b by (simp add: shard_holds_def log_holds_def file_bytes_def empty_disk_def)
  ultimately obtain r d where p: "push_all (router_push pad) (map snd arr) (r0, d0) = Some (r, d)"
    and h: "\<forall>k < unat n. shard_holds base k ([] @ filter (\<lambda>x. shard_of n x = k) (map snd arr)) d"
    using router_push_all [OF assms(1) make_router_ok [OF r0], of "map snd arr" "\<lambda>_. []" d0] by blast
  have "keeps_others base empty_disk d"
    using make_shards_keeps [OF m] push_all_keeps [OF assms(1) make_router_ok [OF r0] p]
    by (rule keeps_others_trans)
  moreover have "gateway_main pad base n [Ev_accept fds # map wake_up evs] empty_disk =
      Inr (Some ((accept_connections fds ?h)\<lparr>order_sink := (r, d)\<rparr>))"
    using r0 run p by (simp add: gateway_main_def)
  ultimately show ?thesis using arr h by fastforce
qed

end
