(* ===== verification/CommandLine.thy ===== *)
theory CommandLine
  imports Processes Gateway
begin

text \<open>
  The command lines of the three programs of the distributed set-up, and the programs from their
  arguments on.  The gateway, the engines and the subscribers find each other through file names
  made from these arguments, so what the parsing accepts decides whether they meet.  \<open>argv\<close>
  includes the program's name.
\<close>

section \<open>Parsing\<close>

datatype 'a parsed = Usage | Undefined | Parsed 'a

definition atoi_u32 :: "string \<Rightarrow> u32 option" where
  "atoi_u32 s = map_option of_int (atoi s)"

definition atoi_u16 :: "string \<Rightarrow> 16 word option" where
  "atoi_u16 s = map_option of_int (atoi s)"

record engine_opts =
  eo_shard :: u32
  eo_base :: string
  eo_shards :: u32
  eo_replica :: string

definition engine_args :: "string list \<Rightarrow> engine_opts parsed" where
  "engine_args argv =
     (if length argv < 3 then Usage
      else case (atoi_u32 (argv ! 1), if length argv > 3 then atoi_u32 (argv ! 3) else Some 4) of
             (Some shard, Some n) \<Rightarrow>
               Parsed \<lparr>eo_shard = shard, eo_base = argv ! 2, eo_shards = n,
                       eo_replica = (if length argv > 4 then argv ! 4 else ''r0'')\<rparr>
           | _ \<Rightarrow> Undefined)"

record gateway_opts =
  go_port :: "16 word"
  go_shards :: u32
  go_base :: string

definition gateway_args :: "string list \<Rightarrow> gateway_opts parsed" where
  "gateway_args argv =
     (case (if length argv > 1 then atoi_u16 (argv ! 1) else Some 9000,
            if length argv > 2 then atoi_u32 (argv ! 2) else Some 4) of
        (Some port, Some n) \<Rightarrow>
          Parsed \<lparr>go_port = port, go_shards = n,
                  go_base = (if length argv > 3 then argv ! 3 else ''/tmp/me_orders'')\<rparr>
      | _ \<Rightarrow> Undefined)"

record subscriber_opts =
  so_base :: string
  so_id :: string

text \<open>The subscriber takes the shard's number as the text it is given.\<close>

definition subscriber_args :: "string list \<Rightarrow> subscriber_opts parsed" where
  "subscriber_args argv =
     (if length argv < 4 then Usage
      else Parsed \<lparr>so_base = argv ! 2 @ ''_shard'' @ argv ! 1, so_id = argv ! 3\<rparr>)"

section \<open>The programs\<close>

text \<open>
  How a program ends: an exit code, an exception nobody catches, or undefined behaviour (for the
  engine also that its loop has not ended within the given number of calls of \<open>pop\<close>).  And what
  it prints, each line as data.
\<close>

datatype outcome = Exit nat fs | Terminated queue_error | Undefined_behaviour

datatype console =
  Usage_line string | Online_line engine_opts bool | Engine_line out_line | Down_line u32 string
| Listening_line gateway_opts | Gateway_down_line
| Attached_line subscriber_opts u64 | Saw_line string Trade u64 | Stopped_line string u64

text \<open>The handler of \<open>SIGINT\<close>, once \<open>g_queue\<close> is set.\<close>

definition engine_signal_handler :: "bool \<Rightarrow> LogBackedOrderQueue \<times> fs \<Rightarrow> LogBackedOrderQueue \<times> fs" where
  "engine_signal_handler g_queue st = (if g_queue then log_shutdown st else st)"

text \<open>The engine's \<open>main\<close>, with a \<open>SIGINT\<close> after it has started.\<close>

definition engine_program ::
  "nat \<Rightarrow> string list \<Rightarrow> nat option \<Rightarrow> nat option \<Rightarrow> fs \<Rightarrow> console list \<times> outcome" where
  "engine_program fuel argv fd owner d =
     (case engine_args argv of
        Usage \<Rightarrow> ([Usage_line (argv ! 0)], Exit 1 d)
      | Undefined \<Rightarrow> ([], Undefined_behaviour)
      | Parsed opt \<Rightarrow>
          (case engine_start (eo_base opt) (eo_shard opt) (eo_shards opt) (eo_replica opt) fd owner d of
             Inl err \<Rightarrow> ([], Terminated err)
           | Inr (q, p, owner', d') \<Rightarrow>
               (case engine_signal_handler True (q, d') of
                  (q', d'') \<Rightarrow>
                    (case engine_loop fuel q' p owner' d'' of
                       None \<Rightarrow> ([Online_line opt (active p)], Undefined_behaviour)
                     | Some (q3, p3, owner3, d3) \<Rightarrow>
                         ([Online_line opt (active p)] @ map Engine_line (proc_out p3) @
                            [Down_line (eo_shard opt) (eo_replica opt)], Exit 0 d3)))))"

definition gateway_program ::
  "48 word \<Rightarrow> string list \<Rightarrow> feed_event list list \<Rightarrow> fs \<Rightarrow> console list \<times> outcome" where
  "gateway_program pad argv batches d =
     (case gateway_args argv of
        Usage \<Rightarrow> ([Usage_line (argv ! 0)], Exit 1 d)
      | Undefined \<Rightarrow> ([], Undefined_behaviour)
      | Parsed opt \<Rightarrow>
          (case gateway_main pad (go_base opt) (go_shards opt) batches d of
             Inl err \<Rightarrow> ([], Terminated err)
           | Inr None \<Rightarrow> ([Listening_line opt], Undefined_behaviour)
           | Inr (Some h) \<Rightarrow> ([Listening_line opt, Gateway_down_line], Exit 0 (snd (order_sink h)))))"

definition subscriber_program :: "nat \<Rightarrow> string list \<Rightarrow> fs \<Rightarrow> console list \<times> outcome" where
  "subscriber_program rounds argv d =
     (case subscriber_args argv of
        Usage \<Rightarrow> ([Usage_line (argv ! 0)], Exit 1 d)
      | Undefined \<Rightarrow> ([], Undefined_behaviour)
      | Parsed opt \<Rightarrow>
          (case make_subscriber (so_base opt) (so_id opt) d of
             Inl err \<Rightarrow> ([], Terminated err)
           | Inr (s, d') \<Rightarrow>
               (case subscriber_loop rounds s d' of
                  (seen, res, s', d'') \<Rightarrow>
                    (let out = Attached_line opt (sub_offset s) # map (\<lambda>(t, k). Saw_line (so_id opt) t k) seen
                     in case res of
                          None \<Rightarrow> (out @ [Stopped_line (so_id opt) (sub_offset s')], Exit 0 d'')
                        | Some err \<Rightarrow> (out, Terminated err)))))"

section \<open>Programs that meet\<close>

lemma atoi_u32_to_string: "n < 2 ^ 31 \<Longrightarrow> atoi_u32 (to_string_nat n) = Some (of_nat n)"
  by (simp add: atoi_u32_def atoi_to_string)

lemma atoi_u16_to_string: "n < 2 ^ 16 \<Longrightarrow> atoi_u16 (to_string_nat n) = Some (of_nat n)"
  by (simp add: atoi_u16_def atoi_to_string)

lemma engine_args_given:
  "k < 2 ^ 31 \<Longrightarrow> n < 2 ^ 31 \<Longrightarrow>
     engine_args [prog, to_string_nat k, base, to_string_nat n, rid] =
       Parsed \<lparr>eo_shard = of_nat k, eo_base = base, eo_shards = of_nat n, eo_replica = rid\<rparr>"
  by (simp add: engine_args_def atoi_u32_to_string)

lemma gateway_args_given:
  "port < 2 ^ 16 \<Longrightarrow> n < 2 ^ 31 \<Longrightarrow>
     gateway_args [prog, to_string_nat port, to_string_nat n, base] =
       Parsed \<lparr>go_port = of_nat port, go_shards = of_nat n, go_base = base\<rparr>"
  by (simp add: gateway_args_def atoi_u32_to_string atoi_u16_to_string)

lemma subscriber_args_given:
  "subscriber_args [prog, to_string_nat k, base, sid] = Parsed \<lparr>so_base = shard_base base k, so_id = sid\<rparr>"
  by (simp add: subscriber_args_def shard_base_def)

lemma engine_start_paths:
  assumes "engine_start base k n rid fd owner d = Inr (q, p, owner', d')"
  shows "log_path q = log_file (shard_base base (unat k))"
    and "tl_path (trade_topic p) = trades_file (shard_base base (unat k))"
  using engine_start_facts(1) [OF assms] engine_start_split [OF assms] by (auto simp: opened_def)

lemma unat_u32_of_nat: "k < 2 ^ 31 \<Longrightarrow> unat (of_nat k :: u32) = k"
  by (simp add: unat_of_nat)

text \<open>
  Programs that are started with the same base path and number of shards, written in
  decimal, meet: the gateway's file for shard \<open>k\<close> is the log the engine of shard \<open>k\<close> reads, and the
  topic that engine publishes to is the one a subscriber of shard \<open>k\<close> reads.  Without the optional
  arguments, gateway and engine agree on four shards.
\<close>

lemma command_lines_agree:
  assumes "k < n" and "n < 2 ^ 31" and "port < 2 ^ 16"
    and "make_router base (of_nat n) d = Inr (r, d1)"
    and "engine_start base (of_nat k) (of_nat n) rid fd owner d1 = Inr (q, p, owner', d2)"
    and "make_subscriber (shard_base base k) sid d2 = Inr (s, d3)"
  shows "gateway_args [g, to_string_nat port, to_string_nat n, base] =
           Parsed \<lparr>go_port = of_nat port, go_shards = of_nat n, go_base = base\<rparr> \<and>
         engine_args [e, to_string_nat k, base, to_string_nat n, rid] =
           Parsed \<lparr>eo_shard = of_nat k, eo_base = base, eo_shards = of_nat n, eo_replica = rid\<rparr> \<and>
         subscriber_args [u, to_string_nat k, base, sid] = Parsed \<lparr>so_base = shard_base base k, so_id = sid\<rparr> \<and>
         log_path (shards r ! k) = log_path q \<and> tl_path (trade_topic p) = sub_log_path s \<and>
         gateway_args [g] = Parsed \<lparr>go_port = 9000, go_shards = 4, go_base = ''/tmp/me_orders''\<rparr> \<and>
         engine_args [e, to_string_nat k, base] =
           Parsed \<lparr>eo_shard = of_nat k, eo_base = base, eo_shards = 4, eo_replica = ''r0''\<rparr>"
proof -
  have "log_path (shards r ! k) = log_file (shard_base base k)"
    using make_router_ok [OF assms(4)] assms(1,2) by (simp add: router_ok_def unat_u32_of_nat)
  moreover have "sub_log_path s = trades_file (shard_base base k)"
    using assms(6) by (auto simp: make_subscriber_def trades_file_def Let_def split: option.splits)
  moreover have "gateway_args [g] = Parsed \<lparr>go_port = 9000, go_shards = 4, go_base = ''/tmp/me_orders''\<rparr>"
    by (simp add: gateway_args_def)
  moreover have "engine_args [e, to_string_nat k, base] =
      Parsed \<lparr>eo_shard = of_nat k, eo_base = base, eo_shards = 4, eo_replica = ''r0''\<rparr>"
    using assms(1,2) by (simp add: engine_args_def atoi_u32_to_string)
  ultimately show ?thesis
    using assms(1-3) engine_start_paths [OF assms(5)]
    by (simp add: engine_args_given gateway_args_given subscriber_args_given unat_u32_of_nat)
qed

lemma command_lines_agree_sample:
  "\<exists>r d1 q p owner d2 s d3. make_router ''m'' 4 empty_disk = Inr (r, d1) \<and>
     engine_start ''m'' 2 4 ''r0'' (Some 5) None d1 = Inr (q, p, owner, d2) \<and>
     make_subscriber (shard_base ''m'' 2) ''risk'' d2 = Inr (s, d3) \<and>
     log_path (shards r ! 2) = log_path q \<and> tl_path (trade_topic p) = sub_log_path s"
proof -
  obtain r d1 where r: "make_router ''m'' 4 empty_disk = Inr (r, d1)" and c1: "can_open d1 = can_open empty_disk"
    using make_shards_total [of empty_disk "''m''" 0 4] make_shards_keeps
    by (fastforce simp: make_router_def empty_disk_def keeps_others_def)
  have c: "can_open d1 path" for path using c1 by (simp add: empty_disk_def)
  obtain q d2 where q: "make_log_queue (shard_base ''m'' 2) ''r0'' d1 = Inr (q, d2)"
    and c2: "can_open d2 = can_open d1"
    using c by (auto simp: make_log_queue_def fopen_append_def Let_def)
  obtain p owner where "make_proc 2 4 (make_leader_lock (Some 5))
      \<lparr>tl_path = shard_base ''m'' 2 @ ''_trades.log''\<rparr> None = (p, owner)" by fastforce
  then obtain d3 where e: "engine_start ''m'' 2 4 ''r0'' (Some 5) None d1 = Inr (q, p, owner, d3)"
    and c3: "can_open d3 = can_open d1"
    using q c c2 by (simp add: engine_start_def make_trade_log_def fopen_append_def Let_def)
  obtain s d4 where s: "make_subscriber (shard_base ''m'' 2) ''risk'' d3 = Inr (s, d4)"
    using c c3 by (auto simp: make_subscriber_def fopen_append_def Let_def)
  show ?thesis
    using command_lines_agree [of 2 4 0 "''m''" empty_disk r d1 "''r0''" "Some 5" None q p owner d3 "''risk''" s d4]
      r e s by auto
qed

section \<open>Arguments that are accepted and should not be\<close>

lemma zero_shards_router: "make_router base 0 d = Inr (\<lparr>num_shards = 0, shards = []\<rparr>, d)"
  by (simp add: make_router_def)

lemma zero_shards_push: "num_shards r = 0 \<Longrightarrow> router_push pad x (r, d) = None"
  by (simp add: router_push_def shard_for_symbol_def)

lemma zero_shards_core: "proc_shards p = 0 \<Longrightarrow> engine_core x p owner = None"
  using promote_fields [of p owner]
  by (auto simp: engine_core_def shard_for_symbol_def Let_def split: prod.splits)

lemma no_leading_zero: "to_string_nat j \<noteq> CHR ''0'' # to_string_nat k"
proof
  assume a: "to_string_nat j = CHR ''0'' # to_string_nat k"
  have "from_string_nat (CHR ''0'' # to_string_nat k) = from_string_nat (to_string_nat k)"
    by (simp add: from_string_nat_def)
  then have "j = k" using a from_to_string_nat by metis
  with a show False by (metis length_Cons n_not_Suc_n)
qed

lemma atoi_leading_zero: "k < 2 ^ 31 \<Longrightarrow> atoi_u32 (CHR ''0'' # to_string_nat k) = Some (of_nat k)"
proof -
  assume k: "k < 2 ^ 31"
  have "is_digit (CHR ''0'')" by (simp add: is_digit_def)
  moreover have "from_string_nat (CHR ''0'' # to_string_nat k) = k"
    using from_to_string_nat [of k] by (simp add: from_string_nat_def)
  ultimately show ?thesis
    using k by (simp add: atoi_u32_def atoi_def Let_def takeWhile_digits digit_no_sign(1))
qed

text \<open>
  C40: Two arguments that the programs accept and that break them.  A number of shards that
  does not start with a number, like \<open>four\<close>, is read as zero: the gateway starts with no shard and
  computes a remainder by zero at the first order, and so does an engine.  And a shard id with
  a leading zero is shard \<open>k\<close> to the engine, but the subscriber uses the text: it creates and
  reads a topic that no engine with this base path publishes to.
\<close>

theorem arguments_accepted:
  assumes "\<not> is_space c" and "\<not> is_digit c" and "c \<noteq> CHR ''-''" and "c \<noteq> CHR ''+''"
    and "port < 2 ^ 16" and "k < 2 ^ 31"
  shows "gateway_args [g, to_string_nat port, c # cs, base] =
           Parsed \<lparr>go_port = of_nat port, go_shards = 0, go_base = base\<rparr> \<and>
         (\<exists>r. make_router base 0 d = Inr (r, d) \<and> router_push pad x (r, d) = None) \<and>
         engine_args [e, to_string_nat k, base, c # cs] =
           Parsed \<lparr>eo_shard = of_nat k, eo_base = base, eo_shards = 0, eo_replica = ''r0''\<rparr> \<and>
         (proc_shards p = 0 \<longrightarrow> engine_core x p owner = None) \<and>
         engine_args [e, CHR ''0'' # to_string_nat k, base] =
           Parsed \<lparr>eo_shard = of_nat k, eo_base = base, eo_shards = 4, eo_replica = ''r0''\<rparr> \<and>
         subscriber_args [u, CHR ''0'' # to_string_nat k, base, sid] =
           Parsed \<lparr>so_base = base @ ''_shard0'' @ to_string_nat k, so_id = sid\<rparr> \<and>
         trades_file (base @ ''_shard0'' @ to_string_nat k) \<noteq> trades_file (shard_base base j)"
proof -
  have z: "atoi_u32 (c # cs) = Some 0" using atoi_no_number [OF assms(1-4)] by (simp add: atoi_u32_def)
  have g: "gateway_args [g, to_string_nat port, c # cs, base] =
      Parsed \<lparr>go_port = of_nat port, go_shards = 0, go_base = base\<rparr>"
    using z assms(5) by (simp add: gateway_args_def atoi_u16_to_string)
  have e: "engine_args [e, to_string_nat k, base, c # cs] =
      Parsed \<lparr>eo_shard = of_nat k, eo_base = base, eo_shards = 0, eo_replica = ''r0''\<rparr>"
    using z assms(6) by (simp add: engine_args_def atoi_u32_to_string)
  have "trades_file (base @ ''_shard0'' @ to_string_nat k) \<noteq> trades_file (shard_base base j)"
    using no_leading_zero [of j k] by (auto simp: trades_file_def shard_base_def)
  moreover have "\<exists>r. make_router base 0 d = Inr (r, d) \<and> router_push pad x (r, d) = None"
    by (simp add: zero_shards_router zero_shards_push)
  ultimately show ?thesis
    using g e assms(6) zero_shards_core [of p x owner]
    by (simp add: engine_args_def subscriber_args_def atoi_leading_zero)
qed

theorem arguments_accepted_witness:
  "gateway_args [''gateway'', to_string_nat 9000, ''four'', ''m''] =
     Parsed \<lparr>go_port = 9000, go_shards = 0, go_base = ''m''\<rparr> \<and>
   subscriber_args [''subscriber'', ''0'' @ to_string_nat 3, ''m'', ''risk''] =
     Parsed \<lparr>so_base = ''m_shard0'' @ to_string_nat 3, so_id = ''risk''\<rparr>"
  using arguments_accepted [of "CHR ''f''" 9000 3 "''gateway''" "''our''" "''m''" undefined 0 undefined "''engine''"
      undefined undefined "''subscriber''" "''risk''" 0]
  by (simp add: is_space_def is_digit_def)

end
