(* ===== verification/BookDump.thy ===== *)
theory BookDump
  imports OrderBook Decimal
begin

text \<open>
  \<open>OrderBook::dump\<close> of \<open>src/order_book.cpp\<close>, the text of a book for debugging, and a reader for it.
  What the reader gets back is all that the listing shows: the levels of both sides, best first,
  each with its price to two decimals and its orders in the order of their queue.
\<close>

section \<open>The listing\<close>

definition dump_order :: "Order \<Rightarrow> string" where
  "dump_order o1 =
     ''[id='' @ to_string_nat (unat (order_id o1)) @ '' qty='' @ to_string_nat (unat (remaining_quantity o1)) @
     '' ts='' @ to_string_nat (unat (timestamp o1)) @ ''] ''"

definition dump_level :: "double \<times> Order list \<Rightarrow> string" where
  "dump_level = (\<lambda>(p, dq). ''  '' @ fixed2 p @ '': '' @ concat (map dump_order dq) @ [CHR 0x0A])"

definition asks_heading :: string where
  "asks_heading = ''=== ASKS (low -> high, best first) ===''"

definition bids_heading :: string where
  "bids_heading = ''=== BIDS (high -> low, best first) ===''"

definition dump :: "OrderBook \<Rightarrow> string" where
  "dump b =
     asks_heading @ [CHR 0x0A] @ concat (map dump_level (asks b)) @
     bids_heading @ [CHR 0x0A] @ concat (map dump_level (bids b))"

section \<open>A reader\<close>

text \<open>The text before the first \<open>c\<close>, and the text after it.\<close>

definition before :: "char \<Rightarrow> string \<Rightarrow> string" where
  "before c s = takeWhile (\<lambda>x. x \<noteq> c) s"

definition after :: "char \<Rightarrow> string \<Rightarrow> string" where
  "after c s = tl (dropWhile (\<lambda>x. x \<noteq> c) s)"

lemma before_append: "c \<notin> set s \<Longrightarrow> before c (s @ c # s') = s"
  unfolding before_def by (subst takeWhile_append2) auto

lemma after_append: "c \<notin> set s \<Longrightarrow> after c (s @ c # s') = s'"
  unfolding after_def by (subst dropWhile_append2) auto

lemma length_after: "length (after c s) \<le> length s"
  using length_dropWhile_le [of "\<lambda>x. x \<noteq> c" s] by (simp add: after_def)

lemma length_after_less: "s \<noteq> [] \<Longrightarrow> length (after c s) < length s"
proof -
  assume "s \<noteq> []"
  then have "0 < length s" by simp
  then show ?thesis using length_dropWhile_le [of "\<lambda>x. x \<noteq> c" s] unfolding after_def length_tl by linarith
qed

text \<open>The lines of a text, each of which ends in a newline.\<close>

function text_lines :: "string \<Rightarrow> string list" where
  "text_lines s = (if s = [] then [] else before (CHR 0x0A) s # text_lines (after (CHR 0x0A) s))"
  by pat_completeness auto
termination
  by (relation "measure length") (auto intro: length_after_less)

declare text_lines.simps [simp del]

text \<open>Id, remaining quantity and timestamp of each order of a level.\<close>

function read_orders :: "string \<Rightarrow> (nat \<times> nat \<times> nat) list" where
  "read_orders s =
     (if s = [] then []
      else let s1 = after (CHR ''='') s; s2 = after (CHR ''='') s1; s3 = after (CHR ''='') s2
           in (from_string_nat (before (CHR '' '') s1), from_string_nat (before (CHR '' '') s2),
               from_string_nat (before (CHR '']'') s3)) # read_orders (drop 1 (after (CHR '']'') s3)))"
  by pat_completeness auto
termination
proof (relation "measure length")
  fix s x xa xb :: string
  assume a: "s \<noteq> []" "x = after (CHR ''='') s" "xa = after (CHR ''='') x" "xb = after (CHR ''='') xa"
  have "length (after (CHR '']'') xb) \<le> length x" using a length_after le_trans by metis
  moreover have "length x < length s" using a length_after_less by simp
  ultimately show "(drop 1 (after (CHR '']'') xb), s) \<in> measure length" by simp
qed simp

declare read_orders.simps [simp del]

definition read_level :: "string \<Rightarrow> string \<times> (nat \<times> nat \<times> nat) list" where
  "read_level l = (before (CHR '':'') (drop 2 l), read_orders (drop 1 (after (CHR '':'') l)))"

text \<open>Both sides: a line that starts with \<open>=\<close> is a heading.\<close>

definition is_heading :: "string \<Rightarrow> bool" where
  "is_heading l = (take 1 l = ''='')"

type_synonym shown_levels = "(string \<times> (nat \<times> nat \<times> nat) list) list"

definition read_dump :: "string \<Rightarrow> shown_levels \<times> shown_levels" where
  "read_dump s =
     (let ls = tl (text_lines s)
      in (map read_level (takeWhile (\<lambda>l. \<not> is_heading l) ls),
          map read_level (tl (dropWhile (\<lambda>l. \<not> is_heading l) ls))))"

section \<open>The round trip\<close>

definition shown_order :: "Order \<Rightarrow> nat \<times> nat \<times> nat" where
  "shown_order o1 = (unat (order_id o1), unat (remaining_quantity o1), unat (timestamp o1))"

definition shown_level :: "double \<times> Order list \<Rightarrow> string \<times> (nat \<times> nat \<times> nat) list" where
  "shown_level = (\<lambda>(p, dq). (fixed2 p, map shown_order dq))"

lemma not_in_number: "\<not> is_digit c \<Longrightarrow> c \<notin> set (to_string_nat n)"
  using to_string_digits by blast

lemma delimiters_no_digit [simp]:
  "\<not> is_digit (CHR ''='')" "\<not> is_digit (CHR '' '')" "\<not> is_digit (CHR '']'')" "\<not> is_digit (CHR '':'')"
  "\<not> is_digit (CHR 0x0A)"
  by (simp_all add: is_digit_def)

lemma not_in_price:
  "CHR '':'' \<notin> set (fixed2 p)" "CHR 0x0A \<notin> set (fixed2 p)" "CHR ''='' \<notin> set (fixed2 p)"
  using fixed2_chars [of "CHR '':''" p] fixed2_chars [of "CHR 0x0A" p] fixed2_chars [of "CHR ''=''" p] by auto

lemma read_orders_dump: "read_orders (concat (map dump_order dq)) = map shown_order dq"
proof (induction dq)
  case Nil
  then show ?case by (simp add: read_orders.simps)
next
  case (Cons o1 dq)
  let ?r = "concat (map dump_order dq)"
  let ?n = "to_string_nat (unat (order_id o1))" and ?q = "to_string_nat (unat (remaining_quantity o1))"
    and ?t = "to_string_nat (unat (timestamp o1))"
  let ?s3 = "?t @ CHR '']'' # CHR '' '' # ?r"
  let ?s2 = "?q @ CHR '' '' # ''ts='' @ ?s3"
  let ?s1 = "?n @ CHR '' '' # ''qty='' @ ?s2"
  let ?s = "''[id='' @ ?s1"
  have s: "concat (map dump_order (o1 # dq)) = ?s" by (simp add: dump_order_def)
  have "after (CHR ''='') ?s = ?s1" using after_append [of "CHR ''=''" "''[id''" ?s1] by simp
  moreover have "after (CHR ''='') ?s1 = ?s2"
    using after_append [of "CHR ''=''" "?n @ '' qty''" ?s2] by (simp add: not_in_number)
  moreover have "after (CHR ''='') ?s2 = ?s3"
    using after_append [of "CHR ''=''" "?q @ '' ts''" ?s3] by (simp add: not_in_number)
  moreover have "before (CHR '' '') ?s1 = ?n" "before (CHR '' '') ?s2 = ?q" "before (CHR '']'') ?s3 = ?t"
    "after (CHR '']'') ?s3 = CHR '' '' # ?r"
    by (simp_all add: before_append after_append not_in_number)
  ultimately have "read_orders ?s =
      (from_string_nat ?n, from_string_nat ?q, from_string_nat ?t) # read_orders ?r"
    by (subst read_orders.simps) (simp add: Let_def)
  then show ?case using Cons.IH unfolding s by (simp add: shown_order_def from_to_string_nat)
qed

definition level_line :: "double \<times> Order list \<Rightarrow> string" where
  "level_line = (\<lambda>(p, dq). ''  '' @ fixed2 p @ '': '' @ concat (map dump_order dq))"

lemma dump_level_line: "dump_level l = level_line l @ [CHR 0x0A]"
  by (simp add: dump_level_def level_line_def split: prod.split)

lemma read_level_line: "read_level (level_line l) = shown_level l"
proof (cases l)
  case (Pair p dq)
  let ?r = "concat (map dump_order dq)"
  have "before (CHR '':'') (fixed2 p @ CHR '':'' # CHR '' '' # ?r) = fixed2 p"
    by (simp add: before_append not_in_price)
  moreover have "after (CHR '':'') ((CHR '' '' # CHR '' '' # fixed2 p) @ CHR '':'' # CHR '' '' # ?r) = CHR '' '' # ?r"
    by (rule after_append) (simp add: not_in_price)
  ultimately show ?thesis
    by (simp add: Pair level_line_def read_level_def shown_level_def read_orders_dump)
qed

lemma no_newline_order: "CHR 0x0A \<notin> set (dump_order o1)"
  by (simp add: dump_order_def not_in_number)

lemma no_newline_level: "CHR 0x0A \<notin> set (level_line l)"
  using no_newline_order by (auto simp: level_line_def not_in_price split: prod.splits)

lemma level_no_heading: "\<not> is_heading (level_line l)"
  by (simp add: is_heading_def level_line_def split: prod.split)

lemma text_lines_line: "CHR 0x0A \<notin> set l \<Longrightarrow> text_lines (l @ CHR 0x0A # s) = l # text_lines s"
  by (subst text_lines.simps) (simp add: before_append after_append)

lemma text_lines_levels:
  "text_lines (concat (map dump_level m) @ s) = map level_line m @ text_lines s"
  by (induction m) (simp_all add: dump_level_line text_lines_line no_newline_level)

lemma headings:
  "CHR 0x0A \<notin> set asks_heading" "CHR 0x0A \<notin> set bids_heading" "is_heading bids_heading"
  by (simp_all add: asks_heading_def bids_heading_def is_heading_def)

lemma text_lines_dump:
  "text_lines (dump b) = asks_heading # map level_line (asks b) @ bids_heading # map level_line (bids b)"
proof -
  have "text_lines (concat (map dump_level (bids b))) = map level_line (bids b)"
    using text_lines_levels [of "bids b" "[]"] by (simp add: text_lines.simps)
  then show ?thesis by (simp add: dump_def text_lines_line text_lines_levels headings)
qed


end
