(* ===== verification/ShortWrites.thy ===== *)
theory ShortWrites
  imports TradeLog
begin

text \<open>
  Writes that the device takes only in part, as when it fills up: \<open>write\<close> then stores as many
  bytes as there is room for, and the stream discards the rest.  \<open>TradeLog::publish\<close> and
  \<open>LogBackedOrderQueue::push\<close> use the results of \<open>fwrite\<close>, \<open>fflush\<close> and \<open>fsync\<close> nowhere, so they return as
  if the record had been written, and the next record is appended to the fragment.
\<close>

section \<open>Operations\<close>

definition fwrite_short :: "string \<Rightarrow> nat \<Rightarrow> u8 list \<Rightarrow> fs \<Rightarrow> fs" where
  "fwrite_short p room bs d = fwrite_end p (take room bs) d"

definition publish_short :: "nat \<Rightarrow> Trade \<Rightarrow> TradeLog \<Rightarrow> fs \<Rightarrow> fs" where
  "publish_short room t l d = fwrite_short (tl_path l) room (enc_trade t) d"

definition log_push_short ::
  "nat \<Rightarrow> 48 word \<Rightarrow> Order \<Rightarrow> LogBackedOrderQueue \<times> fs \<Rightarrow> (LogBackedOrderQueue \<times> fs) option" where
  "log_push_short room pad x = (\<lambda>(q, d). Some (q, fwrite_short (log_path q) room (enc_order pad x) d))"

lemma enough_room:
  "sizeof_Trade \<le> room \<Longrightarrow> publish_short room t l d = publish t l d"
  "order_wf x \<Longrightarrow> sizeof_Order \<le> room \<Longrightarrow> log_push_short room pad x = log_push pad x"
  by (simp_all add: publish_short_def publish_def log_push_short_def log_push_def fwrite_short_def length_enc_trade
      length_enc_order fun_eq_iff)

section \<open>Records behind a fragment\<close>

text \<open>
  The records one reads from a fragment \<open>f\<close> and the blocks \<open>bs\<close> behind it: each is completed with
  the first \<open>r\<close> bytes of the next block.
\<close>

fun splices :: "nat \<Rightarrow> 'b list \<Rightarrow> 'b list list \<Rightarrow> 'b list list" where
  "splices r f [] = []"
| "splices r f (b # bs) = (f @ take r b) # splices r (drop r b) bs"

lemma length_splices [simp]: "length (splices r f bs) = length bs"
  by (induction bs arbitrary: f) simp_all

lemma splices_width:
  "length f + r = w \<Longrightarrow> list_all (\<lambda>b. length b = w) bs \<Longrightarrow> list_all (\<lambda>b. length b = w) (splices r f bs)"
  by (induction bs arbitrary: f) auto

lemma splices_bytes: "\<exists>rest. f @ concat bs = concat (splices r f bs) @ rest \<and> (bs = [] \<longrightarrow> rest = f)"
proof (induction bs arbitrary: f)
  case (Cons b bs)
  obtain rest where "drop r b @ concat bs = concat (splices r (drop r b) bs) @ rest" using Cons by blast
  then show ?case by (metis (no_types) append.assoc append_take_drop_id concat.simps(2) list.distinct(1) splices.simps(2))
qed simp

lemma nth_block:
  "list_all (\<lambda>b. length b = w) bs \<Longrightarrow> i < length bs \<Longrightarrow> take w (drop (i * w) (concat bs @ rest)) = bs ! i"
proof (induction bs arbitrary: i)
  case (Cons b bs)
  then show ?case by (cases i) (simp_all add: add.commute)
qed simp

context record_codec
begin

lemma behind_fragment:
  fixes p :: 'p
  assumes "log_holds dec width xs bs" and "0 < k" "k < width" and "ok y" and "list_all ok zs"
  defines "bytes \<equiv> bs @ take k (enc p y) @ concat (map (enc p) zs)"
    and "mixed \<equiv> splices (width - k) (take k (enc p y)) (map (enc p) zs)"
  shows "length bytes div width = length xs + length zs"
    and "i < length zs \<Longrightarrow> take width (drop ((length xs + i) * width) bytes) = mixed ! i"
    and "i < length xs \<Longrightarrow> record_at dec width i bytes = Some (xs ! i)"
proof -
  have len: "length bs = length xs * width" using assms(1) by (simp add: log_holds_def)
  have f: "length (take k (enc p y)) = k" using assms(3,4) by (simp add: length_enc)
  have w: "list_all (\<lambda>b. length b = width) (map (enc p) zs)" using assms(5) by (auto simp: list_all_iff length_enc)
  have "length (concat (map (enc p) zs)) = length zs * width"
    using w by (induction zs) simp_all
  then have "length bytes = k + (length xs + length zs) * width"
    using len f by (simp add: bytes_def algebra_simps)
  then show "length bytes div width = length xs + length zs" using assms(2,3) by simp
  have m: "list_all (\<lambda>b. length b = width) mixed"
    unfolding mixed_def using f w assms(3) by (intro splices_width) simp_all
  obtain rest where r: "take k (enc p y) @ concat (map (enc p) zs) = concat mixed @ rest"
    unfolding mixed_def using splices_bytes by blast
  have "drop ((length xs + i) * width) bytes = drop (i * width) (concat mixed @ rest)"
    unfolding bytes_def r using len by (simp add: add_mult_distrib)
  then show "i < length zs \<Longrightarrow> take width (drop ((length xs + i) * width) bytes) = mixed ! i"
    using nth_block [OF m] by (simp add: mixed_def)
  show "record_at dec width i bytes = Some (xs ! i)" if i: "i < length xs"
  proof -
    have "Suc i * width \<le> length xs * width" using i by (intro mult_right_mono) simp_all
    then have "take width (drop (i * width) bytes) = take width (drop (i * width) bs)"
      using len by (simp add: bytes_def)
    then show ?thesis using assms(1) i by (simp add: log_holds_def record_at_def)
  qed
qed

end

section \<open>The trade log\<close>

definition publish_list :: "Trade list \<Rightarrow> TradeLog \<Rightarrow> fs \<Rightarrow> fs" where
  "publish_list ts l d = fold (\<lambda>t. publish t l) ts d"

lemma publish_list_bytes:
  "file_bytes (tl_path l) (publish_list ts l d) = file_bytes (tl_path l) d @ concat (map enc_trade ts) \<and>
     can_open (publish_list ts l d) = can_open d"
  by (induction ts arbitrary: d) (simp_all add: publish_list_def publish_def fwrite_end_def)

lemma trade_count:
  assumes "n < 2 ^ 63"
  shows "(of_nat n :: u64) div of_nat sizeof_Trade = of_nat (n div sizeof_Trade)"
proof -
  have "n < 18446744073709551616" using assms by simp
  moreover from this have "n div 40 < 18446744073709551616" by (meson div_le_dividend le_less_trans)
  ultimately show ?thesis
    by (intro word_unat_eq_iff [THEN iffD2])
      (simp add: unat_div_distrib sizeof_Trade_value unat_of_nat take_bit_nat_eq_self)
qed

text \<open>A subscriber reads the forty bytes at its offset, whatever they are.\<close>

lemma try_next_bytes:
  assumes "length (file_bytes (sub_log_path s) d) < 2 ^ 63" and "sub_offset s = of_nat i"
    and "i < length (file_bytes (sub_log_path s) d) div sizeof_Trade" and "can_open d (sub_checkpoint_path s)"
  shows "\<exists>t s' d'. dec_trade (take sizeof_Trade (drop (i * sizeof_Trade) (file_bytes (sub_log_path s) d))) = Some t \<and>
     try_next s d = (Next t, s', d')"
proof -
  let ?b = "file_bytes (sub_log_path s) d"
  have n: "length ?b < 18446744073709551616" using assms(1) by simp
  have i: "Suc i * 40 \<le> length ?b" using assms(3) by (simp add: sizeof_Trade_value less_eq_div_iff_mult_less_eq Suc_le_eq)
  have "unat (of_nat (length ?b) div of_nat sizeof_Trade :: u64) = length ?b div 40"
    using n by (simp add: unat_div_distrib sizeof_Trade_value unat_of_nat take_bit_nat_eq_self)
  moreover have "unat (of_nat i :: u64) = i" using i n by (simp add: unat_of_nat take_bit_nat_eq_self)
  ultimately have lt: "\<not> of_nat (length ?b) div of_nat sizeof_Trade \<le> sub_offset s"
    using assms(2,3) by (simp add: word_le_nat_alt sizeof_Trade_value)
  have "unat (of_nat i * of_nat sizeof_Trade :: u64) = i * sizeof_Trade"
    using i n by (simp add: sizeof_Trade_value unat_word_ariths unat_of_nat take_bit_nat_eq_self flip: of_nat_mult)
  moreover have "length (take sizeof_Trade (drop (i * sizeof_Trade) ?b)) = sizeof_Trade"
    using i by (simp add: sizeof_Trade_value)
  then obtain t where "dec_trade (take sizeof_Trade (drop (i * sizeof_Trade) ?b)) = Some t"
    by (simp add: dec_trade_def Let_def)
  ultimately show ?thesis
    using lt assms(2,4) read_write_checkpoint [OF assms(4)]
    by (simp add: try_next_def sub_write_checkpoint_def Let_def split: sum.split)
qed

lemma enc_dec_trade: "dec_trade bs = Some t \<Longrightarrow> enc_trade t = bs"
proof -
  assume d: "dec_trade bs = Some t"
  then have len: "length bs = 40" by (simp add: dec_trade_def sizeof_Trade_value Let_def split: if_splits)
  have "t = \<lparr>buy_order_id = dec_u64 (field 0 8 bs), sell_order_id = dec_u64 (field 8 8 bs),
      t_price = dec_double (field 16 8 bs), t_quantity = dec_u64 (field 24 8 bs), t_timestamp = dec_u64 (field 32 8 bs)\<rparr>"
    using d by (simp add: dec_trade_def Let_def Trade_member_bytes split: if_splits)
  then have "enc_trade t = field 0 8 bs @ field 8 8 bs @ field 16 8 bs @ field 24 8 bs @ field 32 8 bs"
    using len by (simp add: enc_trade_def enc_dec_u64 enc_dec_double)
  also have "\<dots> = bs"
    using len field_join [of 32 8 bs] field_join [of 24 8 bs] field_join [of 16 8 bs] field_join [of 8 8 bs]
      field_join [of 0 8 bs] by simp
  finally show ?thesis .
qed

text \<open>
  C34: A trade that the device took only in part corrupts the topic for good.  The publisher
  goes on as if nothing had happened; every trade published before is still read as it was, but
  from then on every subscriber reads, in place of each trade, a record made of the end of the
  one before and the beginning of this one, which decodes like any other, and the rest of the
  last trade is not read at all.
\<close>

theorem short_publish_shifts_topic:
  assumes "log_holds dec_trade sizeof_Trade ts (file_bytes (tl_path l) d)" and "0 < k" "k < sizeof_Trade"
    and "sub_log_path s = tl_path l" and "can_open d (sub_checkpoint_path s)"
    and "(length ts + length zs + 1) * sizeof_Trade < 2 ^ 63" and "sub_offset s = of_nat n"
    and d'_def: "d' = publish_list zs l (publish_short k t l d)"
  shows "(n < length ts \<longrightarrow> (\<exists>s' d''. try_next s d' = (Next (ts ! n), s', d''))) \<and>
    (length ts \<le> n \<and> n < length ts + length zs \<longrightarrow>
       (\<exists>t' s' d''. try_next s d' = (Next t', s', d'') \<and>
          enc_trade t' =
            splices (sizeof_Trade - k) (take k (enc_trade t)) (map enc_trade zs) ! (n - length ts))) \<and>
    (n = length ts + length zs \<longrightarrow> try_next s d' = (No_trade, s, d'))"
proof -
  let ?b = "file_bytes (tl_path l) d @ take k (enc_trade t) @ concat (map enc_trade zs)"
  have b: "file_bytes (sub_log_path s) d' = ?b" and co: "can_open d' (sub_checkpoint_path s)"
    using publish_list_bytes [of l zs "publish_short k t l d"] assms(4,5)
    by (simp_all add: d'_def publish_short_def fwrite_short_def fwrite_end_def)
  note frag = trade_codec.behind_fragment [OF assms(1-3) TrueI, where y = t and zs = zs]
  have cnt: "length ?b div sizeof_Trade = length ts + length zs" using frag(1) by (simp add: list_all_iff)
  then have "length ?b < (length ts + length zs + 1) * sizeof_Trade"
    using dividend_less_div_times [of sizeof_Trade "length ?b"] by (simp add: sizeof_Trade_value)
  then have len: "length ?b < 2 ^ 63" using assms(6) by linarith
  have read: "\<exists>t' s' d''. dec_trade (take sizeof_Trade (drop (n * sizeof_Trade) ?b)) = Some t' \<and> try_next s d' = (Next t', s', d'')"
    if "n < length ts + length zs"
    using try_next_bytes [of s d' n, unfolded b cnt, OF len assms(7) that co] .
  have "\<exists>s' d''. try_next s d' = (Next (ts ! n), s', d'')" if "n < length ts"
    using read frag(3) [of n] that by (auto simp: record_at_def list_all_iff)
  moreover have "\<exists>t' s' d''. try_next s d' = (Next t', s', d'') \<and>
      enc_trade t' = splices (sizeof_Trade - k) (take k (enc_trade t)) (map enc_trade zs) ! (n - length ts)"
    if "length ts \<le> n \<and> n < length ts + length zs"
    using read frag(2) [of "n - length ts"] that enc_dec_trade by (fastforce simp: list_all_iff)
  moreover have "try_next s d' = (No_trade, s, d')" if "n = length ts + length zs"
  proof -
    have "of_nat (length ?b) div of_nat sizeof_Trade = sub_offset s"
      unfolding trade_count [OF len] cnt using that assms(7) by simp
    then show ?thesis unfolding try_next_def b Let_def by (simp del: length_append)
  qed
  ultimately show ?thesis by blast
qed

text \<open>A device that takes the first eight bytes of a trade, and one trade behind it.\<close>

theorem short_publish_shifts_topic_witness:
  "\<exists>s d0 d1 s' d''. make_subscriber ''s'' ''risk'' traded_disk = Inr (s, d0) \<and>
     d1 = publish_list [sample_trade] \<lparr>tl_path = ''s_trades.log''\<rparr> (publish_short 8 sample_trade \<lparr>tl_path = ''s_trades.log''\<rparr> d0) \<and>
     try_next (s\<lparr>sub_offset := 1\<rparr>) d1 =
       (Next \<lparr>buy_order_id = 2, sell_order_id = 2, t_price = F64 1, t_quantity = 0x4059000000000000, t_timestamp = 3\<rparr>,
        s', d'')"
proof -
  let ?l = "\<lparr>tl_path = ''s_trades.log''\<rparr>"
  let ?t = "\<lparr>buy_order_id = 2, sell_order_id = 2, t_price = F64 1, t_quantity = 0x4059000000000000, t_timestamp = 3\<rparr>"
  obtain s d0 where m: "make_subscriber ''s'' ''risk'' traded_disk = Inr (s, d0)" and s: "sub_log_path s = ''s_trades.log''"
    and d0: "can_open d0 (sub_checkpoint_path s)" "file_bytes ''s_trades.log'' d0 = enc_trade sample_trade"
    by (simp add: make_subscriber_def fopen_append_def traded_disk_def Let_def file_bytes_def set_file_def)
  have "log_holds dec_trade sizeof_Trade ([] @ [sample_trade]) ([] @ enc_trade sample_trade)"
    by (rule trade_codec.holds_append [OF trade_codec.holds_Nil]) simp
  then have h: "log_holds dec_trade sizeof_Trade [sample_trade] (file_bytes (tl_path ?l) d0)" using d0 by simp
  have "(0 :: nat) < 8" "8 < sizeof_Trade" by (simp_all add: sizeof_Trade_value)
  from short_publish_shifts_topic [OF h this, of "s\<lparr>sub_offset := 1\<rparr>" "[sample_trade]" 1 _ sample_trade] s d0
  obtain t' s' d'' where r: "try_next (s\<lparr>sub_offset := 1\<rparr>) (publish_list [sample_trade] ?l (publish_short 8 sample_trade ?l d0)) = (Next t', s', d'')"
    and t': "enc_trade t' = splices 32 (take 8 (enc_trade sample_trade)) [enc_trade sample_trade] ! 0"
    by (auto simp: sizeof_Trade_value)
  have "enc_trade t' = enc_trade ?t"
    unfolding t' by (simp add: enc_trade_def sample_trade_def enc_double_def)
  then have "t' = ?t" by (metis dec_enc_trade option.inject)
  then show ?thesis using m r by blast
qed

section \<open>The order log\<close>

text \<open>
  The same for the log of orders: behind a fragment an engine takes, in place of each order,
  the mixture of two, if its bytes for side and type happen to be enumerators.
\<close>

lemma short_push_shifts_log:
  assumes "log_holds dec_order sizeof_Order xs (file_bytes (log_path q) d)" and "0 < k" "k < sizeof_Order"
    and "order_wf y" and "list_all order_wf zs" and "i < length zs" and "consumer_offset q = of_nat (length xs + i)"
    and "(length xs + length zs + 1) * sizeof_Order < 2 ^ 63" and "can_open d (checkpoint_path q)"
    and "push_all (log_push pad) zs (the (log_push_short k pad y (q, d))) = Some (q, d')"
  shows "fst (log_pop (q, d')) =
    (case dec_order (splices (sizeof_Order - k) (take k (enc_order pad y)) (map (enc_order pad) zs) ! i) of
       None \<Rightarrow> Threw Bad_enum | Some x \<Rightarrow> Popped x)"
proof -
  let ?b = "file_bytes (log_path q) d @ take k (enc_order pad y) @ concat (map (enc_order pad) zs)"
  have pushes: "push_all (log_push pad) zs (q, e) = Some (q, e') \<Longrightarrow>
      file_bytes (log_path q) e' = file_bytes (log_path q) e @ concat (map (enc_order pad) zs) \<and> can_open e' = can_open e"
    for e e' zs
    by (induction zs arbitrary: e) (auto simp: log_push_def fwrite_end_def)
  have b: "file_bytes (log_path q) d' = ?b" and co: "can_open d' (checkpoint_path q)"
    using pushes [of zs _ d'] assms(9,10) by (auto simp: log_push_short_def fwrite_short_def fwrite_end_def)
  note frag = order_codec.behind_fragment [OF assms(1-5), where p = pad]
  have "length ?b < (length xs + length zs + 1) * sizeof_Order"
    using dividend_less_div_times [of sizeof_Order "length ?b"] frag(1) by (simp add: sizeof_Order_value)
  then have len: "length ?b < 2 ^ 63" using assms(8) by linarith
  have n: "length ?b < 18446744073709551616" using len by simp
  have i: "(length xs + i) * 64 < 18446744073709551616" using assms(6,8) by (simp add: sizeof_Order_value)
  have cnt: "unat (current_file_record_count q d') = length xs + length zs"
    using n frag(1) unfolding current_file_record_count_def b
    by (simp add: unat_div_distrib sizeof_Order_value unat_of_nat take_bit_nat_eq_self del: length_append)
  have off: "unat (consumer_offset q) = length xs + i"
    "unat (consumer_offset q * of_nat sizeof_Order) = (length xs + i) * sizeof_Order"
    using i unfolding assms(7)
    by (simp_all add: unat_of_nat take_bit_nat_eq_self sizeof_Order_value unat_word_ariths del: of_nat_add)
  have lt: "consumer_offset q < current_file_record_count q d'" using cnt off(1) assms(6) by (simp add: word_less_nat_alt)
  have rec: "take sizeof_Order (drop ((length xs + i) * sizeof_Order) ?b) =
      splices (sizeof_Order - k) (take k (enc_order pad y)) (map (enc_order pad) zs) ! i"
    using frag(2) [OF assms(6)] .
  have "list_all (\<lambda>b. length b = sizeof_Order) (splices (sizeof_Order - k) (take k (enc_order pad y)) (map (enc_order pad) zs))"
    using assms(3,4,5) by (intro splices_width) (auto simp: list_all_iff length_enc_order)
  then have w: "length (splices (sizeof_Order - k) (take k (enc_order pad y)) (map (enc_order pad) zs) ! i) = sizeof_Order"
    using assms(6) by (simp add: list_all_length)
  show ?thesis
    unfolding log_pop_def Let_def prod.case off(2) b rec if_P [OF lt]
    using w read_write_checkpoint [OF co] by (simp split: option.split)
qed

end
