(* ===== verification/LockFreeWeak.thy ===== *)
theory LockFreeWeak
  imports LockFreeConcurrent
begin

text \<open>
  \<open>LockFreeOrderQueue\<close> of \<open>include/lockfree_order_queue.hpp\<close> with the memory orders the code
  names, in the release/acquire fragment of the C++ memory model.  Each atomic has its
  modification order, a list of messages.  A thread's view says how far along each of these
  lists it has got, and how many of the accesses to each slot of the buffer happen before its
  next step; a release store leaves the view of its thread in the message, an acquire load takes
  it over.  A load may return any message that is not older than the thread's view.  An access to
  a slot that is not ordered after the conflicting accesses is a data race.  \<open>head_\<close> and \<open>tail_\<close> have
  one writer each, a slot has one writing and one reading thread, and all stores to \<open>done_\<close> write
  true, so stores go to the end of the modification order.
\<close>

section \<open>Memory\<close>

datatype mem_thread = Producer | Consumer | Other

datatype atomic = A_head | A_tail | A_done

datatype view_at = Mo atomic | Wr nat | Rd nat

type_synonym view = "view_at \<Rightarrow> nat"

record message =
  msg_value :: u64
  msg_view :: view

record ra_state =
  cells :: "Order list"
  hist :: "atomic \<Rightarrow> message list"
  slot_writes :: "nat \<Rightarrow> nat"
  slot_reads :: "nat \<Rightarrow> nat"
  views :: "mem_thread \<Rightarrow> view"
  ra_prod :: producer_pc
  ra_cons :: popper_pc
  ra_spins :: u64
  ra_pushed :: "Order list"
  ra_popped :: "Order list"
  shut_after :: "Order list list"

definition view_join :: "view \<Rightarrow> view \<Rightarrow> view" where
  "view_join v w = (\<lambda>l. max (v l) (w l))"

definition load_relaxed :: "mem_thread \<Rightarrow> atomic \<Rightarrow> nat \<Rightarrow> ra_state \<Rightarrow> (u64 \<times> ra_state) option" where
  "load_relaxed t a i st =
     (if views st t (Mo a) \<le> i \<and> i < length (hist st a)
      then Some (msg_value (hist st a ! i), st\<lparr>views := (views st)(t := (views st t)(Mo a := i))\<rparr>)
      else None)"

definition load_acquire :: "mem_thread \<Rightarrow> atomic \<Rightarrow> nat \<Rightarrow> ra_state \<Rightarrow> (u64 \<times> ra_state) option" where
  "load_acquire t a i st =
     (if views st t (Mo a) \<le> i \<and> i < length (hist st a)
      then Some (msg_value (hist st a ! i),
                 st\<lparr>views := (views st)(t := view_join ((views st t)(Mo a := i)) (msg_view (hist st a ! i)))\<rparr>)
      else None)"

definition store_release :: "mem_thread \<Rightarrow> atomic \<Rightarrow> u64 \<Rightarrow> ra_state \<Rightarrow> ra_state" where
  "store_release t a x st =
     (let v = (views st t)(Mo a := length (hist st a)) in
      st\<lparr>hist := (hist st)(a := hist st a @ [\<lparr>msg_value = x, msg_view = v\<rparr>]), views := (views st)(t := v)\<rparr>)"

definition slot_write :: "mem_thread \<Rightarrow> nat \<Rightarrow> Order \<Rightarrow> ra_state \<Rightarrow> ra_state option" where
  "slot_write t i x st =
     (if views st t (Wr i) = slot_writes st i \<and> views st t (Rd i) = slot_reads st i
      then Some (st\<lparr>cells := (cells st)[i := x],
                    slot_writes := (slot_writes st)(i := Suc (slot_writes st i)),
                    views := (views st)(t := (views st t)(Wr i := Suc (slot_writes st i)))\<rparr>)
      else None)"

definition slot_read :: "mem_thread \<Rightarrow> nat \<Rightarrow> ra_state \<Rightarrow> (Order \<times> ra_state) option" where
  "slot_read t i st =
     (if views st t (Wr i) = slot_writes st i
      then Some (cells st ! i,
                 st\<lparr>slot_reads := (slot_reads st)(i := Suc (slot_reads st i)),
                    views := (views st)(t := (views st t)(Rd i := Suc (slot_reads st i)))\<rparr>)
      else None)"

section \<open>The calls, access by access\<close>

text \<open>
  Loads name the message they return.  \<open>R_sync\<close> is a synchronisation of the third thread with the
  producer outside the queue, such as joining it.  \<open>shut_after\<close> records, for each call of
  \<open>shutdown\<close>, the orders whose \<open>push\<close> happens before it.
\<close>

datatype ra_event =
  R_push_head Order nat | R_push_tail nat | R_push_write | R_push_publish
  | R_pop_tail nat | R_pop_head nat | R_pop_read | R_pop_release | R_pop_done nat | R_pop_recheck nat
  | R_shutdown mem_thread | R_sync

datatype ra_outcome = Disabled | Data_race | Stepped ra_state

definition after_load :: "('a \<times> ra_state) option \<Rightarrow> ('a \<Rightarrow> ra_state \<Rightarrow> ra_state) \<Rightarrow> ra_outcome" where
  "after_load r f = (case r of None \<Rightarrow> Disabled | Some (x, st) \<Rightarrow> Stepped (f x st))"

definition shutdown_thread :: "mem_thread \<Rightarrow> ra_state \<Rightarrow> bool" where
  "shutdown_thread t st = (t = Other \<or> t = Producer \<and> ra_prod st = P_Idle)"

fun ra_step :: "LockFreeOrderQueue \<Rightarrow> ra_event \<Rightarrow> ra_state \<Rightarrow> ra_outcome" where
  "ra_step q (R_push_head x i) st =
     (case ra_prod st of
        P_Idle \<Rightarrow> after_load (load_relaxed Producer A_head i st) (\<lambda>h s. s\<lparr>ra_prod := P_Loop x h\<rparr>)
      | _ \<Rightarrow> Disabled)"
| "ra_step q (R_push_tail i) st =
     (case ra_prod st of
        P_Loop x h \<Rightarrow>
          after_load (load_acquire Producer A_tail i st)
            (\<lambda>t s. if h - t < capacity q then s\<lparr>ra_prod := P_Slot x h\<rparr> else s\<lparr>ra_spins := ra_spins s + 1\<rparr>)
      | _ \<Rightarrow> Disabled)"
| "ra_step q R_push_write st =
     (case ra_prod st of
        P_Slot x h \<Rightarrow>
          (case slot_write Producer (slot q h) x st of
             None \<Rightarrow> Data_race
           | Some s \<Rightarrow> Stepped (s\<lparr>ra_prod := P_Written x h\<rparr>))
      | _ \<Rightarrow> Disabled)"
| "ra_step q R_push_publish st =
     (case ra_prod st of
        P_Written x h \<Rightarrow>
          Stepped ((store_release Producer A_head (h + 1) st)
            \<lparr>ra_prod := P_Idle, ra_pushed := ra_pushed st @ [x]\<rparr>)
      | _ \<Rightarrow> Disabled)"
| "ra_step q (R_pop_tail i) st =
     (case ra_cons st of
        K_Idle \<Rightarrow> after_load (load_relaxed Consumer A_tail i st) (\<lambda>t s. s\<lparr>ra_cons := K_Loop t\<rparr>)
      | _ \<Rightarrow> Disabled)"
| "ra_step q (R_pop_head i) st =
     (case ra_cons st of
        K_Loop t \<Rightarrow>
          after_load (load_acquire Consumer A_head i st)
            (\<lambda>h s. s\<lparr>ra_cons := (if t < h then K_Data t else K_Empty t)\<rparr>)
      | _ \<Rightarrow> Disabled)"
| "ra_step q R_pop_read st =
     (case ra_cons st of
        K_Data t \<Rightarrow>
          (case slot_read Consumer (slot q t) st of
             None \<Rightarrow> Data_race
           | Some (x, s) \<Rightarrow> Stepped (s\<lparr>ra_cons := K_Read t x\<rparr>))
      | _ \<Rightarrow> Disabled)"
| "ra_step q R_pop_release st =
     (case ra_cons st of
        K_Read t x \<Rightarrow>
          Stepped ((store_release Consumer A_tail (t + 1) st)
            \<lparr>ra_cons := K_Idle, ra_popped := ra_popped st @ [x]\<rparr>)
      | _ \<Rightarrow> Disabled)"
| "ra_step q (R_pop_done i) st =
     (case ra_cons st of
        K_Empty t \<Rightarrow>
          after_load (load_acquire Consumer A_done i st)
            (\<lambda>d s. s\<lparr>ra_cons := (if d \<noteq> 0 then K_Recheck t else K_Loop t)\<rparr>)
      | _ \<Rightarrow> Disabled)"
| "ra_step q (R_pop_recheck i) st =
     (case ra_cons st of
        K_Recheck t \<Rightarrow>
          after_load (load_acquire Consumer A_head i st)
            (\<lambda>h s. s\<lparr>ra_cons := (if t < h then K_Data t else K_False)\<rparr>)
      | _ \<Rightarrow> Disabled)"
| "ra_step q (R_shutdown t) st =
     (if shutdown_thread t st
      then Stepped ((store_release t A_done 1 st)
             \<lparr>shut_after := shut_after st @ [take (views st t (Mo A_head)) (ra_pushed st)]\<rparr>)
      else Disabled)"
| "ra_step q R_sync st =
     (if ra_prod st = P_Idle
      then Stepped (st\<lparr>views := (views st)(Other := view_join (views st Other) (views st Producer))\<rparr>)
      else Disabled)"

fun ra_run :: "LockFreeOrderQueue \<Rightarrow> ra_event list \<Rightarrow> ra_state \<Rightarrow> ra_outcome" where
  "ra_run q [] st = Stepped st"
| "ra_run q (ev # evs) st = (case ra_step q ev st of Stepped st' \<Rightarrow> ra_run q evs st' | r \<Rightarrow> r)"

definition ra_init :: "LockFreeOrderQueue \<Rightarrow> ra_state" where
  "ra_init q =
     \<lparr>cells = buffer q, hist = (\<lambda>_. [\<lparr>msg_value = 0, msg_view = (\<lambda>_. 0)\<rparr>]), slot_writes = (\<lambda>_. 0),
      slot_reads = (\<lambda>_. 0), views = (\<lambda>_ _. 0), ra_prod = P_Idle, ra_cons = K_Idle, ra_spins = 0,
      ra_pushed = [], ra_popped = [], shut_after = []\<rparr>"

section \<open>The invariant\<close>

text \<open>How often a counter that has reached \<open>m\<close> has visited slot \<open>s\<close> of \<open>n\<close>.\<close>

primrec visits :: "nat \<Rightarrow> nat \<Rightarrow> nat \<Rightarrow> nat" where
  "visits n s 0 = 0"
| "visits n s (Suc m) = visits n s m + (if m mod n = s then 1 else 0)"

lemma visits_mono: "a \<le> b \<Longrightarrow> visits n s a \<le> visits n s b"
  by (induction b) (auto simp: le_Suc_eq)

lemma visits_gap:
  "a \<le> b \<Longrightarrow> (\<And>i. a \<le> i \<Longrightarrow> i < b \<Longrightarrow> i mod n \<noteq> s) \<Longrightarrow> visits n s a = visits n s b"
  by (induction b) (auto simp: le_Suc_eq)

definition mo_last :: "ra_state \<Rightarrow> atomic \<Rightarrow> nat" where
  "mo_last st a =
     (case a of A_head \<Rightarrow> length (ra_pushed st) | A_tail \<Rightarrow> length (ra_popped st) | A_done \<Rightarrow> length (shut_after st))"

definition mo_value :: "atomic \<Rightarrow> nat \<Rightarrow> u64" where
  "mo_value a i = (case a of A_done \<Rightarrow> of_bool (i \<noteq> 0) | _ \<Rightarrow> of_nat i)"

text \<open>A view that knows a counter's value knows the accesses to the slots that led up to it.\<close>

definition view_ok :: "ra_state \<Rightarrow> view \<Rightarrow> bool" where
  "view_ok st v =
     ((\<forall>a. v (Mo a) \<le> mo_last st a) \<and>
      (\<forall>s. visits (length (cells st)) s (v (Mo A_head)) \<le> v (Wr s) \<and> v (Wr s) \<le> slot_writes st s \<and>
           visits (length (cells st)) s (v (Mo A_tail)) \<le> v (Rd s) \<and> v (Rd s) \<le> slot_reads st s))"

definition hist_ok :: "ra_state \<Rightarrow> bool" where
  "hist_ok st =
     (\<forall>a. length (hist st a) = Suc (mo_last st a) \<and>
          (\<forall>i \<le> mo_last st a. msg_value (hist st a ! i) = mo_value a i \<and>
             msg_view (hist st a ! i) (Mo a) = i \<and> view_ok st (msg_view (hist st a ! i))))"

definition written :: "ra_state \<Rightarrow> nat" where
  "written st = (case ra_prod st of P_Written x h \<Rightarrow> Suc (length (ra_pushed st)) | _ \<Rightarrow> length (ra_pushed st))"

definition read_upto :: "ra_state \<Rightarrow> nat" where
  "read_upto st = (case ra_cons st of K_Read t x \<Rightarrow> Suc (length (ra_popped st)) | _ \<Rightarrow> length (ra_popped st))"

definition views_ok :: "ra_state \<Rightarrow> bool" where
  "views_ok st =
     ((\<forall>t. view_ok st (views st t)) \<and>
      views st Producer (Mo A_head) = length (ra_pushed st) \<and>
      views st Consumer (Mo A_tail) = length (ra_popped st) \<and>
      (\<forall>s. views st Producer (Wr s) = slot_writes st s \<and> views st Consumer (Rd s) = slot_reads st s))"

definition counts_ok :: "ra_state \<Rightarrow> bool" where
  "counts_ok st =
     (\<forall>s. slot_writes st s = visits (length (cells st)) s (written st) \<and>
          slot_reads st s = visits (length (cells st)) s (read_upto st))"

definition cells_ok :: "LockFreeOrderQueue \<Rightarrow> ra_state \<Rightarrow> bool" where
  "cells_ok q st =
     (ring_ok q \<and> length (buffer q) = length (cells st) \<and> length (ra_pushed st) < 2 ^ 64 \<and>
      length (ra_popped st) \<le> length (ra_pushed st) \<and> prefix (ra_popped st) (ra_pushed st) \<and>
      written st \<le> length (ra_popped st) + length (cells st) \<and>
      (\<forall>i. length (ra_popped st) \<le> i \<and> i < length (ra_pushed st) \<longrightarrow>
           cells st ! (i mod length (cells st)) = ra_pushed st ! i))"

definition push_ok :: "ra_state \<Rightarrow> bool" where
  "push_ok st =
     (let p = length (ra_pushed st) in
      case ra_prod st of
        P_Idle \<Rightarrow> True
      | P_Loop x h \<Rightarrow> h = of_nat p
      | P_Slot x h \<Rightarrow> h = of_nat p \<and> p < views st Producer (Mo A_tail) + length (cells st)
      | P_Written x h \<Rightarrow> h = of_nat p \<and> cells st ! (p mod length (cells st)) = x)"

definition pop_ok :: "ra_state \<Rightarrow> bool" where
  "pop_ok st =
     (let c = length (ra_popped st); seen = views st Consumer (Mo A_head) in
      case ra_cons st of
        K_Idle \<Rightarrow> True
      | K_Loop t \<Rightarrow> t = of_nat c
      | K_Data t \<Rightarrow> t = of_nat c \<and> c < seen
      | K_Read t x \<Rightarrow> t = of_nat c \<and> c < length (ra_pushed st) \<and> x = ra_pushed st ! c
      | K_Empty t \<Rightarrow> t = of_nat c
      | K_Recheck t \<Rightarrow> t = of_nat c \<and> (\<exists>ys \<in> set (shut_after st). length ys \<le> seen)
      | K_False \<Rightarrow> (\<exists>ys \<in> set (shut_after st). prefix ys (ra_popped st)))"

definition shut_ok :: "ra_state \<Rightarrow> bool" where
  "shut_ok st =
     (\<forall>i < length (shut_after st).
        shut_after st ! i = take (msg_view (hist st A_done ! Suc i) (Mo A_head)) (ra_pushed st))"

definition ra_inv :: "LockFreeOrderQueue \<Rightarrow> ra_state \<Rightarrow> bool" where
  "ra_inv q st =
     (hist_ok st \<and> views_ok st \<and> counts_ok st \<and> cells_ok q st \<and> push_ok st \<and> pop_ok st \<and> shut_ok st)"

lemma view_ok_join: "view_ok st v \<Longrightarrow> view_ok st w \<Longrightarrow> view_ok st (view_join v w)"
proof -
  assume v: "view_ok st v" and w: "view_ok st w"
  have "visits (length (cells st)) s (max (v (Mo a)) (w (Mo a))) \<le> max (v l) (w l)"
    if "visits (length (cells st)) s (v (Mo a)) \<le> v l" "visits (length (cells st)) s (w (Mo a)) \<le> w l" for s a l
    using that by (auto simp: max_def)
  then show ?thesis using v w by (simp add: view_ok_def view_join_def)
qed

lemma view_ok_mono:
  assumes "view_ok st v" and "length (cells st') = length (cells st)" and "\<And>a. mo_last st a \<le> mo_last st' a"
    and "\<And>s. slot_writes st s \<le> slot_writes st' s" and "\<And>s. slot_reads st s \<le> slot_reads st' s"
  shows "view_ok st' v"
  using assms unfolding view_ok_def by (metis le_trans)

lemma mo_last_simps [simp]:
  "mo_last st A_head = length (ra_pushed st)" "mo_last st A_tail = length (ra_popped st)"
  "mo_last st A_done = length (shut_after st)"
  by (simp_all add: mo_last_def)

lemma mo_last_frame [simp]:
  "mo_last (st\<lparr>views := vs\<rparr>) a = mo_last st a" "mo_last (st\<lparr>ra_prod := p\<rparr>) a = mo_last st a"
  "mo_last (st\<lparr>ra_cons := c\<rparr>) a = mo_last st a" "mo_last (st\<lparr>ra_spins := n\<rparr>) a = mo_last st a"
  by (cases a; simp)+

lemma written_frame [simp]:
  "written (st\<lparr>views := vs\<rparr>) = written st" "written (st\<lparr>ra_cons := c\<rparr>) = written st"
  "written (st\<lparr>ra_spins := n\<rparr>) = written st" "written (st\<lparr>slot_reads := rs\<rparr>) = written st"
  by (simp_all add: written_def split: producer_pc.split)

lemma read_upto_frame [simp]:
  "read_upto (st\<lparr>views := vs\<rparr>) = read_upto st" "read_upto (st\<lparr>ra_prod := p\<rparr>) = read_upto st"
  "read_upto (st\<lparr>ra_spins := n\<rparr>) = read_upto st"
  by (simp_all add: read_upto_def split: popper_pc.split)

lemma view_ok_frame [simp]:
  "view_ok (st\<lparr>views := vs\<rparr>) v = view_ok st v" "view_ok (st\<lparr>ra_prod := p\<rparr>) v = view_ok st v"
  "view_ok (st\<lparr>ra_cons := c\<rparr>) v = view_ok st v" "view_ok (st\<lparr>ra_spins := n\<rparr>) v = view_ok st v"
  by (simp_all add: view_ok_def)

lemma push_ok_frame [simp]:
  "push_ok (st\<lparr>ra_cons := c\<rparr>) = push_ok st" "push_ok (st\<lparr>ra_spins := n\<rparr>) = push_ok st"
  by (simp_all add: push_ok_def Let_def split: producer_pc.split)

lemma pop_ok_frame [simp]:
  "pop_ok (st\<lparr>ra_prod := p\<rparr>) = pop_ok st" "pop_ok (st\<lparr>ra_spins := n\<rparr>) = pop_ok st"
  by (simp_all add: pop_ok_def Let_def split: popper_pc.split)

lemmas ra_defs = ra_inv_def hist_ok_def views_ok_def counts_ok_def cells_ok_def shut_ok_def

text \<open>A thread that learns more keeps everything.\<close>

lemma ra_inv_views:
  assumes inv: "ra_inv q st" and ok: "view_ok st v" and more: "\<And>l. views st t l \<le> v l"
  shows "ra_inv q (st\<lparr>views := (views st)(t := v)\<rparr>)"
proof -
  let ?s = "st\<lparr>views := (views st)(t := v)\<rparr>"
  have vs: "views_ok st" and inv': "hist_ok st" "counts_ok st" "cells_ok q st" "push_ok st" "pop_ok st" "shut_ok st"
    using inv by (simp_all add: ra_inv_def)
  have le: "v (Mo a) \<le> mo_last st a" "v (Wr i) \<le> slot_writes st i" "v (Rd i) \<le> slot_reads st i" for a i
    using ok by (simp_all add: view_ok_def)
  have "views_ok ?s"
    unfolding views_ok_def
    using vs ok more [of "Mo A_head"] more [of "Mo A_tail"] more [of "Wr _"] more [of "Rd _"]
      le(1) [of A_head] le(1) [of A_tail] le(2,3)
    by (auto simp: views_ok_def mo_last_def intro: le_antisym)
  moreover have "push_ok ?s"
    using inv'(4) more [of "Mo A_tail"] by (auto simp: push_ok_def Let_def split: producer_pc.splits)
  moreover have "pop_ok ?s"
    using inv'(5) more [of "Mo A_head"] by (auto simp: pop_ok_def Let_def split: popper_pc.splits dest: le_trans)
  moreover have "hist_ok ?s" "counts_ok ?s" "cells_ok q ?s" "shut_ok ?s"
    using inv'(1,2,3,6) by (simp_all add: hist_ok_def counts_ok_def cells_ok_def shut_ok_def)
  ultimately show ?thesis by (simp add: ra_inv_def)
qed

lemma ra_inv_prod:
  "ra_inv q st \<Longrightarrow> written (st\<lparr>ra_prod := p\<rparr>) = written st \<Longrightarrow> push_ok (st\<lparr>ra_prod := p\<rparr>) \<Longrightarrow>
     ra_inv q (st\<lparr>ra_prod := p\<rparr>)"
  by (simp add: ra_defs)

lemma ra_inv_cons:
  "ra_inv q st \<Longrightarrow> read_upto (st\<lparr>ra_cons := c\<rparr>) = read_upto st \<Longrightarrow> pop_ok (st\<lparr>ra_cons := c\<rparr>) \<Longrightarrow>
     ra_inv q (st\<lparr>ra_cons := c\<rparr>)"
  by (simp add: ra_defs)

lemma ra_inv_spins: "ra_inv q st \<Longrightarrow> ra_inv q (st\<lparr>ra_spins := n\<rparr>)"
  by (simp add: ra_defs)

text \<open>What a load brings: a value that is not newer than the last store, and what happened before it.\<close>

lemma load_acquired:
  assumes inv: "ra_inv q st" and ld: "load_acquire t a i st = Some (x, s)"
  shows "\<exists>v. s = st\<lparr>views := (views st)(t := v)\<rparr> \<and> x = mo_value a i \<and> i \<le> mo_last st a \<and> v (Mo a) = i \<and>
     msg_view (hist st a ! i) (Mo A_head) \<le> v (Mo A_head) \<and> views st t (Mo A_head) \<le> v (Mo A_head) \<and> ra_inv q s"
proof -
  let ?w = "msg_view (hist st a ! i)"
  let ?v = "view_join (views st t) ?w"
  have i: "views st t (Mo a) \<le> i" "i < length (hist st a)" and x: "x = msg_value (hist st a ! i)"
    and s: "s = st\<lparr>views := (views st)(t := view_join ((views st t)(Mo a := i)) ?w)\<rparr>"
    using ld by (auto simp: load_acquire_def split: if_splits)
  have h: "hist_ok st" and vs: "view_ok st (views st t)" using inv by (simp_all add: ra_inv_def views_ok_def)
  then have i': "i \<le> mo_last st a" using i(2) unfolding hist_ok_def by (metis less_Suc_eq_le)
  then have w: "msg_value (hist st a ! i) = mo_value a i" "?w (Mo a) = i" "view_ok st ?w"
    using h by (auto simp: hist_ok_def)
  have same: "view_join ((views st t)(Mo a := i)) ?w = ?v"
    using i(1) w(2) by (auto simp: view_join_def fun_eq_iff)
  have "ra_inv q s"
    unfolding s same by (rule ra_inv_views [OF inv view_ok_join [OF vs w(3)]]) (simp add: view_join_def)
  then show ?thesis
    using i(1) i' w x unfolding s same by (intro exI [of _ ?v]) (simp add: view_join_def)
qed

lemma load_own:
  assumes "ra_inv q st" and "load_relaxed t a i st = Some (x, s)" and "views st t (Mo a) = mo_last st a"
  shows "s = st \<and> x = mo_value a (mo_last st a)"
proof -
  have h: "hist_ok st" using assms(1) by (simp add: ra_inv_def)
  then have "i = mo_last st a"
    using assms(2,3) by (auto simp: load_relaxed_def hist_ok_def split: if_splits)
  moreover have "(views st)(t := (views st t)(Mo a := mo_last st a)) = views st"
    using assms(3) by (simp add: fun_upd_idem)
  ultimately show ?thesis using assms(2) h by (auto simp: load_relaxed_def hist_ok_def split: if_splits)
qed

lemma ra_push_head:
  assumes "ra_inv q st" and "ra_step q (R_push_head x i) st = Stepped st'"
  shows "ra_inv q st'"
proof -
  obtain h s where p: "ra_prod st = P_Idle" and l: "load_relaxed Producer A_head i st = Some (h, s)"
    and st': "st' = s\<lparr>ra_prod := P_Loop x h\<rparr>"
    using assms(2) by (auto simp: after_load_def split: producer_pc.splits option.splits)
  have "views st Producer (Mo A_head) = mo_last st A_head"
    using assms(1) by (simp add: ra_inv_def views_ok_def mo_last_def)
  from load_own [OF assms(1) l this] have "s = st" "h = of_nat (length (ra_pushed st))"
    by (simp_all add: mo_value_def mo_last_def)
  then show ?thesis
    using p unfolding st' by (intro ra_inv_prod) (simp_all add: assms(1) written_def push_ok_def)
qed

lemma ra_pop_tail:
  assumes "ra_inv q st" and "ra_step q (R_pop_tail i) st = Stepped st'"
  shows "ra_inv q st'"
proof -
  obtain t s where c: "ra_cons st = K_Idle" and l: "load_relaxed Consumer A_tail i st = Some (t, s)"
    and st': "st' = s\<lparr>ra_cons := K_Loop t\<rparr>"
    using assms(2) by (auto simp: after_load_def split: popper_pc.splits option.splits)
  have "views st Consumer (Mo A_tail) = mo_last st A_tail"
    using assms(1) by (simp add: ra_inv_def views_ok_def mo_last_def)
  from load_own [OF assms(1) l this] have "s = st" "t = of_nat (length (ra_popped st))"
    by (simp_all add: mo_value_def mo_last_def)
  then show ?thesis
    using c unfolding st' by (intro ra_inv_cons) (simp_all add: assms(1) read_upto_def pop_ok_def)
qed

lemma unat_of_nat_u64: "n < 2 ^ 64 \<Longrightarrow> unat (of_nat n :: u64) = n"
  by (simp add: unat_of_nat take_bit_nat_eq_self)

lemma ra_push_tail:
  assumes inv: "ra_inv q st" and "ra_step q (R_push_tail i) st = Stepped st'"
  shows "ra_inv q st'"
proof -
  let ?p = "length (ra_pushed st)"
  obtain x h t s where p: "ra_prod st = P_Loop x h" and l: "load_acquire Producer A_tail i st = Some (t, s)"
    and st': "st' = (if h - t < capacity q then s\<lparr>ra_prod := P_Slot x h\<rparr> else s\<lparr>ra_spins := ra_spins s + 1\<rparr>)"
    using assms(2) by (auto simp: after_load_def split: producer_pc.splits option.splits)
  obtain v where s: "s = st\<lparr>views := (views st)(Producer := v)\<rparr>" and t: "t = of_nat i" "i \<le> length (ra_popped st)"
    and v: "v (Mo A_tail) = i" and si: "ra_inv q s"
    using load_acquired [OF inv l] by (auto simp: mo_value_def mo_last_def)
  have h: "h = of_nat ?p" using inv p by (simp add: ra_inv_def push_ok_def)
  have c: "ring_ok q" "length (buffer q) = length (cells st)" "?p < 2 ^ 64" "length (ra_popped st) \<le> ?p"
    using inv by (simp_all add: ra_inv_def cells_ok_def)
  have u: "unat h = ?p" "unat t = i" using c t h unat_of_nat_u64 [of ?p] unat_of_nat_u64 [of i] by simp_all
  have "unat (h - t) = ?p - i" using u c t(2) by (simp add: unat_u64_sub word_le_nat_alt)
  then have "h - t < capacity q \<longleftrightarrow> ?p < i + length (cells st)"
    using ring_size [OF c(1)] c(2,4) t(2) by (auto simp: word_less_nat_alt)
  then show ?thesis
    using si p h v unfolding st'
    by (auto intro!: ra_inv_prod ra_inv_spins simp: s written_def push_ok_def)
qed

lemma ra_pop_head:
  assumes inv: "ra_inv q st" and "ra_step q (R_pop_head i) st = Stepped st'"
  shows "ra_inv q st'"
proof -
  let ?c = "length (ra_popped st)"
  obtain t h s where c: "ra_cons st = K_Loop t" and l: "load_acquire Consumer A_head i st = Some (h, s)"
    and st': "st' = s\<lparr>ra_cons := (if t < h then K_Data t else K_Empty t)\<rparr>"
    using assms(2) by (auto simp: after_load_def split: popper_pc.splits option.splits)
  obtain v where s: "s = st\<lparr>views := (views st)(Consumer := v)\<rparr>" and h: "h = of_nat i" "i \<le> length (ra_pushed st)"
    and v: "v (Mo A_head) = i" and si: "ra_inv q s"
    using load_acquired [OF inv l] by (auto simp: mo_value_def)
  have t: "t = of_nat ?c" using inv c by (simp add: ra_inv_def pop_ok_def)
  have "length (ra_pushed st) < 2 ^ 64" "?c \<le> length (ra_pushed st)"
    using inv by (simp_all add: ra_inv_def cells_ok_def)
  then have "t < h \<longleftrightarrow> ?c < i"
    using t h unat_of_nat_u64 [of ?c] unat_of_nat_u64 [of i] by (simp add: word_less_nat_alt)
  then show ?thesis
    using si c t v unfolding st' by (intro ra_inv_cons) (auto simp: s read_upto_def pop_ok_def)
qed

lemma ra_pop_done:
  assumes inv: "ra_inv q st" and "ra_step q (R_pop_done i) st = Stepped st'"
  shows "ra_inv q st'"
proof -
  obtain t d s where c: "ra_cons st = K_Empty t" and l: "load_acquire Consumer A_done i st = Some (d, s)"
    and st': "st' = s\<lparr>ra_cons := (if d \<noteq> 0 then K_Recheck t else K_Loop t)\<rparr>"
    using assms(2) by (auto simp: after_load_def split: popper_pc.splits option.splits)
  obtain v where s: "s = st\<lparr>views := (views st)(Consumer := v)\<rparr>" and d: "d = of_bool (i \<noteq> 0)" "i \<le> length (shut_after st)"
    and v: "msg_view (hist st A_done ! i) (Mo A_head) \<le> v (Mo A_head)" and si: "ra_inv q s"
    using load_acquired [OF inv l] by (auto simp: mo_value_def)
  have t: "t = of_nat (length (ra_popped st))" using inv c by (simp add: ra_inv_def pop_ok_def)
  have "\<exists>ys \<in> set (shut_after st). length ys \<le> v (Mo A_head)" if "i \<noteq> 0"
  proof -
    obtain j where j: "i = Suc j" "j < length (shut_after st)" using \<open>i \<noteq> 0\<close> d(2) by (cases i) auto
    then have "shut_after st ! j = take (msg_view (hist st A_done ! i) (Mo A_head)) (ra_pushed st)"
      using inv by (simp add: ra_inv_def shut_ok_def)
    then have "length (shut_after st ! j) \<le> v (Mo A_head)" using v by simp
    then show ?thesis using j(2) nth_mem by blast
  qed
  then show ?thesis
    using si c t d unfolding st' by (intro ra_inv_cons) (auto simp: s read_upto_def pop_ok_def)
qed

lemma shut_prefix: "ra_inv q st \<Longrightarrow> ys \<in> set (shut_after st) \<Longrightarrow> prefix ys (ra_pushed st)"
  by (auto simp: ra_inv_def shut_ok_def in_set_conv_nth take_is_prefix)

lemma ra_pop_recheck:
  assumes inv: "ra_inv q st" and "ra_step q (R_pop_recheck i) st = Stepped st'"
  shows "ra_inv q st'"
proof -
  let ?c = "length (ra_popped st)"
  obtain t h s where c: "ra_cons st = K_Recheck t" and l: "load_acquire Consumer A_head i st = Some (h, s)"
    and st': "st' = s\<lparr>ra_cons := (if t < h then K_Data t else K_False)\<rparr>"
    using assms(2) by (auto simp: after_load_def split: popper_pc.splits option.splits)
  obtain v where s: "s = st\<lparr>views := (views st)(Consumer := v)\<rparr>" and h: "h = of_nat i" "i \<le> length (ra_pushed st)"
    and v: "v (Mo A_head) = i" "views st Consumer (Mo A_head) \<le> i" and si: "ra_inv q s"
    using load_acquired [OF inv l] by (auto simp: mo_value_def)
  obtain ys where t: "t = of_nat ?c" and ys: "ys \<in> set (shut_after st)" "length ys \<le> views st Consumer (Mo A_head)"
    using inv c by (auto simp: ra_inv_def pop_ok_def)
  have "length (ra_pushed st) < 2 ^ 64" "?c \<le> length (ra_pushed st)" "prefix (ra_popped st) (ra_pushed st)"
    using inv by (simp_all add: ra_inv_def cells_ok_def)
  then have "t < h \<longleftrightarrow> ?c < i" and "i \<le> ?c \<Longrightarrow> prefix ys (ra_popped st)"
    using t h unat_of_nat_u64 [of ?c] unat_of_nat_u64 [of i] shut_prefix [OF inv ys(1)] ys(2) v(2)
    by (auto simp: word_less_nat_alt intro: prefix_length_prefix)
  then show ?thesis
    using si c t v ys(1) unfolding st' by (intro ra_inv_cons) (auto simp: s read_upto_def pop_ok_def)
qed

lemma ra_sync:
  assumes "ra_inv q st" and "ra_step q R_sync st = Stepped st'"
  shows "ra_inv q st'"
proof -
  have "st' = st\<lparr>views := (views st)(Other := view_join (views st Other) (views st Producer))\<rparr>"
    using assms(2) by (simp split: if_splits)
  moreover have "view_ok st (views st t)" for t using assms(1) by (simp add: ra_inv_def views_ok_def)
  ultimately show ?thesis
    using ra_inv_views [OF assms(1) view_ok_join, of "views st Other" "views st Producer" Other]
    by (simp add: view_join_def)
qed

text \<open>The two accesses to a slot: ordered after what they conflict with.\<close>

lemma slot_cells: "ra_inv q st \<Longrightarrow> n < 2 ^ 64 \<Longrightarrow> slot q (of_nat n) = n mod length (cells st)"
  by (simp add: ra_inv_def cells_ok_def slot_mod unat_of_nat_u64)

lemma ra_push_write:
  assumes inv: "ra_inv q st" and p: "ra_prod st = P_Slot x h"
  shows "\<exists>st'. ra_step q R_push_write st = Stepped st' \<and> ra_inv q st'"
proof -
  let ?n = "length (cells st)" and ?p = "length (ra_pushed st)" and ?c = "length (ra_popped st)"
  let ?v = "views st Producer" and ?i = "length (ra_pushed st) mod length (cells st)"
  have c: "ring_ok q" "length (buffer q) = ?n" "?p < 2 ^ 64" "?c \<le> ?p" and vs: "views_ok st" and co: "counts_ok st"
    using inv by (simp_all add: ra_inv_def cells_ok_def)
  have h: "h = of_nat ?p" and room: "?p < ?v (Mo A_tail) + ?n" using inv p by (simp_all add: ra_inv_def push_ok_def Let_def)
  have i: "slot q h = ?i" using slot_cells [OF inv c(3)] h by simp
  have v: "view_ok st ?v" "?v (Wr s) = slot_writes st s" for s using vs by (simp_all add: views_ok_def)
  then have tl: "?v (Mo A_tail) \<le> ?c" unfolding view_ok_def by (metis mo_last_simps(2))
  have "?c \<le> read_upto st" "read_upto st \<le> ?p"
    using inv c(4) by (auto simp: ra_inv_def pop_ok_def read_upto_def Let_def split: popper_pc.splits)
  moreover have apart: "j mod ?n \<noteq> ?i" if "?v (Mo A_tail) \<le> j" "j < ?p" for j
    using that room by (intro mod_distinct) auto
  ultimately have "visits ?n ?i (?v (Mo A_tail)) = visits ?n ?i (read_upto st)"
    using tl by (intro visits_gap) auto
  moreover have "visits ?n ?i (?v (Mo A_tail)) \<le> ?v (Rd ?i)" "?v (Rd ?i) \<le> slot_reads st ?i"
    using v(1) by (simp_all add: view_ok_def)
  ultimately have rd: "?v (Rd ?i) = slot_reads st ?i" using co by (simp add: counts_ok_def)
  define st' where "st' = st\<lparr>cells := (cells st)[?i := x],
      slot_writes := (slot_writes st)(?i := Suc (slot_writes st ?i)),
      views := (views st)(Producer := ?v(Wr ?i := Suc (slot_writes st ?i))), ra_prod := P_Written x h\<rparr>"
  have step: "ra_step q R_push_write st = Stepped st'"
    using p rd v(2) by (simp add: slot_write_def i st'_def)
  have mo: "mo_last st' a = mo_last st a" for a by (cases a) (simp_all add: st'_def)
  have up: "view_ok st' w" if "view_ok st w" for w
    by (rule view_ok_mono [OF that]) (simp_all add: mo, simp_all add: st'_def)
  have "hist_ok st'" using inv up mo by (simp add: ra_inv_def hist_ok_def) (simp add: st'_def)
  moreover have "view_ok st' (?v(Wr ?i := Suc (slot_writes st ?i)))"
    using up [OF v(1)] v(2) unfolding view_ok_def by (auto simp: st'_def le_SucI)
  then have "views_ok st'" using vs up by (auto simp: views_ok_def st'_def)
  moreover have w: "written st' = Suc ?p" "written st = ?p" "read_upto st' = read_upto st"
    using p by (simp_all add: st'_def written_def read_upto_def split: popper_pc.split)
  then have "counts_ok st'" using co by (auto simp: counts_ok_def st'_def)
  moreover have "(cells st)[?i := x] ! (j mod ?n) = ra_pushed st ! j" if "?c \<le> j \<and> j < ?p" for j
    using that apart [of j] tl inv by (simp add: ra_inv_def cells_ok_def)
  then have "cells_ok q st'"
    using inv w room tl unfolding ra_inv_def cells_ok_def by (simp add: w) (simp add: st'_def)
  moreover have "?i < ?n" using ring_size [OF c(1)] c(2) by simp
  then have "push_ok st'" using h by (simp add: push_ok_def st'_def)
  moreover have "pop_ok st'" "shut_ok st'"
    using inv by (simp_all add: ra_inv_def pop_ok_def shut_ok_def st'_def Let_def split: popper_pc.splits)
  ultimately show ?thesis using step by (simp add: ra_inv_def)
qed

lemma ra_pop_read:
  assumes inv: "ra_inv q st" and k: "ra_cons st = K_Data t"
  shows "\<exists>st'. ra_step q R_pop_read st = Stepped st' \<and> ra_inv q st'"
proof -
  let ?n = "length (cells st)" and ?p = "length (ra_pushed st)" and ?c = "length (ra_popped st)"
  let ?v = "views st Consumer" and ?i = "length (ra_popped st) mod length (cells st)"
  have c: "?p < 2 ^ 64" "?c \<le> ?p" "written st \<le> ?c + ?n"
    and data: "\<And>i. ?c \<le> i \<and> i < ?p \<Longrightarrow> cells st ! (i mod ?n) = ra_pushed st ! i"
    and vs: "views_ok st" and co: "counts_ok st"
    using inv by (simp_all add: ra_inv_def cells_ok_def)
  have t: "t = of_nat ?c" and some: "?c < ?v (Mo A_head)" using inv k by (simp_all add: ra_inv_def pop_ok_def Let_def)
  have v: "view_ok st ?v" "?v (Rd s) = slot_reads st s" for s using vs by (simp_all add: views_ok_def)
  then have hd: "?v (Mo A_head) \<le> ?p" unfolding view_ok_def by (metis mo_last_simps(1))
  have i: "slot q t = ?i" using slot_cells [OF inv, of ?c] c t by simp
  have pw: "?p \<le> written st" by (simp add: written_def split: producer_pc.split)
  have "j mod ?n \<noteq> ?i" if "?v (Mo A_head) \<le> j" "j < written st" for j
    using that some c(3) mod_distinct [of ?c j ?n] by fastforce
  then have "visits ?n ?i (?v (Mo A_head)) = visits ?n ?i (written st)"
    using hd pw by (intro visits_gap) auto
  moreover have "visits ?n ?i (?v (Mo A_head)) \<le> ?v (Wr ?i)" "?v (Wr ?i) \<le> slot_writes st ?i"
    using v(1) by (simp_all add: view_ok_def)
  ultimately have wr: "?v (Wr ?i) = slot_writes st ?i" using co by (simp add: counts_ok_def)
  define st' where "st' = st\<lparr>slot_reads := (slot_reads st)(?i := Suc (slot_reads st ?i)),
      views := (views st)(Consumer := ?v(Rd ?i := Suc (slot_reads st ?i))), ra_cons := K_Read t (cells st ! ?i)\<rparr>"
  have step: "ra_step q R_pop_read st = Stepped st'"
    using k wr by (simp add: slot_read_def i st'_def)
  have mo: "mo_last st' a = mo_last st a" for a by (cases a) (simp_all add: st'_def)
  have up: "view_ok st' w" if "view_ok st w" for w
    by (rule view_ok_mono [OF that]) (simp_all add: mo, simp_all add: st'_def)
  have "hist_ok st'" using inv up mo by (simp add: ra_inv_def hist_ok_def) (simp add: st'_def)
  moreover have "view_ok st' (?v(Rd ?i := Suc (slot_reads st ?i)))"
    using up [OF v(1)] v(2) unfolding view_ok_def by (auto simp: st'_def le_SucI)
  then have "views_ok st'" using vs up by (auto simp: views_ok_def st'_def)
  moreover have w: "read_upto st' = Suc ?c" "read_upto st = ?c" "written st' = written st"
    using k by (simp_all add: st'_def written_def read_upto_def split: producer_pc.split)
  then have "counts_ok st'" using co by (auto simp: counts_ok_def st'_def)
  moreover have "cells_ok q st'" using inv unfolding ra_inv_def cells_ok_def by (simp add: w) (simp add: st'_def)
  moreover have "pop_ok st'" using t some hd data [of ?c] by (simp add: pop_ok_def st'_def)
  moreover have "push_ok st'" "shut_ok st'"
    using inv by (simp_all add: ra_inv_def push_ok_def shut_ok_def st'_def Let_def split: producer_pc.splits)
  ultimately show ?thesis using step by (simp add: ra_inv_def)
qed

text \<open>The release stores.\<close>

lemma hist_ok_store:
  assumes "hist_ok st" and "hist st' = (hist st)(a := hist st a @ [m])"
    and last: "\<And>b. mo_last st' b = mo_last st b + (if b = a then 1 else 0)"
    and m: "msg_value m = mo_value a (Suc (mo_last st a))" "msg_view m (Mo a) = Suc (mo_last st a)"
      "view_ok st' (msg_view m)"
    and up: "\<And>v. view_ok st v \<Longrightarrow> view_ok st' v"
  shows "hist_ok st'"
  unfolding hist_ok_def
proof (intro allI conjI impI)
  fix b i
  have len: "length (hist st b) = Suc (mo_last st b)" for b using assms(1) by (simp add: hist_ok_def)
  show "length (hist st' b) = Suc (mo_last st' b)" using len assms(2) last by simp
  assume i: "i \<le> mo_last st' b"
  have "hist st' b ! i = (if b = a \<and> i = Suc (mo_last st a) then m else hist st b ! i)"
    using i len last assms(2) by (auto simp: nth_append)
  moreover have "i \<le> mo_last st b" if "\<not> (b = a \<and> i = Suc (mo_last st a))" using i last that by (auto split: if_splits)
  ultimately show "msg_value (hist st' b ! i) = mo_value b i" "msg_view (hist st' b ! i) (Mo b) = i"
    "view_ok st' (msg_view (hist st' b ! i))"
    using assms(1) m up by (auto simp: hist_ok_def)
qed

lemma view_ok_store:
  assumes "hist_ok st" and "view_ok st (views st t)"
    and "length (cells st') = length (cells st)" and "slot_writes st' = slot_writes st" "slot_reads st' = slot_reads st"
    and last: "\<And>b. mo_last st' b = mo_last st b + (if b = a then 1 else 0)"
    and own: "a = A_head \<Longrightarrow> \<forall>s. visits (length (cells st)) s (Suc (length (ra_pushed st))) \<le> views st t (Wr s)"
      "a = A_tail \<Longrightarrow> \<forall>s. visits (length (cells st)) s (Suc (length (ra_popped st))) \<le> views st t (Rd s)"
  shows "view_ok st' ((views st t)(Mo a := length (hist st a)))" and "view_ok st v \<Longrightarrow> view_ok st' v"
proof -
  have up: "view_ok st' v" if "view_ok st v" for v by (rule view_ok_mono [OF that]) (simp_all add: assms)
  then show "view_ok st v \<Longrightarrow> view_ok st' v" by blast
  have "length (hist st a) = Suc (mo_last st a)" using assms(1) by (simp add: hist_ok_def)
  then show "view_ok st' ((views st t)(Mo a := length (hist st a)))"
    using assms(2) own last by (cases a) (auto simp: view_ok_def assms(3,4,5))
qed

lemma ra_push_publish:
  assumes inv: "ra_inv q st" and step: "ra_step q R_push_publish st = Stepped st'" and lim: "length (ra_pushed st') < 2 ^ 64"
  shows "ra_inv q st'"
proof -
  let ?p = "length (ra_pushed st)" and ?n = "length (cells st)"
  obtain x h where p: "ra_prod st = P_Written x h" using step by (auto split: producer_pc.splits)
  have i: "hist_ok st" "views_ok st" "counts_ok st" "cells_ok q st" "pop_ok st" "shut_ok st"
    and h: "h = of_nat ?p" "cells st ! (?p mod ?n) = x"
    using inv p by (simp_all add: ra_inv_def push_ok_def Let_def)
  let ?v = "(views st Producer)(Mo A_head := length (hist st A_head))"
  have st': "st' = st\<lparr>hist := (hist st)(A_head := hist st A_head @ [\<lparr>msg_value = h + 1, msg_view = ?v\<rparr>]),
      views := (views st)(Producer := ?v), ra_prod := P_Idle, ra_pushed := ra_pushed st @ [x]\<rparr>"
    using step p by (simp add: store_release_def Let_def)
  have last: "mo_last st' b = mo_last st b + (if b = A_head then 1 else 0)" for b by (cases b) (simp_all add: st')
  have len: "length (hist st A_head) = Suc ?p" using i(1) by (simp add: hist_ok_def)
  have w: "written st = Suc ?p" "written st' = Suc ?p" "read_upto st' = read_upto st"
    using p by (simp_all add: st' written_def read_upto_def split: popper_pc.split)
  have own: "\<forall>s. visits ?n s (Suc ?p) \<le> views st Producer (Wr s)"
    using i(2,3) w by (simp add: views_ok_def counts_ok_def)
  have "view_ok st (views st Producer)" using i(2) by (simp add: views_ok_def)
  from view_ok_store [OF i(1) this, of st' A_head, OF _ _ _ last] own
  have vo: "view_ok st' ?v" and up: "\<And>v. view_ok st v \<Longrightarrow> view_ok st' v" by (simp_all add: st')
  have "hist_ok st'"
    by (rule hist_ok_store [OF i(1) _ last _ _ _ up, of "\<lparr>msg_value = h + 1, msg_view = ?v\<rparr>"])
      (use vo h len in \<open>simp_all add: st' mo_value_def\<close>)
  moreover have "views_ok st'" using i(2) up vo len by (auto simp: views_ok_def st')
  moreover have "counts_ok st'" using i(3) by (simp add: counts_ok_def w) (simp add: st')
  moreover have "cells_ok q st'"
    using i(4) lim h(2) unfolding cells_ok_def w by (auto simp: st' nth_append less_Suc_eq)
  moreover have "push_ok st'" by (simp add: push_ok_def st')
  moreover have "pop_ok st'" using i(5) by (auto simp: pop_ok_def st' Let_def nth_append split: popper_pc.splits)
  moreover have "msg_view (hist st A_done ! Suc j) (Mo A_head) \<le> ?p" if "j < length (shut_after st)" for j
  proof -
    have "Suc j \<le> mo_last st A_done" using that by simp
    then have "view_ok st (msg_view (hist st A_done ! Suc j))" using i(1) unfolding hist_ok_def by blast
    then show ?thesis unfolding view_ok_def by (metis mo_last_simps(1))
  qed
  then have "shut_ok st'" using i(6) by (simp add: shut_ok_def st')
  ultimately show ?thesis by (simp add: ra_inv_def)
qed

lemma ra_pop_release:
  assumes inv: "ra_inv q st" and step: "ra_step q R_pop_release st = Stepped st'"
  shows "ra_inv q st'"
proof -
  let ?p = "length (ra_pushed st)" and ?c = "length (ra_popped st)" and ?n = "length (cells st)"
  obtain t x where k: "ra_cons st = K_Read t x" using step by (auto split: popper_pc.splits)
  have i: "hist_ok st" "views_ok st" "counts_ok st" "cells_ok q st" "push_ok st" "shut_ok st"
    and t: "t = of_nat ?c" "?c < ?p" "x = ra_pushed st ! ?c"
    using inv k by (simp_all add: ra_inv_def pop_ok_def Let_def)
  let ?v = "(views st Consumer)(Mo A_tail := length (hist st A_tail))"
  have st': "st' = st\<lparr>hist := (hist st)(A_tail := hist st A_tail @ [\<lparr>msg_value = t + 1, msg_view = ?v\<rparr>]),
      views := (views st)(Consumer := ?v), ra_cons := K_Idle, ra_popped := ra_popped st @ [x]\<rparr>"
    using step k by (simp add: store_release_def Let_def)
  have last: "mo_last st' b = mo_last st b + (if b = A_tail then 1 else 0)" for b by (cases b) (simp_all add: st')
  have len: "length (hist st A_tail) = Suc ?c" using i(1) by (simp add: hist_ok_def)
  have w: "read_upto st = Suc ?c" "read_upto st' = Suc ?c" "written st' = written st"
    using k by (simp_all add: st' written_def read_upto_def split: producer_pc.split)
  have own: "\<forall>s. visits ?n s (Suc ?c) \<le> views st Consumer (Rd s)"
    using i(2,3) w by (simp add: views_ok_def counts_ok_def)
  have "view_ok st (views st Consumer)" using i(2) by (simp add: views_ok_def)
  from view_ok_store [OF i(1) this, of st' A_tail, OF _ _ _ last] own
  have vo: "view_ok st' ?v" and up: "\<And>v. view_ok st v \<Longrightarrow> view_ok st' v" by (simp_all add: st')
  have "hist_ok st'"
    by (rule hist_ok_store [OF i(1) _ last _ _ _ up, of "\<lparr>msg_value = t + 1, msg_view = ?v\<rparr>"])
      (use vo t len in \<open>simp_all add: st' mo_value_def\<close>)
  moreover have "views_ok st'" using i(2) up vo len by (auto simp: views_ok_def st')
  moreover have "counts_ok st'" using i(3) by (simp add: counts_ok_def w) (simp add: st')
  moreover have "prefix (ra_popped st @ [x]) (ra_pushed st)"
    using i(4) t by (auto simp: cells_ok_def prefix_def nth_append neq_Nil_conv)
  then have "cells_ok q st'" using i(4) t(2) unfolding cells_ok_def w by (auto simp: st')
  moreover have "push_ok st'" using i(5) by (auto simp: push_ok_def st' Let_def split: producer_pc.splits)
  moreover have "pop_ok st'" "shut_ok st'" using i(6) by (simp_all add: pop_ok_def shut_ok_def st')
  ultimately show ?thesis by (simp add: ra_inv_def)
qed

lemma ra_shutdown:
  assumes inv: "ra_inv q st" and step: "ra_step q (R_shutdown t) st = Stepped st'"
  shows "ra_inv q st'"
proof -
  let ?v = "(views st t)(Mo A_done := length (hist st A_done))"
  let ?ys = "take (views st t (Mo A_head)) (ra_pushed st)"
  have i: "hist_ok st" "views_ok st" "counts_ok st" "cells_ok q st" "push_ok st" "pop_ok st" "shut_ok st"
    using inv by (simp_all add: ra_inv_def)
  have st': "st' = st\<lparr>hist := (hist st)(A_done := hist st A_done @ [\<lparr>msg_value = 1, msg_view = ?v\<rparr>]),
      views := (views st)(t := ?v), shut_after := shut_after st @ [?ys]\<rparr>"
    using step by (simp add: store_release_def Let_def split: if_splits)
  have last: "mo_last st' b = mo_last st b + (if b = A_done then 1 else 0)" for b by (cases b) (simp_all add: st')
  have len: "length (hist st A_done) = Suc (length (shut_after st))" using i(1) by (simp add: hist_ok_def)
  have w: "written st' = written st" "read_upto st' = read_upto st"
    by (simp_all add: st' written_def read_upto_def split: producer_pc.split popper_pc.split)
  have "view_ok st (views st t)" using i(2) by (simp add: views_ok_def)
  from view_ok_store [OF i(1) this, of st' A_done, OF _ _ _ last]
  have vo: "view_ok st' ?v" and up: "\<And>v. view_ok st v \<Longrightarrow> view_ok st' v" by (simp_all add: st')
  have "hist_ok st'"
    by (rule hist_ok_store [OF i(1) _ last _ _ _ up, of "\<lparr>msg_value = 1, msg_view = ?v\<rparr>"])
      (use vo len in \<open>simp_all add: st' mo_value_def\<close>)
  moreover have "views_ok st'" using i(2) up vo by (auto simp: views_ok_def st')
  moreover have "counts_ok st'" using i(3) by (simp add: counts_ok_def w) (simp add: st')
  moreover have "cells_ok q st'" using i(4) unfolding cells_ok_def w by (simp add: st')
  moreover have "push_ok st'" using i(5) by (auto simp: push_ok_def st' Let_def split: producer_pc.splits)
  moreover have "pop_ok st'" using i(6) by (auto simp: pop_ok_def st' Let_def split: popper_pc.splits)
  moreover have "shut_ok st'" using i(7) len by (auto simp: shut_ok_def st' nth_append less_Suc_eq)
  ultimately show ?thesis by (simp add: ra_inv_def)
qed

section \<open>What holds in every execution\<close>

lemma after_load_cases:
  "after_load r f \<noteq> Data_race" "after_load r f = Stepped st' \<Longrightarrow> \<exists>x s. r = Some (x, s) \<and> st' = f x s"
  by (auto simp: after_load_def split: option.splits)

lemma pushed_memory:
  "load_relaxed t a i st = Some (x, s) \<Longrightarrow> ra_pushed s = ra_pushed st"
  "load_acquire t a i st = Some (x, s) \<Longrightarrow> ra_pushed s = ra_pushed st"
  "slot_write t j y st = Some s \<Longrightarrow> ra_pushed s = ra_pushed st"
  "slot_read t j st = Some (y, s) \<Longrightarrow> ra_pushed s = ra_pushed st"
  "ra_pushed (store_release t a w st) = ra_pushed st"
  by (auto simp: load_relaxed_def load_acquire_def slot_write_def slot_read_def store_release_def Let_def
      split: if_splits)

lemma ra_step_pushed: "ra_step q ev st = Stepped st' \<Longrightarrow> length (ra_pushed st') \<le> length (ra_pushed st) + 1"
  by (cases ev)
    (auto simp: pushed_memory dest!: after_load_cases(2) dest: pushed_memory(1-4)
      split: producer_pc.splits popper_pc.splits option.splits if_splits)

lemma ra_step_race:
  assumes "ra_inv q st"
  shows "ra_step q ev st \<noteq> Data_race"
proof (cases ev)
  case R_push_write
  then show ?thesis using ra_push_write [OF assms] by (cases "ra_prod st") fastforce+
next
  case R_pop_read
  then show ?thesis using ra_pop_read [OF assms] by (cases "ra_cons st") fastforce+
qed (simp_all add: after_load_cases split: producer_pc.split popper_pc.split)

lemma ra_step_inv:
  assumes inv: "ra_inv q st" and s: "ra_step q ev st = Stepped st'" and "length (ra_pushed st) + 1 < 2 ^ 64"
  shows "ra_inv q st'"
proof (cases ev)
  case R_push_write
  then obtain x h where "ra_prod st = P_Slot x h" using s by (auto split: producer_pc.splits)
  from ra_push_write [OF inv this] show ?thesis using s unfolding R_push_write by fastforce
next
  case R_pop_read
  then obtain t where "ra_cons st = K_Data t" using s by (auto split: popper_pc.splits)
  from ra_pop_read [OF inv this] show ?thesis using s unfolding R_pop_read by fastforce
next
  case R_push_publish
  have "length (ra_pushed st') < 2 ^ 64" using ra_step_pushed [OF s] assms(3) by linarith
  then show ?thesis using ra_push_publish [OF inv] s unfolding R_push_publish by blast
qed (use s inv in \<open>blast intro: ra_push_head ra_push_tail ra_pop_tail ra_pop_head ra_pop_release ra_pop_done
       ra_pop_recheck ra_shutdown ra_sync\<close>)+

lemma ra_run_inv:
  "ra_inv q st \<Longrightarrow> length (ra_pushed st) + length evs < 2 ^ 64 \<Longrightarrow>
     (case ra_run q evs st of Disabled \<Rightarrow> True | Data_race \<Rightarrow> False | Stepped st' \<Rightarrow> ra_inv q st')"
proof (induction evs arbitrary: st)
  case Nil
  then show ?case by simp
next
  case (Cons ev evs)
  show ?case
  proof (cases "ra_step q ev st")
    case (Stepped st')
    then have "ra_inv q st'" "length (ra_pushed st') + length evs < 2 ^ 64"
      using ra_step_inv [OF Cons.prems(1) Stepped] ra_step_pushed [OF Stepped] Cons.prems(2) by simp_all
    then show ?thesis using Cons.IH Stepped by simp
  qed (use ra_step_race [OF Cons.prems(1)] in simp_all)
qed

lemma ra_init_inv:
  assumes "make_lockfree m = Some q"
  shows "ra_inv q (ra_init q)"
proof -
  have "ring_ok q" using make_lockfree_inv [OF assms] by (simp add: lf_inv_def)
  moreover have "mo_last (ra_init q) a = 0" for a by (cases a) (simp_all add: ra_init_def)
  moreover have "mo_value a 0 = 0" for a by (cases a) (simp_all add: mo_value_def)
  ultimately show ?thesis
    by (simp add: ra_inv_def hist_ok_def views_ok_def counts_ok_def cells_ok_def push_ok_def pop_ok_def shut_ok_def
        view_ok_def) (simp add: ra_init_def written_def read_upto_def)
qed

text \<open>
  C5: The queue is correct with the memory orders it names.  In every execution of the
  release/acquire memory, with loads that may return old values: no access to a slot is a data
  race; the consumer gets the orders in the order in which they were pushed, none lost, none
  twice and none half written; the ring never holds more than its capacity; and \<open>pop\<close> returns
  false only after a call of \<open>shutdown\<close> such that every order whose \<open>push\<close> happens before that call
  has been consumed.
\<close>

theorem lockfree_release_acquire:
  assumes "make_lockfree m = Some q" and "length evs < 2 ^ 64"
  shows "case ra_run q evs (ra_init q) of
           Disabled \<Rightarrow> True
         | Data_race \<Rightarrow> False
         | Stepped st \<Rightarrow>
             prefix (ra_popped st) (ra_pushed st) \<and>
             length (ra_pushed st) - length (ra_popped st) \<le> unat (capacity q) \<and>
             (ra_cons st = K_False \<longrightarrow> (\<exists>ys \<in> set (shut_after st). prefix ys (ra_popped st)))"
proof (cases "ra_run q evs (ra_init q)")
  case (Stepped st)
  have inv: "ra_inv q st"
    using ra_run_inv [OF ra_init_inv [OF assms(1)], of evs] assms(2) Stepped by (simp add: ra_init_def)
  have "length (ra_pushed st) \<le> written st" by (simp add: written_def split: producer_pc.split)
  then have "prefix (ra_popped st) (ra_pushed st)"
    "length (ra_pushed st) - length (ra_popped st) \<le> unat (capacity q)"
    using inv ring_size [of q] by (auto simp: ra_inv_def cells_ok_def)
  moreover have "\<exists>ys \<in> set (shut_after st). prefix ys (ra_popped st)" if "ra_cons st = K_False"
    using inv that by (simp add: ra_inv_def pop_ok_def Let_def)
  ultimately show ?thesis using Stepped by simp
qed (use ra_run_inv [OF ra_init_inv [OF assms(1)], of evs] assms(2) in \<open>simp_all add: ra_init_def\<close>)

section \<open>The threaded runner\<close>

fun push_events :: "ra_event list \<Rightarrow> Order list" where
  "push_events [] = []"
| "push_events (R_push_head x i # evs) = x # push_events evs"
| "push_events (_ # evs) = push_events evs"

definition pending :: "ra_state \<Rightarrow> Order list" where
  "pending st = (case ra_prod st of P_Idle \<Rightarrow> [] | P_Loop x h \<Rightarrow> [x] | P_Slot x h \<Rightarrow> [x] | P_Written x h \<Rightarrow> [x])"

definition is_shutdown :: "ra_event \<Rightarrow> bool" where
  "is_shutdown ev = (case ev of R_shutdown t \<Rightarrow> True | _ \<Rightarrow> False)"

lemma memory_frame:
  "load_relaxed t a i st = Some (x, s) \<Longrightarrow> shut_after s = shut_after st \<and> ra_prod s = ra_prod st"
  "load_acquire t a i st = Some (x, s) \<Longrightarrow> shut_after s = shut_after st \<and> ra_prod s = ra_prod st"
  "slot_write t j y st = Some s \<Longrightarrow> shut_after s = shut_after st \<and> ra_prod s = ra_prod st"
  "slot_read t j st = Some (y, s) \<Longrightarrow> shut_after s = shut_after st \<and> ra_prod s = ra_prod st"
  "shut_after (store_release t a w st) = shut_after st \<and> ra_prod (store_release t a w st) = ra_prod st"
  by (auto simp: load_relaxed_def load_acquire_def slot_write_def slot_read_def store_release_def Let_def
      split: if_splits)

lemma ra_step_shut:
  "ra_step q ev st = Stepped st' \<Longrightarrow> \<not> is_shutdown ev \<Longrightarrow> shut_after st' = shut_after st"
  by (cases ev)
    (auto simp: memory_frame is_shutdown_def dest!: after_load_cases(2) dest: memory_frame(1-4)
      split: producer_pc.splits popper_pc.splits option.splits if_splits)

lemma ra_step_pending:
  "ra_step q ev st = Stepped st' \<Longrightarrow> ra_pushed st' @ pending st' = ra_pushed st @ pending st @ push_events [ev]"
  by (cases ev)
    (auto simp: pending_def memory_frame pushed_memory dest!: after_load_cases(2)
      dest: memory_frame(1-4) pushed_memory(1-4)
      split: producer_pc.splits popper_pc.splits option.splits if_splits)

lemma push_events_Cons: "push_events (ev # evs) = push_events [ev] @ push_events evs"
  by (cases ev) simp_all

lemma ra_run_pending:
  "ra_run q evs st = Stepped st' \<Longrightarrow> ra_pushed st' @ pending st' = ra_pushed st @ pending st @ push_events evs"
proof (induction evs arbitrary: st)
  case (Cons ev evs)
  then obtain st1 where "ra_step q ev st = Stepped st1" "ra_run q evs st1 = Stepped st'"
    by (auto split: ra_outcome.splits)
  from Cons.IH [OF this(2)] ra_step_pending [OF this(1)] show ?case by (simp add: push_events_Cons [of ev evs])
qed simp

lemma ra_run_shut:
  "ra_run q evs st = Stepped st' \<Longrightarrow> list_all (\<lambda>ev. \<not> is_shutdown ev) evs \<Longrightarrow> shut_after st' = shut_after st"
proof (induction evs arbitrary: st)
  case (Cons ev evs)
  then obtain st1 where "ra_step q ev st = Stepped st1" "ra_run q evs st1 = Stepped st'"
    by (auto split: ra_outcome.splits)
  then show ?case using Cons ra_step_shut by fastforce
qed simp

lemma ra_run_append:
  "ra_run q (evs @ evs') st = (case ra_run q evs st of Stepped st' \<Rightarrow> ra_run q evs' st' | r \<Rightarrow> r)"
  by (induction evs arbitrary: st) (auto split: ra_outcome.split)

text \<open>
  C13: The threaded runner is deterministic.  The producer pushes its orders and then calls
  \<open>shutdown\<close>, the consumer handles what it pops until \<open>pop\<close> returns false, as in the threaded tests
  and the benchmark: in every execution of the release/acquire memory in which it returns, the
  orders popped are exactly those pushed, and whatever a handler makes of them is what it makes
  of them in a single thread.
\<close>

theorem threaded_run_identical:
  fixes handle :: "Order \<Rightarrow> 's \<Rightarrow> 's option"
  assumes "make_lockfree m = Some q" and "length (evs @ evs') < 2 ^ 64 - 1"
    and "list_all (\<lambda>ev. \<not> is_shutdown ev) (evs @ evs')" and "push_events evs' = []"
    and "ra_run q (evs @ R_shutdown Producer # evs') (ra_init q) = Stepped st" and "ra_cons st = K_False"
  shows "ra_popped st = push_events evs \<and>
         run_orders handle (ra_popped st) s = run_orders handle (push_events evs) s"
proof -
  obtain st1 where st1: "ra_run q evs (ra_init q) = Stepped st1" and
    run: "ra_run q (R_shutdown Producer # evs') st1 = Stepped st"
    using assms(5) by (auto simp: ra_run_append simp del: ra_run.simps split: ra_outcome.splits)
  then obtain st2 where st2: "ra_step q (R_shutdown Producer) st1 = Stepped st2" and st3: "ra_run q evs' st2 = Stepped st"
    by (auto simp del: ra_step.simps split: ra_outcome.splits)
  have inv: "ra_inv q st1" "ra_inv q st"
    using ra_run_inv [OF ra_init_inv [OF assms(1)], of evs] st1 assms(2,5)
      ra_run_inv [OF ra_init_inv [OF assms(1)], of "evs @ R_shutdown Producer # evs'"]
    by (simp_all add: ra_init_def)
  have idle: "pending st1 = []" and shut: "shut_after st2 = shut_after st1 @ [take (views st1 Producer (Mo A_head)) (ra_pushed st1)]"
    and pushed: "ra_pushed st2 @ pending st2 = ra_pushed st1"
    using st2 by (auto simp: shutdown_thread_def pending_def store_release_def Let_def split: if_splits)
  have all: "ra_pushed st1 = push_events evs"
    using ra_run_pending [OF st1] idle by (simp add: ra_init_def pending_def)
  have "views st1 Producer (Mo A_head) = length (ra_pushed st1)" using inv(1) by (simp add: ra_inv_def views_ok_def)
  moreover have "shut_after st1 = []" using ra_run_shut [OF st1] assms(3) by (simp add: ra_init_def)
  ultimately have "shut_after st = [push_events evs]"
    using ra_run_shut [OF st3] assms(3) shut all by simp
  then have "prefix (push_events evs) (ra_popped st)" using inv(2) assms(6) by (simp add: ra_inv_def pop_ok_def Let_def)
  moreover have "prefix (ra_pushed st) (push_events evs)"
    using ra_run_pending [OF st3] assms(4) pushed all by (metis append_Nil2 prefixI)
  then have "prefix (ra_popped st) (push_events evs)"
    using inv(2) by (auto simp: ra_inv_def cells_ok_def intro: prefix_order.trans)
  ultimately have "ra_popped st = push_events evs" by (simp add: prefix_order.antisym)
  then show ?thesis by simp
qed

text \<open>
  A push whose store the consumer does not see at first, a shutdown by the producer, and two
  pops: the second load of \<open>head_\<close> finds the order.
\<close>

definition ra_pushes :: "ra_event list" where
  "ra_pushes = [R_push_head default_order 0, R_push_tail 0, R_push_write, R_pop_tail 0, R_push_publish, R_pop_head 0]"

definition ra_pops :: "ra_event list" where
  "ra_pops = [R_pop_done 1, R_pop_recheck 1, R_pop_read, R_pop_release,
     R_pop_tail 1, R_pop_head 1, R_pop_done 1, R_pop_recheck 1]"

lemmas ra_eval = after_load_def load_relaxed_def load_acquire_def slot_write_def slot_read_def store_release_def
  shutdown_thread_def view_join_def slot_def Let_def

lemma ra_sample_run:
  "\<exists>q st. make_lockfree 2 = Some q \<and> ra_run q (ra_pushes @ R_shutdown Producer # ra_pops) (ra_init q) = Stepped st \<and>
     ra_cons st = K_False \<and> ra_popped st = [default_order] \<and> shut_after st = [[default_order]]"
proof -
  obtain q where q: "make_lockfree 2 = Some q" "capacity q = 2" "mask_bits q = 1"
    "length (buffer q) = 2" "head q = 0" "tail q = 0" "\<not> lf_done q"
    using make_lockfree_2 by blast
  then show ?thesis
    by (intro exI [of _ q]) (simp add: ra_pushes_def ra_pops_def ra_init_def ra_eval)
qed

theorem threaded_run_identical_witness:
  "\<exists>q st. make_lockfree 2 = Some q \<and> length (ra_pushes @ ra_pops) < 2 ^ 64 - 1 \<and>
     list_all (\<lambda>ev. \<not> is_shutdown ev) (ra_pushes @ ra_pops) \<and> push_events ra_pops = [] \<and>
     ra_run q (ra_pushes @ R_shutdown Producer # ra_pops) (ra_init q) = Stepped st \<and> ra_cons st = K_False \<and>
     ra_popped st = [default_order] \<and>
     run_orders (\<lambda>x n. Some (Suc n)) (ra_popped st) (0 :: nat) = run_orders (\<lambda>x n. Some (Suc n)) [default_order] 0"
proof -
  obtain q st where r: "make_lockfree 2 = Some q" "ra_cons st = K_False"
    and run: "ra_run q (ra_pushes @ R_shutdown Producer # ra_pops) (ra_init q) = Stepped st"
    using ra_sample_run by blast
  have e: "length (ra_pushes @ ra_pops) < 2 ^ 64 - 1" "list_all (\<lambda>ev. \<not> is_shutdown ev) (ra_pushes @ ra_pops)"
    "push_events ra_pops = []" "push_events ra_pushes = [default_order]"
    by (simp_all add: ra_pushes_def ra_pops_def is_shutdown_def)
  from threaded_run_identical [OF r(1) e(1,2,3) run r(2), of "\<lambda>x n. Some (Suc n)" 0] r run e
  show ?thesis by (intro exI [of _ q] exI [of _ st]) simp
qed

theorem lockfree_release_acquire_witness:
  "\<exists>q st. make_lockfree 2 = Some q \<and> length (ra_pushes @ R_shutdown Producer # ra_pops) < 2 ^ 64 \<and>
     ra_run q (ra_pushes @ R_shutdown Producer # ra_pops) (ra_init q) = Stepped st \<and> ra_cons st = K_False \<and>
     shut_after st = [[default_order]] \<and> (\<exists>ys \<in> set (shut_after st). prefix ys (ra_popped st))"
proof -
  obtain q st where r: "make_lockfree 2 = Some q" "ra_cons st = K_False" "shut_after st = [[default_order]]"
    and run: "ra_run q (ra_pushes @ R_shutdown Producer # ra_pops) (ra_init q) = Stepped st"
    using ra_sample_run by blast
  have len: "length (ra_pushes @ R_shutdown Producer # ra_pops) < 2 ^ 64" by (simp add: ra_pushes_def ra_pops_def)
  from lockfree_release_acquire [OF r(1) len] r run len
  show ?thesis by (intro exI [of _ q] exI [of _ st]) simp
qed

text \<open>
  The hypothesis on the thread that calls \<open>shutdown\<close> is needed.  If another thread calls it
  without having synchronised with the producer, the consumer may see \<open>done_\<close> and still an old
  \<open>head_\<close>: \<open>pop\<close> returns false although the order was pushed before.  If that thread has
  synchronised with the producer, the old value can no longer be loaded.
\<close>

definition ra_push_1 :: "ra_event list" where
  "ra_push_1 = [R_push_head default_order 0, R_push_tail 0, R_push_write, R_push_publish]"

lemma unsynchronised_shutdown:
  assumes "make_lockfree 2 = Some q"
  shows "\<exists>st. ra_run q (ra_push_1 @ [R_shutdown Other, R_pop_tail 0, R_pop_head 0, R_pop_done 1, R_pop_recheck 0])
             (ra_init q) = Stepped st \<and> ra_cons st = K_False \<and> ra_pushed st = [default_order] \<and> ra_popped st = []"
    and "ra_run q (ra_push_1 @ [R_sync, R_shutdown Other, R_pop_tail 0, R_pop_head 0, R_pop_done 1, R_pop_recheck 0])
           (ra_init q) = Disabled"
proof -
  have q: "capacity q = 2" "mask_bits q = 1" "length (buffer q) = 2" "head q = 0" "tail q = 0" "\<not> lf_done q"
    using assms make_lockfree_2 by auto
  then show "\<exists>st. ra_run q (ra_push_1 @ [R_shutdown Other, R_pop_tail 0, R_pop_head 0, R_pop_done 1, R_pop_recheck 0])
             (ra_init q) = Stepped st \<and> ra_cons st = K_False \<and> ra_pushed st = [default_order] \<and> ra_popped st = []"
    by (simp add: ra_push_1_def ra_init_def ra_eval)
  show "ra_run q (ra_push_1 @ [R_sync, R_shutdown Other, R_pop_tail 0, R_pop_head 0, R_pop_done 1, R_pop_recheck 0])
           (ra_init q) = Disabled"
    using q by (simp add: ra_push_1_def ra_init_def ra_eval)
qed

end
