(* ===== verification/LockFreeProgress.thy ===== *)
theory LockFreeProgress
  imports LockFreeConcurrent
begin

text \<open>
  Progress of the threads of \<open>LockFreeOrderQueue\<close>.  The spinning loops of \<open>push\<close> and \<open>pop\<close> wait for the
  other thread only while the ring is full or empty: otherwise a call completes within a fixed
  number of its own steps, however the steps of the other thread are scheduled among them.
\<close>

definition push_step :: "lf_event \<Rightarrow> bool" where
  "push_step ev =
     (case ev of Push_load_head x \<Rightarrow> True | Push_load_tail \<Rightarrow> True | Push_write \<Rightarrow> True | Push_publish \<Rightarrow> True | _ \<Rightarrow> False)"

definition pop_step :: "lf_event \<Rightarrow> bool" where
  "pop_step ev = (\<not> push_step ev \<and> ev \<noteq> Shut_store)"

text \<open>How many steps of its own a call still needs if it does not have to wait.\<close>

definition push_left :: "lf_state \<Rightarrow> nat" where
  "push_left st = (case prod st of P_Idle \<Rightarrow> 4 | P_Loop x h \<Rightarrow> 3 | P_Slot x h \<Rightarrow> 2 | P_Written x h \<Rightarrow> 1)"

definition pop_left :: "lf_state \<Rightarrow> nat" where
  "pop_left st =
     (case cons st of K_Idle \<Rightarrow> 4 | K_Loop t \<Rightarrow> 3 | K_Data t \<Rightarrow> 2 | K_Read t x \<Rightarrow> 1 | K_Empty t \<Rightarrow> 4 | K_Recheck t \<Rightarrow> 3
      | K_False \<Rightarrow> 1)"

definition has_room :: "lf_state \<Rightarrow> bool" where
  "has_room st = (length (lf_pushed st) - length (lf_popped st) < length (buffer (ring st)))"

definition has_order :: "lf_state \<Rightarrow> bool" where
  "has_order st = (length (lf_popped st) < length (lf_pushed st))"

lemma lf_step_popped: "lf_step ev st = Some st' \<Longrightarrow> prefix (lf_popped st) (lf_popped st')"
  by (cases ev) (auto split: producer_pc.splits popper_pc.splits if_splits)

lemma lf_run_mono:
  assumes "\<And>ev s s'. lf_step ev s = Some s' \<Longrightarrow> prefix (f s) (f s')"
  shows "lf_run evs st = Some st' \<Longrightarrow> prefix (f st) (f st')"
  by (induction evs arbitrary: st)
    (auto simp del: lf_step.simps split: option.splits dest: assms intro: prefix_order.trans)

lemma lf_step_buffer: "lf_step ev st = Some st' \<Longrightarrow> length (buffer (ring st')) = length (buffer (ring st))"
  by (cases ev) (auto split: producer_pc.splits popper_pc.splits if_splits)

lemma room_seen:
  assumes "spsc_inv st" and "prod st = P_Loop x h" and "has_room st"
  shows "h - tail (ring st) < capacity (ring st)"
proof -
  have h: "h = head (ring st)" and r: "ring_inv st"
    using assms(1,2) by (simp_all add: spsc_inv_def producer_inv_def Let_def)
  then have "unat (h - tail (ring st)) = length (lf_pushed st) - length (lf_popped st)"
    by (simp add: ring_inv_def Let_def word_le_nat_alt unat_u64_sub)
  then show ?thesis
    using assms(3) r ring_size [of "ring st"] by (simp add: has_room_def ring_inv_def Let_def word_less_nat_alt)
qed

lemma push_progress:
  assumes inv: "spsc_inv st" and room: "has_room st" and step: "lf_step ev st = Some st'"
  shows "length (lf_pushed st) < length (lf_pushed st') \<or>
         has_room st' \<and> (if push_step ev then Suc (push_left st') = push_left st else push_left st' = push_left st)"
proof (cases "length (lf_pushed st) < length (lf_pushed st')")
  case False
  then have "lf_pushed st' = lf_pushed st"
    using lf_step_pushed [OF step] by (metis prefix_length_le le_neq_implies_less prefix_order.antisym
        prefix_length_prefix prefix_order.refl order_refl)
  then have "has_room st'"
    using room prefix_length_le [OF lf_step_popped [OF step]] lf_step_buffer [OF step] by (simp add: has_room_def)
  moreover have "if push_step ev then Suc (push_left st') = push_left st else push_left st' = push_left st"
    using step False room_seen [OF inv _ room]
    by (cases ev) (auto simp: push_step_def push_left_def split: producer_pc.splits popper_pc.splits if_splits)
  ultimately show ?thesis by blast
qed simp

lemma pop_progress:
  assumes inv: "spsc_inv st" and some: "has_order st" and step: "lf_step ev st = Some st'"
  shows "length (lf_popped st) < length (lf_popped st') \<or>
         has_order st' \<and> (if pop_step ev then Suc (pop_left st') = pop_left st else pop_left st' = pop_left st)"
proof (cases "length (lf_popped st) < length (lf_popped st')")
  case False
  then have "lf_popped st' = lf_popped st"
    using lf_step_popped [OF step] by (metis prefix_length_le le_neq_implies_less prefix_order.antisym
        prefix_length_prefix prefix_order.refl order_refl)
  then have "has_order st'" using some prefix_length_le [OF lf_step_pushed [OF step]] by (simp add: has_order_def)
  moreover have seen: "tail (ring st) < head (ring st)"
    using inv some ring_inv_less by (simp add: spsc_inv_def has_order_def)
  have "t = tail (ring st)" if "cons st = K_Loop t \<or> cons st = K_Recheck t" for t
    using inv that by (auto simp: spsc_inv_def consumer_inv_def Let_def)
  then have "if pop_step ev then Suc (pop_left st') = pop_left st else pop_left st' = pop_left st"
    using step False seen
    by (cases ev) (auto simp: push_step_def pop_step_def pop_left_def split: producer_pc.splits popper_pc.splits if_splits)
  ultimately show ?thesis by blast
qed simp

text \<open>The common part: what decreases with the steps of one thread, unless the thread has completed a call.\<close>

lemma own_steps_suffice:
  assumes "spsc_inv st" and "lf_run evs st = Some st'" and "length (lf_pushed st') < 2 ^ 64" and "R st"
    and "left st \<le> length (filter own evs)" and "\<And>s. 0 < left s"
    and mono: "\<And>ev s s'. lf_step ev s = Some s' \<Longrightarrow> prefix (done_list s) (done_list s')"
    and progress: "\<And>ev s s'. spsc_inv s \<Longrightarrow> R s \<Longrightarrow> lf_step ev s = Some s' \<Longrightarrow>
       length (done_list s) < length (done_list s') \<or>
       R s' \<and> (if own ev then Suc (left s') = left s else left s' = (left s :: nat))"
  shows "length (done_list st) < length (done_list st' :: Order list)"
  using assms(1,2,4,5)
proof (induction evs arbitrary: st)
  case Nil
  then show ?case using assms(6) [of st] by simp
next
  case (Cons ev evs)
  then obtain st1 where s: "lf_step ev st = Some st1" and r: "lf_run evs st1 = Some st'" by (auto split: option.splits)
  have "length (lf_pushed st1) < 2 ^ 64"
    using prefix_length_le [OF lf_run_pushed [OF r]] assms(3) by simp
  then have inv: "spsc_inv st1" using spsc_step [OF Cons.prems(1) s] by simp
  have run: "prefix (done_list st1) (done_list st')"
    using lf_run_mono [of done_list, OF mono r] .
  show ?case
  proof (cases "length (done_list st) < length (done_list st1)")
    case True
    then show ?thesis using prefix_length_le [OF run] by simp
  next
    case False
    then have "R st1" "left st1 \<le> length (filter own evs)"
      using progress [OF Cons.prems(1,3) s] Cons.prems(4) by (auto split: if_splits)
    then have "length (done_list st1) < length (done_list st')" using Cons.IH [OF inv r] by blast
    then show ?thesis using prefix_length_le [OF mono [OF s]] by simp
  qed
qed

text \<open>
  C27: The ring is wait-free unless it is full or empty, and it is never both.  From every
  reachable state and in every schedule: if there is room, then within four steps of the
  producer an order is published, and if there is an order, then within four steps of the
  consumer one is taken, whatever the other thread does meanwhile.
\<close>

theorem lockfree_wait_free:
  assumes "make_lockfree m = Some q" and "lf_run evs (lf_init q) = Some st" and "lf_run evs' st = Some st'"
    and "length (lf_pushed st') < 2 ^ 64"
  shows "(has_room st \<or> has_order st) \<and>
    (has_room st \<and> 4 \<le> length (filter push_step evs') \<longrightarrow> length (lf_pushed st) < length (lf_pushed st')) \<and>
    (has_order st \<and> 4 \<le> length (filter pop_step evs') \<longrightarrow> length (lf_popped st) < length (lf_popped st'))"
proof -
  have "length (lf_pushed st) < 2 ^ 64" using prefix_length_le [OF lf_run_pushed [OF assms(3)]] assms(4) by simp
  then have inv: "spsc_inv st" using spsc_run [OF spsc_init [OF assms(1)] assms(2)] by simp
  then have "0 < length (buffer (ring st))" using ring_size [of "ring st"] by (simp add: spsc_inv_def ring_inv_def Let_def)
  then have "has_room st \<or> has_order st" by (auto simp: has_room_def has_order_def)
  moreover have "length (lf_pushed st) < length (lf_pushed st')"
    if "has_room st" "4 \<le> length (filter push_step evs')"
  proof (rule own_steps_suffice [where R = has_room and left = push_left and own = push_step, OF inv assms(3,4) that(1)])
    have "push_left st \<le> 4" by (simp add: push_left_def split: producer_pc.split)
    then show "push_left st \<le> length (filter push_step evs')" using that(2) by simp
  qed (auto simp: push_left_def lf_step_pushed push_progress split: producer_pc.split)
  moreover have "length (lf_popped st) < length (lf_popped st')"
    if "has_order st" "4 \<le> length (filter pop_step evs')"
  proof (rule own_steps_suffice [where R = has_order and left = pop_left and own = pop_step, OF inv assms(3,4) that(1)])
    have "pop_left st \<le> 4" by (simp add: pop_left_def split: popper_pc.split)
    then show "pop_left st \<le> length (filter pop_step evs')" using that(2) by simp
  qed (auto simp: pop_left_def lf_step_popped pop_progress split: popper_pc.split)
  ultimately show ?thesis by blast
qed

theorem lockfree_wait_free_witness:
  "\<exists>q st st'. make_lockfree 2 = Some q \<and>
     lf_run [Push_load_head default_order, Push_load_tail, Push_write, Push_publish, Pop_load_tail] (lf_init q) = Some st \<and>
     has_order st \<and> has_room st \<and>
     lf_run [Push_load_head default_order, Pop_load_head, Push_load_tail, Pop_read, Push_write, Pop_release, Shut_store,
       Pop_load_tail, Push_publish] st = Some st' \<and>
     length (lf_pushed st) < length (lf_pushed st') \<and> length (lf_popped st) < length (lf_popped st')"
proof -
  let ?a = "[Push_load_head default_order, Push_load_tail, Push_write, Push_publish, Pop_load_tail]"
  let ?b = "[Push_load_head default_order, Pop_load_head, Push_load_tail, Pop_read, Push_write, Pop_release, Shut_store,
     Pop_load_tail, Push_publish]"
  obtain q where q: "make_lockfree 2 = Some q" "capacity q = 2" "mask_bits q = 1"
    "length (buffer q) = 2" "head q = 0" "tail q = 0" "\<not> lf_done q"
    using make_lockfree_2 by blast
  obtain st where st: "lf_run ?a (lf_init q) = Some st" "has_order st" "has_room st"
    "\<exists>st'. lf_run ?b st = Some st' \<and> length (lf_pushed st') = 2"
    using q(2-) by (simp add: lf_init_def slot_def has_order_def has_room_def)
  then obtain st' where st': "lf_run ?b st = Some st'" "length (lf_pushed st') = 2" by blast
  have "4 \<le> length (filter push_step ?b)" "4 \<le> length (filter pop_step ?b)"
    by (simp_all add: push_step_def pop_step_def)
  moreover have "length (lf_pushed st') < 2 ^ 64" using st'(2) by simp
  ultimately have "length (lf_pushed st) < length (lf_pushed st')" "length (lf_popped st) < length (lf_popped st')"
    using lockfree_wait_free [OF q(1) st(1) st'(1)] st(2,3) by blast+
  then show ?thesis using q(1) st(1-3) st'(1) by blast
qed

end
