(* ===== verification/Replicas.thy ===== *)
theory Replicas
  imports Processes
begin

text \<open>
  The replicas of one shard together: engine processes that start, handle orders and die in any
  order, around one lock file.  Each process has its own position in the log, so the orders
  they handle are arbitrary here.  Forgetting all but the lock objects gives the replicas of
  \<open>LeaderLock\<close>, whose steps simulate those of the processes.
\<close>

section \<open>The processes of a shard\<close>

record shard_procs =
  procs :: "nat \<rightharpoonup> engine_proc"
  file_owner :: "nat option"

datatype proc_event = Begin nat "nat option" | Handle nat Order | Crash nat

fun proc_step :: "u32 \<Rightarrow> u32 \<Rightarrow> TradeLog \<Rightarrow> proc_event \<Rightarrow> shard_procs \<Rightarrow> shard_procs option" where
  "proc_step shard n lg (Begin i fd) w =
     (case make_proc shard n (make_leader_lock fd) lg (file_owner w) of
        (p, owner) \<Rightarrow> Some \<lparr>procs = (procs w)(i \<mapsto> p), file_owner = owner\<rparr>)"
| "proc_step shard n lg (Handle i x) w =
     (case procs w i of
        None \<Rightarrow> Some w
      | Some p \<Rightarrow>
          (case engine_core x p (file_owner w) of
             None \<Rightarrow> None
           | Some (ts, p', owner) \<Rightarrow> Some \<lparr>procs = (procs w)(i \<mapsto> p'), file_owner = owner\<rparr>))"
| "proc_step shard n lg (Crash i) w =
     (case procs w i of
        None \<Rightarrow> Some w
      | Some p \<Rightarrow>
          Some \<lparr>procs = (procs w)(i := None), file_owner = destroy_leader_lock (leader p) (file_owner w)\<rparr>)"

definition locks_of :: "shard_procs \<Rightarrow> shard_world" where
  "locks_of w = \<lparr>replicas = (\<lambda>i. map_option leader (procs w i)), lock_owner = file_owner w\<rparr>"

inductive procs_reachable :: "u32 \<Rightarrow> u32 \<Rightarrow> TradeLog \<Rightarrow> shard_procs \<Rightarrow> bool" for shard n lg where
  none: "procs_reachable shard n lg \<lparr>procs = Map.empty, file_owner = None\<rparr>"
| begins: "procs_reachable shard n lg w \<Longrightarrow> procs w i = None \<Longrightarrow> fresh_fd fd (locks_of w) \<Longrightarrow>
    proc_step shard n lg (Begin i fd) w = Some w' \<Longrightarrow> procs_reachable shard n lg w'"
| handles: "procs_reachable shard n lg w \<Longrightarrow> proc_step shard n lg (Handle i x) w = Some w' \<Longrightarrow>
    procs_reachable shard n lg w'"
| crashes: "procs_reachable shard n lg w \<Longrightarrow> proc_step shard n lg (Crash i) w = Some w' \<Longrightarrow>
    procs_reachable shard n lg w'"

section \<open>Simulation\<close>

text \<open>A process is active exactly if its lock object says that it holds the lock.\<close>

definition flags_ok :: "shard_procs \<Rightarrow> bool" where
  "flags_ok w = (\<forall>i p. procs w i = Some p \<longrightarrow> active p = ll_held (leader p))"

lemma flags_okD: "flags_ok w \<Longrightarrow> procs w i = Some p \<Longrightarrow> active p = ll_held (leader p)"
  by (simp add: flags_ok_def)

lemma flags_ok_upd:
  "flags_ok w \<Longrightarrow> active p = ll_held (leader p) \<Longrightarrow> flags_ok \<lparr>procs = (procs w)(i \<mapsto> p), file_owner = owner\<rparr>"
  "flags_ok w \<Longrightarrow> flags_ok \<lparr>procs = (procs w)(i := None), file_owner = owner\<rparr>"
  by (simp_all add: flags_ok_def)

lemma try_acquire_result: "try_acquire l owner = (ok, l', owner') \<Longrightarrow> ok = ll_held l'"
  by (auto simp: try_acquire_def Let_def split: if_splits option.splits prod.splits)

lemma promote_acquires:
  assumes "active p = ll_held (leader p)" and "promote p owner = (p', owner')"
  shows "\<exists>ok. try_acquire (leader p) owner = (ok, leader p', owner') \<and> active p' = ll_held (leader p')"
proof (cases "active p")
  case True
  then show ?thesis using assms by (auto simp: promote_def try_acquire_def)
next
  case False
  obtain ok l' o' where t: "try_acquire (leader p) owner = (ok, l', o')" by (metis prod_cases3)
  then show ?thesis using assms(2) False try_acquire_result [OF t] by (auto simp: promote_def)
qed

lemma engine_core_lock:
  assumes "engine_core x p owner = Some (ts, p', owner')"
  shows "leader p' = leader (fst (promote p owner)) \<and> active p' = active (fst (promote p owner)) \<and>
         owner' = snd (promote p owner) \<and> (ts \<noteq> [] \<longrightarrow> active p')"
  using assms by (auto simp: engine_core_def Let_def split: prod.splits option.splits if_splits)

lemma begins_simulated:
  assumes "flags_ok w" and "proc_step shard n lg (Begin i fd) w = Some w'"
  shows "locks_of w' = replica_step (Try i) (replica_step (Start i fd) (locks_of w)) \<and> flags_ok w'"
proof -
  obtain ok l owner where t: "try_acquire (make_leader_lock fd) (file_owner w) = (ok, l, owner)"
    by (metis prod_cases3)
  then show ?thesis
    using assms try_acquire_result [OF t]
    by (auto simp: make_proc_def locks_of_def fun_eq_iff intro!: flags_ok_upd)
qed

lemma handles_simulated:
  assumes "flags_ok w" and "proc_step shard n lg (Handle i x) w = Some w'"
  shows "(locks_of w' = replica_step (Try i) (locks_of w) \<or> locks_of w' = locks_of w) \<and> flags_ok w'"
proof (cases "procs w i")
  case None
  then show ?thesis using assms by simp
next
  case (Some p)
  then obtain ts p' owner where core: "engine_core x p (file_owner w) = Some (ts, p', owner)"
    and w': "w' = \<lparr>procs = (procs w)(i \<mapsto> p'), file_owner = owner\<rparr>"
    using assms(2) by (auto split: option.splits)
  obtain p1 o1 where pr: "promote p (file_owner w) = (p1, o1)" by fastforce
  note e = engine_core_lock [OF core]
  obtain ok where "try_acquire (leader p) (file_owner w) = (ok, leader p', owner)"
    "active p' = ll_held (leader p')"
    using promote_acquires [OF _ pr] assms(1) Some e pr by (auto simp: flags_ok_def)
  then show ?thesis
    using Some w' flags_ok_upd(1) [OF assms(1)] by (auto simp: locks_of_def fun_eq_iff)
qed

lemma crashes_simulated:
  assumes "flags_ok w" and "proc_step shard n lg (Crash i) w = Some w'"
  shows "locks_of w' = replica_step (Die i) (locks_of w) \<and> flags_ok w'"
  using assms flags_ok_upd(2) [OF assms(1)] by (auto simp: locks_of_def fun_eq_iff split: option.splits)

lemma procs_simulated: "procs_reachable shard n lg w \<Longrightarrow> shard_reachable (locks_of w) \<and> flags_ok w"
proof (induction rule: procs_reachable.induct)
  case none
  then show ?case using shard_reachable.init by (simp add: locks_of_def flags_ok_def)
next
  case (begins w i fd w')
  then have "shard_reachable (replica_step (Start i fd) (locks_of w))"
    by (intro shard_reachable.start) (simp_all add: locks_of_def)
  then show ?case using begins_simulated begins shard_reachable.attempt by metis
next
  case (handles w i x w')
  then show ?case using handles_simulated shard_reachable.attempt by metis
next
  case (crashes w i w')
  then show ?case using crashes_simulated shard_reachable.die by metis
qed

text \<open>
  C26: Whenever a replica publishes trades for an order it handles, it is active and owns
  the lock file, and no other live replica of the shard is active, however the replicas
  started, handled orders and died before: trades are never published by two replicas at the
  same time.
\<close>

theorem single_publisher:
  assumes "procs_reachable shard n lg w" and "procs w i = Some p"
    and "engine_core x p (file_owner w) = Some (ts, p', owner)" and "ts \<noteq> []"
  shows "active p' \<and> ll_fd (leader p') = owner \<and> (\<forall>j q. j \<noteq> i \<longrightarrow> procs w j = Some q \<longrightarrow> \<not> active q)"
proof -
  let ?w = "\<lparr>procs = (procs w)(i \<mapsto> p'), file_owner = owner\<rparr>"
  have "procs_reachable shard n lg ?w"
    by (rule procs_reachable.handles [OF assms(1), of i x]) (simp add: assms(2,3))
  from procs_simulated [OF this] have reach: "shard_reachable (locks_of ?w)" and flags: "flags_ok ?w"
    by simp_all
  have act: "active p'" using engine_core_lock [OF assms(3)] assms(4) by blast
  have held: "ll_held (leader p')" using flags_okD [OF flags, of i p'] act by simp
  have inv: "lock_inv (locks_of ?w)" by (rule lock_inv_reachable [OF reach])
  have i: "replicas (locks_of ?w) i = Some (leader p')" by (simp add: locks_of_def)
  have own: "ll_fd (leader p') = owner"
    using lock_holder_unique [OF inv i i held held] by (simp add: locks_of_def)
  have "\<not> active q" if "j \<noteq> i" "procs w j = Some q" for j q
  proof
    assume "active q"
    then have "ll_held (leader q)" using flags_okD [OF flags, of j q] that by simp
    moreover have "replicas (locks_of ?w) j = Some (leader q)" using that by (simp add: locks_of_def)
    ultimately show False
      using lock_holder_unique [OF inv _ i] held that by blast
  qed
  with act own show ?thesis by blast
qed

definition two_procs :: shard_procs where
  "two_procs = \<lparr>procs = [0 \<mapsto> sample_proc (Some 5) None, 1 \<mapsto> sample_proc (Some 6) (Some 5)], file_owner = Some 5\<rparr>"

lemma sample_begin:
  "make_proc 0 4 (make_leader_lock (Some 5)) \<lparr>tl_path = ''t''\<rparr> None = (sample_proc (Some 5) None, Some 5)"
  "make_proc 0 4 (make_leader_lock (Some 6)) \<lparr>tl_path = ''t''\<rparr> (Some 5) = (sample_proc (Some 6) (Some 5), Some 5)"
  by (simp_all add: sample_proc_def make_proc_def try_acquire_def flock_nb_def make_leader_lock_def Let_def)

lemma sample_leaders:
  "leader (sample_proc (Some 5) None) = \<lparr>ll_fd = Some 5, ll_held = True\<rparr>"
  "active (sample_proc (Some 5) None)"
  by (simp_all add: sample_proc_def make_proc_def try_acquire_def flock_nb_def make_leader_lock_def Let_def)

lemma two_procs_reachable: "procs_reachable 0 4 \<lparr>tl_path = ''t''\<rparr> two_procs"
proof -
  let ?w = "\<lparr>procs = [0 \<mapsto> sample_proc (Some 5) None], file_owner = Some 5\<rparr>"
  have "procs_reachable 0 4 \<lparr>tl_path = ''t''\<rparr> ?w"
    by (rule procs_reachable.begins [OF procs_reachable.none, of 0 "Some 5"])
      (simp_all add: sample_begin fresh_fd_def locks_of_def)
  then show ?thesis
    by (rule procs_reachable.begins [of _ _ _ _ 1 "Some 6"])
      (auto simp: sample_begin fresh_fd_def locks_of_def two_procs_def ran_def sample_leaders split: if_splits)
qed

theorem single_publisher_witness:
  "\<exists>ts p owner p' owner'. engine_core ask_100 (sample_proc (Some 5) None) (Some 5) = Some (ts, p, owner) \<and>
     engine_core bid_100 p owner = Some ([trade_3], p', owner') \<and> owner' = Some 5 \<and>
     \<not> active (sample_proc (Some 6) (Some 5))"
proof -
  let ?p0 = "sample_proc (Some 5) None"
  obtain ts p owner where c1: "engine_core ask_100 ?p0 (Some 5) = Some (ts, p, owner)"
    and e: "engines p = [symbol_str ask_100 \<mapsto> engine_1]" and n: "proc_shards p = 4"
    using engine_core_refines [of ?p0 ask_100 "Some 5"] by (auto simp: sample_books)
  have act: "active p" "leader p = \<lparr>ll_fd = Some 5, ll_held = True\<rparr>"
    using engine_core_lock [OF c1] sample_leaders by (simp_all add: promote_def)
  obtain p' owner' where c2: "engine_core bid_100 p owner = Some ([trade_3], p', owner')"
    and l: "leader p' = leader p"
  proof -
    obtain ts' p' owner' where c: "engine_core bid_100 p owner = Some (ts', p', owner')"
      using engine_core_refines [of p bid_100 owner] n by (auto simp: sample_books e)
    then have "ts' = [trade_3]" "leader p' = leader p"
      using engine_core_Some [OF _ c] engine_core_lock [OF c] n act by (simp_all add: promote_def e sample_books)
    then show ?thesis using that c by blast
  qed
  let ?w = "\<lparr>procs = (procs two_procs)(0 \<mapsto> p), file_owner = owner\<rparr>"
  have "procs_reachable 0 4 \<lparr>tl_path = ''t''\<rparr> ?w"
    by (rule procs_reachable.handles [OF two_procs_reachable, of 0 ask_100]) (simp add: two_procs_def c1)
  from single_publisher [OF this, of 0 p bid_100 "[trade_3]" p' owner'] c2
  have own: "ll_fd (leader p') = owner'"
    and others: "\<And>j q. j \<noteq> 0 \<Longrightarrow> procs ?w j = Some q \<Longrightarrow> \<not> active q" by auto
  have "procs ?w 1 = Some (sample_proc (Some 6) (Some 5))" by (simp add: two_procs_def)
  from others [OF _ this] own c1 c2 act l show ?thesis by auto
qed

end
