(* ===== verification/Cluster.thy ===== *)
theory Cluster
  imports Replicas Gateway
begin

text \<open>
  The distributed set-up as one system: any number of gateways and, for every shard, any number
  of engine replicas, which start, work and are killed in any order, on one disk and around one
  lock file per shard.  A step is what one process does between two points where another may
  come in between: a gateway takes an order, an engine calls \<open>pop\<close> once and handles what it gets.
  Each step is composed of the operations of the components, and leaves a trace of what was
  taken and handled.

  The invariant \<open>cluster_inv\<close> says that the shards' logs hold the orders taken, and that the books of
  every replica are those of the specification \<open>step_books\<close> on the part of the log it has read.
\<close>

section \<open>State and steps\<close>

record cluster =
  cl_disk :: fs
  cl_gateways :: "nat \<rightharpoonup> ShardRouterQueue"
  cl_engines :: "nat \<rightharpoonup> LogBackedOrderQueue \<times> engine_proc"
  cl_owner :: "nat \<Rightarrow> nat option"

text \<open>
  The number that names a process, and what it does: the padding bytes of the order written,
  the shard, replica id and lock descriptor of an engine that starts.
\<close>

datatype cl_event =
  Gw_begin nat | Gw_order nat "48 word" Order | Gw_end nat
| En_begin nat u32 string "nat option" | En_turn nat | En_kill nat

text \<open>An order taken by a gateway; engine, shard, log position, activity and trades of an order handled.\<close>

datatype cl_out = Took Order | Handled nat nat nat bool "Trade list"

definition turn_handle ::
  "nat \<Rightarrow> Order \<Rightarrow> LogBackedOrderQueue \<Rightarrow> LogBackedOrderQueue \<Rightarrow> engine_proc \<Rightarrow> fs \<Rightarrow> cluster \<Rightarrow>
     (cl_out list \<times> cluster) option" where
  "turn_handle i x q q' p d' w =
     (let k = unat (shard_id p)
      in case engine_core x p (cl_owner w k) of
           None \<Rightarrow> None
         | Some (ts, p', owner) \<Rightarrow>
             Some ([Handled i k (unat (consumer_offset q)) (active p') ts],
                   w\<lparr>cl_engines := (cl_engines w)(i \<mapsto> (q', p')), cl_owner := (cl_owner w)(k := owner),
                     cl_disk := publish_all ts (trade_topic p') d'\<rparr>))"

fun cl_step :: "string \<Rightarrow> u32 \<Rightarrow> cl_event \<Rightarrow> cluster \<Rightarrow> (cl_out list \<times> cluster) option" where
  "cl_step base n (Gw_begin g) w =
     (case make_router base n (cl_disk w) of
        Inl err \<Rightarrow> None
      | Inr (r, d) \<Rightarrow> Some ([], w\<lparr>cl_gateways := (cl_gateways w)(g \<mapsto> r), cl_disk := d\<rparr>))"
| "cl_step base n (Gw_order g pad x) w =
     (case cl_gateways w g of
        None \<Rightarrow> Some ([], w)
      | Some r \<Rightarrow>
          (case router_push pad x (r, cl_disk w) of
             None \<Rightarrow> None
           | Some (r', d) \<Rightarrow> Some ([Took x], w\<lparr>cl_gateways := (cl_gateways w)(g \<mapsto> r'), cl_disk := d\<rparr>)))"
| "cl_step base n (Gw_end g) w = Some ([], w\<lparr>cl_gateways := (cl_gateways w)(g := None)\<rparr>)"
| "cl_step base n (En_begin i k rid fd) w =
     (case engine_start base k n rid fd (cl_owner w (unat k)) (cl_disk w) of
        Inl err \<Rightarrow> None
      | Inr (q, p, owner, d) \<Rightarrow>
          Some ([], w\<lparr>cl_engines := (cl_engines w)(i \<mapsto> (q, p)),
                      cl_owner := (cl_owner w)(unat k := owner), cl_disk := d\<rparr>))"
| "cl_step base n (En_turn i) w =
     (case cl_engines w i of
        None \<Rightarrow> Some ([], w)
      | Some (q, p) \<Rightarrow>
          (case log_pop (q, cl_disk w) of
             (Popped x, q', d') \<Rightarrow> turn_handle i x q q' p d' w
           | (Drained, q', d') \<Rightarrow> Some ([], w)
           | (Waiting, q', d') \<Rightarrow> Some ([], w)
           | (Threw err, q', d') \<Rightarrow> None))"
| "cl_step base n (En_kill i) w =
     (case cl_engines w i of
        None \<Rightarrow> Some ([], w)
      | Some (q, p) \<Rightarrow>
          Some ([], w\<lparr>cl_engines := (cl_engines w)(i := None),
                      cl_owner := (cl_owner w)(unat (shard_id p) :=
                        destroy_leader_lock (leader p) (cl_owner w (unat (shard_id p))))\<rparr>))"

definition cl_init :: cluster where
  "cl_init = \<lparr>cl_disk = empty_disk, cl_gateways = Map.empty, cl_engines = Map.empty, cl_owner = (\<lambda>k. None)\<rparr>"

section \<open>Runs\<close>

text \<open>
  What the set-up guarantees of an event: orders are valid and the log has room; a replica id
  is used once per shard, a process number and a lock descriptor by one live process at a time.
  Whether engines may be killed is the argument \<open>kills\<close>.
\<close>

fun cl_allowed :: "bool \<Rightarrow> string \<Rightarrow> u32 \<Rightarrow> cl_event \<Rightarrow> cluster \<Rightarrow> bool" where
  "cl_allowed kills base n (Gw_order g pad x) w =
     (order_wf x \<and> valid_order x \<and>
      length (file_bytes (log_file (shard_base base (shard_of n x))) (cl_disk w)) + sizeof_Order < 2 ^ 63)"
| "cl_allowed kills base n (En_begin i k rid fd) w =
     (cl_engines w i = None \<and> k < n \<and>
      files (cl_disk w) (offset_file (shard_base base (unat k)) rid) = None \<and>
      (\<forall>j q p. cl_engines w j = Some (q, p) \<longrightarrow>
         checkpoint_path q \<noteq> offset_file (shard_base base (unat k)) rid \<and>
         (shard_id p = k \<longrightarrow> fd \<noteq> None \<longrightarrow> ll_fd (leader p) \<noteq> fd)))"
| "cl_allowed kills base n (En_kill i) w = kills"
| "cl_allowed kills base n _ w = True"

inductive cl_run :: "bool \<Rightarrow> string \<Rightarrow> u32 \<Rightarrow> cl_out list \<Rightarrow> cluster \<Rightarrow> bool" for kills base n where
  empty: "cl_run kills base n [] cl_init"
| step: "cl_run kills base n tr w \<Longrightarrow> cl_allowed kills base n ev w \<Longrightarrow> cl_step base n ev w = Some (out, w') \<Longrightarrow>
    cl_run kills base n (tr @ out) w'"

text \<open>The orders taken, those of a shard, and the trades published for a shard.\<close>

fun took :: "cl_out list \<Rightarrow> Order list" where
  "took [] = []"
| "took (Took x # tr) = x # took tr"
| "took (Handled i k j a ts # tr) = took tr"

definition shard_log :: "u32 \<Rightarrow> cl_out list \<Rightarrow> nat \<Rightarrow> Order list" where
  "shard_log n tr k = filter (\<lambda>x. shard_of n x = k) (took tr)"

fun published :: "nat \<Rightarrow> cl_out list \<Rightarrow> Trade list" where
  "published k [] = []"
| "published k (Took x # tr) = published k tr"
| "published k (Handled i k' j a ts # tr) = (if k' = k then ts else []) @ published k tr"

lemma took_append [simp]: "took (tr @ tr') = took tr @ took tr'"
  by (induction tr rule: took.induct) simp_all

lemma published_append [simp]: "published k (tr @ tr') = published k tr @ published k tr'"
  by (induction k tr rule: published.induct) simp_all

lemma shard_log_append: "shard_log n (tr @ tr') k = shard_log n tr k @ shard_log n tr' k"
  by (simp add: shard_log_def)

lemma shard_log_silent [simp]: "took out = [] \<Longrightarrow> shard_log n (tr @ out) = shard_log n tr"
  by (simp add: shard_log_def fun_eq_iff)

section \<open>File names\<close>

lemma shard_base_inj: "shard_base base i = shard_base base j \<Longrightarrow> i = j"
  by (simp add: shard_base_def to_string_nat_inj)

lemma trades_file_inj: "trades_file (shard_base base i) = trades_file (shard_base base j) \<Longrightarrow> i = j"
  by (simp add: trades_file_def shard_base_inj)

lemma offset_file_not_log: "offset_file b cid \<noteq> log_file b'"
  using arg_cong [of "offset_file b cid" "log_file b'" last] by (auto simp: log_file_def offset_file_def)

lemma offset_file_not_trades: "offset_file b cid \<noteq> trades_file b'"
  using arg_cong [of "offset_file b cid" "trades_file b'" last] by (auto simp: trades_file_def offset_file_def)

section \<open>A replica and the log of its shard\<close>

definition node_ok ::
  "string \<Rightarrow> u32 \<Rightarrow> (nat \<Rightarrow> Order list) \<Rightarrow> fs \<Rightarrow> LogBackedOrderQueue \<Rightarrow> engine_proc \<Rightarrow> bool" where
  "node_ok base n L d q p =
     (shard_id p < n \<and> proc_shards p = n \<and> \<not> lq_done q \<and>
      log_path q = log_file (shard_base base (unat (shard_id p))) \<and>
      (\<exists>rid. checkpoint_path q = offset_file (shard_base base (unat (shard_id p))) rid) \<and>
      tl_path (trade_topic p) = trades_file (shard_base base (unat (shard_id p))) \<and>
      log_inv (q, d) \<and>
      run_orders step_books (take (unat (consumer_offset q)) (L (unat (shard_id p)))) Map.empty = Some (engines p))"

lemma log_inv_frame:
  assumes "log_inv (q, d)" and "file_bytes (log_path q) d' = file_bytes (log_path q) d"
    and "files d' (checkpoint_path q) = files d (checkpoint_path q)" and "can_open d' = can_open d"
  shows "log_inv (q, d')"
proof -
  have "log_orders (q, d') = log_orders (q, d)" using assms(2) by (rule log_orders_frame)
  moreover have "read_checkpoint (checkpoint_path q) d' = read_checkpoint (checkpoint_path q) d"
    using assms(3,4) by (simp add: read_checkpoint_def fopen_read_def)
  ultimately show ?thesis using assms(1,2,4) by (simp add: log_inv_def)
qed

lemma node_ok_frame:
  assumes "node_ok base n L d q p" and "file_bytes (log_path q) d' = file_bytes (log_path q) d"
    and "files d' (checkpoint_path q) = files d (checkpoint_path q)" and "can_open d' = can_open d"
  shows "node_ok base n L d' q p"
  using assms log_inv_frame [of q d d'] by (simp add: node_ok_def)

lemma node_paths:
  assumes "node_ok base n L d q p"
  shows "checkpoint_path q \<noteq> log_file b" and "checkpoint_path q \<noteq> trades_file b"
  using assms offset_file_not_log offset_file_not_trades unfolding node_ok_def by metis+

lemma node_orders:
  assumes "node_ok base n L d q p" and "\<forall>k < unat n. shard_holds base k (L k) d"
  shows "log_orders (q, d) = L (unat (shard_id p))" and "unat (shard_id p) < unat n"
    and "unat (consumer_offset q) \<le> length (L (unat (shard_id p)))"
proof -
  show k: "unat (shard_id p) < unat n" using assms(1) by (simp add: node_ok_def word_less_nat_alt)
  then show o: "log_orders (q, d) = L (unat (shard_id p))"
    using assms by (intro log_orders_eq) (simp add: node_ok_def shard_holds_def)
  show "unat (consumer_offset q) \<le> length (L (unat (shard_id p)))"
    using assms(1) o by (simp add: node_ok_def log_inv_def)
qed

text \<open>A gateway appends an order to the log of shard \<open>j\<close>.\<close>

lemma node_ok_push:
  assumes node: "node_ok base n L d q p" and holds: "\<forall>k < unat n. shard_holds base k (L k) d"
    and x: "order_wf x" and room: "length (file_bytes (log_file (shard_base base j)) d) + sizeof_Order < 2 ^ 63"
  shows "node_ok base n (L(j := L j @ [x])) (fwrite_end (log_file (shard_base base j)) (enc_order pad x) d) q p"
proof (cases "unat (shard_id p) = j")
  case True
  have lp: "log_path q = log_file (shard_base base j)" using node True by (simp add: node_ok_def)
  have "log_fits (Suc 0) (q, d)" using room lp by (simp add: log_fits_def)
  then have "log_inv (q, fwrite_end (log_path q) (enc_order pad x) d)"
    using log_push_law [OF x, of "(q, d)" 0 pad] node by (simp add: node_ok_def log_push_def)
  then show ?thesis using node True node_orders(3) [OF node holds] by (simp add: node_ok_def)
next
  case False
  let ?d = "fwrite_end (log_file (shard_base base j)) (enc_order pad x) d"
  have "log_path q \<noteq> log_file (shard_base base j)"
    using node False shard_files_distinct by (auto simp: node_ok_def)
  moreover have "checkpoint_path q \<noteq> log_file (shard_base base j)"
    by (rule node_paths [OF node])
  ultimately have "node_ok base n L ?d q p"
    by (intro node_ok_frame [OF node]) (simp_all add: fwrite_end_def files_set)
  then show ?thesis using False by (simp add: node_ok_def)
qed

section \<open>The invariant of the system\<close>

definition cluster_inv :: "string \<Rightarrow> u32 \<Rightarrow> cl_out list \<Rightarrow> cluster \<Rightarrow> bool" where
  "cluster_inv base n tr w =
     ((\<forall>path. can_open (cl_disk w) path) \<and> list_all valid_order (took tr) \<and>
      (\<forall>g r. cl_gateways w g = Some r \<longrightarrow> router_ok base n r) \<and>
      (\<forall>k < unat n. shard_holds base k (shard_log n tr k) (cl_disk w)) \<and>
      (\<forall>k < unat n. length (file_bytes (log_file (shard_base base k)) (cl_disk w)) < 2 ^ 63) \<and>
      (\<forall>i q p. cl_engines w i = Some (q, p) \<longrightarrow> node_ok base n (shard_log n tr) (cl_disk w) q p) \<and>
      (\<forall>i j q p q' p'. cl_engines w i = Some (q, p) \<longrightarrow> cl_engines w j = Some (q', p') \<longrightarrow>
         checkpoint_path q = checkpoint_path q' \<longrightarrow> i = j))"

lemma cluster_invD:
  assumes "cluster_inv base n tr w"
  shows "can_open (cl_disk w) path" and "list_all valid_order (took tr)"
    and "cl_gateways w g = Some r \<Longrightarrow> router_ok base n r"
    and "\<forall>k < unat n. shard_holds base k (shard_log n tr k) (cl_disk w)"
    and "k < unat n \<Longrightarrow> length (file_bytes (log_file (shard_base base k)) (cl_disk w)) < 2 ^ 63"
    and "cl_engines w i = Some (q, p) \<Longrightarrow> node_ok base n (shard_log n tr) (cl_disk w) q p"
    and "cl_engines w i = Some (q, p) \<Longrightarrow> cl_engines w j = Some (q', p') \<Longrightarrow>
           checkpoint_path q = checkpoint_path q' \<Longrightarrow> i = j"
  using assms unfolding cluster_inv_def by blast+

lemma cluster_invI:
  assumes "\<And>path. can_open (cl_disk w) path" and "list_all valid_order (took tr)"
    and "\<And>g r. cl_gateways w g = Some r \<Longrightarrow> router_ok base n r"
    and "\<And>k. k < unat n \<Longrightarrow> shard_holds base k (shard_log n tr k) (cl_disk w)"
    and "\<And>k. k < unat n \<Longrightarrow> length (file_bytes (log_file (shard_base base k)) (cl_disk w)) < 2 ^ 63"
    and "\<And>i q p. cl_engines w i = Some (q, p) \<Longrightarrow> node_ok base n (shard_log n tr) (cl_disk w) q p"
    and "\<And>i j q p q' p'. cl_engines w i = Some (q, p) \<Longrightarrow> cl_engines w j = Some (q', p') \<Longrightarrow>
           checkpoint_path q = checkpoint_path q' \<Longrightarrow> i = j"
  shows "cluster_inv base n tr w"
  using assms unfolding cluster_inv_def by blast

text \<open>A step that leaves the logs' bytes and the checkpoints alone.\<close>

lemma cluster_inv_frame:
  assumes inv: "cluster_inv base n tr w" and out: "took out = []"
    and disk: "\<And>k. file_bytes (log_file (shard_base base k)) (cl_disk w') = file_bytes (log_file (shard_base base k)) (cl_disk w)"
    "can_open (cl_disk w') = can_open (cl_disk w)"
    "\<And>i q p. cl_engines w' i = Some (q, p) \<Longrightarrow>
       files (cl_disk w') (checkpoint_path q) = files (cl_disk w) (checkpoint_path q)"
    and gw: "\<And>g r. cl_gateways w' g = Some r \<Longrightarrow> router_ok base n r"
    and en: "\<And>i q p. cl_engines w' i = Some (q, p) \<Longrightarrow> cl_engines w i = Some (q, p)"
  shows "cluster_inv base n (tr @ out) w'"
proof (rule cluster_invI)
  note D = cluster_invD [OF inv]
  show "can_open (cl_disk w') path" for path using D(1) disk(2) by simp
  show "list_all valid_order (took (tr @ out))" using D(2) out by simp
  show "cl_gateways w' g = Some r \<Longrightarrow> router_ok base n r" for g r by (rule gw)
  show "shard_holds base k (shard_log n (tr @ out) k) (cl_disk w')" if "k < unat n" for k
    using D(4) that out disk(1) by (simp add: shard_holds_def)
  show "length (file_bytes (log_file (shard_base base k)) (cl_disk w')) < 2 ^ 63" if "k < unat n" for k
    using D(5) [OF that] disk(1) by simp
  show "node_ok base n (shard_log n (tr @ out)) (cl_disk w') q p" if "cl_engines w' i = Some (q, p)" for i q p
  proof -
    have node: "node_ok base n (shard_log n tr) (cl_disk w) q p" using D(6) en that by blast
    from node_ok_frame [OF node, of "cl_disk w'"] show ?thesis
      using disk that out node by (simp add: node_ok_def)
  qed
  show "cl_engines w' i = Some (q, p) \<Longrightarrow> cl_engines w' j = Some (q', p') \<Longrightarrow>
      checkpoint_path q = checkpoint_path q' \<Longrightarrow> i = j" for i j q p q' p'
    using D(7) en by metis
qed

lemma cluster_inv_init: "cluster_inv base n [] cl_init"
  by (rule cluster_invI)
    (simp_all add: cl_init_def empty_disk_def shard_holds_def shard_log_def file_bytes_def order_codec.holds_Nil)

section \<open>Every step succeeds and keeps the invariant\<close>

definition cl_ok_step :: "string \<Rightarrow> u32 \<Rightarrow> cl_out list \<Rightarrow> cluster \<Rightarrow> cl_event \<Rightarrow> bool" where
  "cl_ok_step base n tr w ev =
     (case cl_step base n ev w of None \<Rightarrow> False | Some (out, w') \<Rightarrow> cluster_inv base n (tr @ out) w')"

lemma gw_begin_ok:
  assumes inv: "cluster_inv base n tr w"
  shows "cl_ok_step base n tr w (Gw_begin g)"
proof -
  obtain qs d where m: "make_shards base 0 (unat n) (cl_disk w) = Inr (qs, d)"
    and b: "\<And>path. file_bytes path d = file_bytes path (cl_disk w)"
    using make_shards_total [of "cl_disk w" base 0 "unat n"] cluster_invD(1) [OF inv] by blast
  then obtain r where r: "make_router base n (cl_disk w) = Inr (r, d)" by (simp add: make_router_def)
  note keep = make_shards_keeps [OF m]
  let ?w = "w\<lparr>cl_gateways := (cl_gateways w)(g \<mapsto> r), cl_disk := d\<rparr>"
  have "cluster_inv base n (tr @ []) ?w"
  proof (rule cluster_inv_frame [OF inv])
    show "can_open (cl_disk ?w) = can_open (cl_disk w)" using keep by (simp add: keeps_others_def)
    show "router_ok base n r'" if "cl_gateways ?w g' = Some r'" for g' r'
      using that make_router_ok [OF r] cluster_invD(3) [OF inv] by (auto split: if_splits)
    show "files (cl_disk ?w) (checkpoint_path q) = files (cl_disk w) (checkpoint_path q)"
      if "cl_engines ?w i = Some (q, p)" for i q p
      using keep node_paths [OF cluster_invD(6) [OF inv]] that by (simp add: keeps_others_def)
  qed (simp_all add: b)
  then show ?thesis using r by (simp add: cl_ok_step_def)
qed

lemma gw_order_ok:
  assumes inv: "cluster_inv base n tr w" and n: "n \<noteq> 0" and ok: "cl_allowed kills base n (Gw_order g pad x) w"
  shows "cl_ok_step base n tr w (Gw_order g pad x)"
proof (cases "cl_gateways w g")
  case None
  then show ?thesis using inv by (simp add: cl_ok_step_def)
next
  case (Some r)
  let ?j = "shard_of n x"
  let ?lp = "log_file (shard_base base ?j)"
  let ?d = "fwrite_end ?lp (enc_order pad x) (cl_disk w)"
  obtain r' where r': "router_push pad x (r, cl_disk w) = Some (r', ?d)" "router_ok base n r'"
    using router_push_step [OF cluster_invD(3) [OF inv Some] n] by blast
  let ?w = "w\<lparr>cl_gateways := (cl_gateways w)(g \<mapsto> r'), cl_disk := ?d\<rparr>"
  have log: "shard_log n (tr @ [Took x]) = (shard_log n tr)(?j := shard_log n tr ?j @ [x])"
    by (auto simp: shard_log_def fun_eq_iff)
  have b: "file_bytes (log_file (shard_base base k)) ?d =
      file_bytes (log_file (shard_base base k)) (cl_disk w) @ (if k = ?j then enc_order pad x else [])" for k
    using shard_files_distinct [of base k ?j] by (auto simp: fwrite_end_def)
  have "cluster_inv base n (tr @ [Took x]) ?w"
  proof (rule cluster_invI)
    note D = cluster_invD [OF inv]
    show "can_open (cl_disk ?w) path" for path using D(1) by (simp add: fwrite_end_def)
    show "list_all valid_order (took (tr @ [Took x]))" using D(2) ok by simp
    show "router_ok base n r''" if "cl_gateways ?w g' = Some r''" for g' r''
      using that r'(2) D(3) by (auto split: if_splits)
    show "shard_holds base k (shard_log n (tr @ [Took x]) k) (cl_disk ?w)" if "k < unat n" for k
      using D(4) that ok order_codec.holds_append b [of k] by (simp add: log shard_holds_def)
    show "length (file_bytes (log_file (shard_base base k)) (cl_disk ?w)) < 2 ^ 63" if "k < unat n" for k
      using D(5) [OF that] ok b [of k] length_enc_order [of x pad] by (simp add: sizeof_Order_value)
    show "node_ok base n (shard_log n (tr @ [Took x])) (cl_disk ?w) q p" if "cl_engines ?w i = Some (q, p)" for i q p
      using node_ok_push [OF D(6) D(4), of i q p x ?j pad] that ok by (simp add: log)
    show "cl_engines ?w i = Some (q, p) \<Longrightarrow> cl_engines ?w j = Some (q', p') \<Longrightarrow>
        checkpoint_path q = checkpoint_path q' \<Longrightarrow> i = j" for i j q p q' p'
      using D(7) by simp
  qed
  then show ?thesis using r'(1) Some by (simp add: cl_ok_step_def)
qed

lemma engine_start_new:
  assumes "engine_start base k n rid fd owner d0 = Inr (q, p, owner', d)"
  shows "shard_id p = k" and "\<not> lq_done q" and "file_bytes path d = file_bytes path d0"
    and "make_proc k n (make_leader_lock fd) (trade_topic p) owner = (p, owner')"
proof -
  show "shard_id p = k" "\<not> lq_done q" "make_proc k n (make_leader_lock fd) (trade_topic p) owner = (p, owner')"
    using assms by (auto simp: engine_start_def make_log_queue_def make_trade_log_def make_proc_def Let_def
        split: sum.splits prod.splits option.splits)
  obtain d1 where "make_log_queue (shard_base base (unat k)) rid d0 = Inr (q, d1)"
    and d: "d = set_file (trades_file (shard_base base (unat k))) (file_bytes (trades_file (shard_base base (unat k))) d1) d1"
    using engine_start_split [OF assms] by blast
  then have "d1 = set_file (log_file (shard_base base (unat k))) (file_bytes (log_file (shard_base base (unat k))) d0) d0"
    by (auto simp: make_log_queue_def fopen_append_def Let_def log_file_def split: option.splits if_splits)
  then show "file_bytes path d = file_bytes path d0" using d by simp
qed

text \<open>A replica that starts for the first time.\<close>

lemma node_ok_start:
  assumes inv: "cluster_inv base n tr w" and ok: "cl_allowed kills base n (En_begin i k rid fd) w"
  shows "\<exists>q p owner d. engine_start base k n rid fd (cl_owner w (unat k)) (cl_disk w) = Inr (q, p, owner, d) \<and>
           node_ok base n (shard_log n tr) d q p \<and> consumer_offset q = 0"
proof -
  let ?b = "shard_base base (unat k)" and ?xs = "shard_log n tr (unat k)"
  have k: "unat k < unat n" using ok by (simp add: word_less_nat_alt)
  have h: "log_holds dec_order sizeof_Order ?xs (file_bytes (log_file ?b) (cl_disk w))"
    using cluster_invD(4) [OF inv] k by (simp add: shard_holds_def)
  then have sz: "length ?xs * sizeof_Order < 2 ^ 63" using cluster_invD(5) [OF inv k] by (simp add: log_holds_def)
  have fresh: "files (cl_disk w) (offset_file ?b rid) = None" using ok by simp
  obtain q p owner d where st: "engine_start base k n rid fd (cl_owner w (unat k)) (cl_disk w) = Inr (q, p, owner, d)"
    and li: "log_inv (q, d)" and c: "log_contents (q, d) = ?xs" "log_orders (q, d) = ?xs"
    using first_start [OF cluster_invD(1) [OF inv] fresh h sz] by blast
  have "unat (consumer_offset q) \<le> length ?xs" using li c by (simp add: log_inv_def)
  moreover have "length ?xs - unat (consumer_offset q) = length ?xs"
    using arg_cong [OF c(1), of length] c(2) by (simp add: log_contents_def)
  ultimately have "unat (consumer_offset q) = 0" by linarith
  then have z: "consumer_offset q = 0" by (simp add: unat_eq_0)
  have "node_ok base n (shard_log n tr) d q p"
    using engine_start_facts(1-3) [OF st] engine_start_split [OF st] engine_start_new [OF st] li z ok
    by (auto simp: node_ok_def opened_def)
  with st z show ?thesis by blast
qed

lemma en_begin_ok:
  assumes inv: "cluster_inv base n tr w" and ok: "cl_allowed kills base n (En_begin i k rid fd) w"
  shows "cl_ok_step base n tr w (En_begin i k rid fd)"
proof -
  let ?b = "shard_base base (unat k)"
  note D = cluster_invD [OF inv]
  obtain q p owner d where st: "engine_start base k n rid fd (cl_owner w (unat k)) (cl_disk w) = Inr (q, p, owner, d)"
    and node: "node_ok base n (shard_log n tr) d q p"
    using node_ok_start [OF inv ok] by blast
  note fr = engine_start_frame [OF st] and new = engine_start_new [OF st]
  let ?w = "w\<lparr>cl_engines := (cl_engines w)(i \<mapsto> (q, p)), cl_owner := (cl_owner w)(unat k := owner), cl_disk := d\<rparr>"
  have old: "node_ok base n (shard_log n tr) d q' p'" if "cl_engines w j = Some (q', p')" for j q' p'
  proof (rule node_ok_frame [OF D(6) [OF that]])
    show "files d (checkpoint_path q') = files (cl_disk w) (checkpoint_path q')"
      by (rule fr(3)) (rule node_paths [OF D(6) [OF that]])+
  qed (simp_all add: new fr)
  have "cluster_inv base n (tr @ []) ?w"
  proof (rule cluster_invI)
    show "can_open (cl_disk ?w) path" for path using D(1) fr(1) by simp
    show "list_all valid_order (took (tr @ []))" using D(2) by simp
    show "cl_gateways ?w g = Some r \<Longrightarrow> router_ok base n r" for g r using D(3) by simp
    show "shard_holds base j (shard_log n (tr @ []) j) (cl_disk ?w)" if "j < unat n" for j
      using D(4) that by (simp add: shard_holds_def new)
    show "length (file_bytes (log_file (shard_base base j)) (cl_disk ?w)) < 2 ^ 63" if "j < unat n" for j
      using D(5) [OF that] by (simp add: new)
    show "node_ok base n (shard_log n (tr @ [])) (cl_disk ?w) q' p'" if "cl_engines ?w j = Some (q', p')" for j q' p'
      using that node old by (auto split: if_splits)
    show "cl_engines ?w j = Some (q1, p1) \<Longrightarrow> cl_engines ?w j' = Some (q2, p2) \<Longrightarrow>
        checkpoint_path q1 = checkpoint_path q2 \<Longrightarrow> j = j'" for j j' q1 p1 q2 p2
      using D(7) ok fr(2) by (auto split: if_splits)
  qed
  then show ?thesis using st by (simp add: cl_ok_step_def)
qed

text \<open>A replica that handles the next order of its log.\<close>

lemma take_next: "j < length xs \<Longrightarrow> take (Suc j) xs = take j xs @ [xs ! j]"
  by (simp add: take_Suc_conv_app_nth)

lemma turn_pops:
  assumes inv: "cluster_inv base n tr w" and e: "cl_engines w i = Some (q, p)"
    and lt: "unat (consumer_offset q) < length (shard_log n tr (unat (shard_id p)))"
  defines "x \<equiv> shard_log n tr (unat (shard_id p)) ! unat (consumer_offset q)"
  shows "\<exists>d' ts p' owner. log_pop (q, cl_disk w) = (Popped x, q\<lparr>consumer_offset := consumer_offset q + 1\<rparr>, d') \<and>
     engine_core x p (cl_owner w (unat (shard_id p))) = Some (ts, p', owner) \<and>
     step_books x (engines p) = Some (engines p') \<and>
     ts = (if active p' then book_trades x (engines p) else []) \<and>
     log_inv (q\<lparr>consumer_offset := consumer_offset q + 1\<rparr>, d') \<and>
     unat (consumer_offset q + 1) = Suc (unat (consumer_offset q)) \<and>
     file_bytes (log_path q) d' = file_bytes (log_path q) (cl_disk w)"
proof -
  note D = cluster_invD [OF inv]
  have node: "node_ok base n (shard_log n tr) (cl_disk w) q p" by (rule D(6) [OF e])
  note o = node_orders [OF node D(4)]
  have li: "log_inv (q, cl_disk w)" using node by (simp add: node_ok_def)
  obtain d' where pop: "log_pop (q, cl_disk w) = (Popped x, q\<lparr>consumer_offset := consumer_offset q + 1\<rparr>, d')"
    "log_inv (q\<lparr>consumer_offset := consumer_offset q + 1\<rparr>, d')"
    "unat (consumer_offset q + 1) = Suc (unat (consumer_offset q))"
    "file_bytes (log_path q) d' = file_bytes (log_path q) (cl_disk w)"
    using log_pop_some [OF li] lt o(1) unfolding x_def by auto
  let ?L = "shard_log n tr (unat (shard_id p))"
  have v: "list_all valid_order ?L" using D(2) by (auto simp: shard_log_def list_all_iff)
  have run: "run_orders step_books (take (unat (consumer_offset q)) ?L) Map.empty = Some (engines p)"
    using node by (simp add: node_ok_def)
  have "list_all valid_order (take (unat (consumer_offset q)) ?L)"
    using v by (auto simp: list_all_iff dest: in_set_takeD)
  then have "books_ok (engines p)" using run_books_total [OF books_ok_empty] run by fastforce
  moreover have "valid_order x" using v lt by (simp add: x_def list_all_length)
  ultimately obtain m where m: "step_books x (engines p) = Some m" using step_books_total by blast
  have n0: "proc_shards p \<noteq> 0" using o(2) node by (auto simp: node_ok_def)
  obtain ts p' owner where core: "engine_core x p (cl_owner w (unat (shard_id p))) = Some (ts, p', owner)"
    using engine_core_refines [OF n0, of x "cl_owner w (unat (shard_id p))"] m by auto
  then show ?thesis using pop engine_core_Some [OF n0 core] by blast
qed

lemma engine_core_shard:
  "engine_core x p owner = Some (ts, p', owner') \<Longrightarrow> shard_id p' = shard_id p \<and> proc_shards p' = proc_shards p"
  using promote_fields [of p owner]
  by (auto simp: engine_core_def Let_def split: prod.splits option.splits if_splits)

text \<open>What a turn does to the disk: the replica's checkpoint and the shard's trade log.\<close>

lemma turn_disk:
  assumes "log_pop (q, d) = (r, q', d')" and "path \<noteq> checkpoint_path q" and "path \<noteq> tl_path lg"
  shows "files (publish_all ts lg d') path = files d path"
    and "file_bytes path (publish_all ts lg d') = file_bytes path d"
    and "can_open (publish_all ts lg d') = can_open d"
proof -
  show f: "files (publish_all ts lg d') path = files d path"
    using log_pop_frame [OF assms(1), of path] publish_all_frame [of ts lg d' path] assms(2,3) by simp
  then show "file_bytes path (publish_all ts lg d') = file_bytes path d" by (simp add: file_bytes_def)
  show "can_open (publish_all ts lg d') = can_open d"
    using log_pop_frame [OF assms(1), of path] publish_all_frame [of ts lg d' path] by simp
qed

lemma node_ok_turn:
  assumes node: "node_ok base n L d q p" and lt: "unat (consumer_offset q) < length (L (unat (shard_id p)))"
    and pop: "log_pop (q, d) = (Popped x, q', d')" "q' = q\<lparr>consumer_offset := consumer_offset q + 1\<rparr>"
    and x: "x = L (unat (shard_id p)) ! unat (consumer_offset q)"
    and core: "engine_core x p owner = Some (ts, p', owner')" "step_books x (engines p) = Some (engines p')"
    and q': "log_inv (q', d')" "unat (consumer_offset q + 1) = Suc (unat (consumer_offset q))"
  shows "node_ok base n L (publish_all ts (trade_topic p') d') q' p'"
proof -
  have t: "trade_topic p' = trade_topic p" "shard_id p' = shard_id p" "proc_shards p' = proc_shards p"
    using engine_core_topic [OF core(1)] engine_core_shard [OF core(1)] by simp_all
  have ne: "log_path q' \<noteq> tl_path (trade_topic p)" "checkpoint_path q' \<noteq> tl_path (trade_topic p)"
    using node node_paths [OF node] trades_file_not_shard_log pop(2) by (auto simp: node_ok_def) metis
  have "log_inv (q', publish_all ts (trade_topic p') d')"
    using publish_all_log(1) [of "trade_topic p'" q'] ne t q'(1) by (simp add: apart_def)
  moreover have "run_orders step_books (take (Suc (unat (consumer_offset q))) (L (unat (shard_id p)))) Map.empty =
      Some (engines p')"
    using node core(2) x by (simp add: node_ok_def take_next [OF lt] run_orders_append)
  ultimately show ?thesis using node t q'(2) pop(2) by (simp add: node_ok_def)
qed

lemma en_turn_ok:
  assumes inv: "cluster_inv base n tr w"
  shows "cl_ok_step base n tr w (En_turn i)"
proof (cases "cl_engines w i")
  case None
  then show ?thesis using inv by (simp add: cl_ok_step_def)
next
  case (Some e)
  obtain q p where e: "cl_engines w i = Some (q, p)" using Some by (cases e) simp
  note D = cluster_invD [OF inv]
  have node: "node_ok base n (shard_log n tr) (cl_disk w) q p" by (rule D(6) [OF e])
  let ?k = "unat (shard_id p)"
  let ?L = "shard_log n tr ?k"
  show ?thesis
  proof (cases "unat (consumer_offset q) < length ?L")
    case False
    then have "log_pop (q, cl_disk w) = (Waiting, q, cl_disk w)"
      using log_pop_end [of q "cl_disk w"] node_orders(1) [OF node D(4)] node by (simp add: node_ok_def)
    then show ?thesis using e inv by (simp add: cl_ok_step_def)
  next
    case True
    let ?x = "?L ! unat (consumer_offset q)" and ?q = "q\<lparr>consumer_offset := consumer_offset q + 1\<rparr>"
    obtain d' ts p' owner where pop: "log_pop (q, cl_disk w) = (Popped ?x, ?q, d')"
      and core: "engine_core ?x p (cl_owner w ?k) = Some (ts, p', owner)"
      and st: "step_books ?x (engines p) = Some (engines p')" "log_inv (?q, d')"
      "unat (consumer_offset q + 1) = Suc (unat (consumer_offset q))"
      using turn_pops [OF inv e True] by blast
    let ?d = "publish_all ts (trade_topic p') d'"
    let ?out = "[Handled i ?k (unat (consumer_offset q)) (active p') ts]"
    let ?w = "w\<lparr>cl_engines := (cl_engines w)(i \<mapsto> (?q, p')), cl_owner := (cl_owner w)(?k := owner), cl_disk := ?d\<rparr>"
    have tp: "tl_path (trade_topic p') = trades_file (shard_base base ?k)"
      using engine_core_topic [OF core] node by (simp add: node_ok_def)
    note td = turn_disk [OF pop, where lg = "trade_topic p'" and ts = ts]
    have logs: "file_bytes (log_file (shard_base base j)) ?d = file_bytes (log_file (shard_base base j)) (cl_disk w)" for j
      using td(2) node_paths(1) [OF node] trades_file_not_shard_log [of base ?k j] tp by metis
    have co: "can_open ?d = can_open (cl_disk w)"
      using td(3) node_paths(1) [OF node] trades_file_not_shard_log [of base ?k 0] tp by metis
    have other: "node_ok base n (shard_log n tr) ?d q2 p2" if "cl_engines w j = Some (q2, p2)" "j \<noteq> i" for j q2 p2
    proof (rule node_ok_frame [OF D(6) [OF that(1)]])
      have "checkpoint_path q2 \<noteq> checkpoint_path q" using D(7) [OF that(1) e] that(2) by blast
      then show "files ?d (checkpoint_path q2) = files (cl_disk w) (checkpoint_path q2)"
        using td(1) node_paths(2) [OF D(6) [OF that(1)]] tp by simp
      show "file_bytes (log_path q2) ?d = file_bytes (log_path q2) (cl_disk w)"
        using logs D(6) [OF that(1)] by (simp add: node_ok_def)
    qed (rule co)
    have "cluster_inv base n (tr @ ?out) ?w"
    proof (rule cluster_invI)
      show "can_open (cl_disk ?w) path" for path using D(1) co by simp
      show "list_all valid_order (took (tr @ ?out))" using D(2) by simp
      show "cl_gateways ?w g = Some r \<Longrightarrow> router_ok base n r" for g r using D(3) by simp
      show "shard_holds base j (shard_log n (tr @ ?out) j) (cl_disk ?w)" if "j < unat n" for j
        using D(4) that logs [of j] by (simp add: shard_holds_def)
      show "length (file_bytes (log_file (shard_base base j)) (cl_disk ?w)) < 2 ^ 63" if "j < unat n" for j
        using D(5) [OF that] logs [of j] by simp
      show "node_ok base n (shard_log n (tr @ ?out)) (cl_disk ?w) q2 p2" if "cl_engines ?w j = Some (q2, p2)" for j q2 p2
        using that other node_ok_turn [OF node True pop refl refl core st] by (auto split: if_splits)
      show "cl_engines ?w j = Some (q1, p1) \<Longrightarrow> cl_engines ?w j' = Some (q2, p2) \<Longrightarrow>
          checkpoint_path q1 = checkpoint_path q2 \<Longrightarrow> j = j'" for j j' q1 p1 q2 p2
        using D(7) e by (auto split: if_splits)
    qed
    then show ?thesis using e pop core by (simp add: cl_ok_step_def turn_handle_def Let_def)
  qed
qed

lemma cl_ok_step_all:
  assumes inv: "cluster_inv base n tr w" and "n \<noteq> 0" and ok: "cl_allowed kills base n ev w"
  shows "cl_ok_step base n tr w ev"
proof (cases ev)
  case (Gw_begin g)
  then show ?thesis using gw_begin_ok [OF inv] by simp
next
  case (Gw_order g pad x)
  then show ?thesis using gw_order_ok [OF inv assms(2)] ok by simp
next
  case (Gw_end g)
  have "cluster_inv base n (tr @ []) (w\<lparr>cl_gateways := (cl_gateways w)(g := None)\<rparr>)"
    by (rule cluster_inv_frame [OF inv]) (auto dest: cluster_invD(3) [OF inv] split: if_splits)
  then show ?thesis using Gw_end by (simp add: cl_ok_step_def)
next
  case (En_begin i k rid fd)
  then show ?thesis using en_begin_ok [OF inv] ok by simp
next
  case (En_turn i)
  then show ?thesis using en_turn_ok [OF inv] by simp
next
  case (En_kill i)
  have "cluster_inv base n (tr @ []) (w\<lparr>cl_engines := (cl_engines w)(i := None), cl_owner := f\<rparr>)" for f
    by (rule cluster_inv_frame [OF inv]) (auto dest: cluster_invD(3) [OF inv] split: if_splits)
  then show ?thesis using En_kill inv by (auto simp: cl_ok_step_def split: option.split)
qed

lemma cl_run_inv: "cl_run kills base n tr w \<Longrightarrow> n \<noteq> 0 \<Longrightarrow> cluster_inv base n tr w"
proof (induction rule: cl_run.induct)
  case empty
  then show ?case by (simp add: cluster_inv_init)
next
  case (step tr w ev out w')
  then show ?case using cl_ok_step_all [of base n tr w kills ev] by (simp add: cl_ok_step_def)
qed

text \<open>
  C3: The cluster.  Gateways and engine replicas start, take orders, handle orders and are
  killed in any order.  At every moment the log of a shard holds exactly the orders that
  gateways have taken for its symbols, in the order in which they were taken, by whichever
  gateway; and the books of every live replica are those of the specification on the part of
  its shard's log that it has read.  And nothing can go wrong next: every event that the set-up
  allows is a step of the system, without an exception or undefined behaviour.
\<close>

theorem cluster_consistent:
  assumes "cl_run kills base n tr w" and "n \<noteq> 0"
  shows "(\<forall>k < unat n. shard_holds base k (shard_log n tr k) (cl_disk w)) \<and>
     (\<forall>i q p. cl_engines w i = Some (q, p) \<longrightarrow>
        unat (consumer_offset q) \<le> length (shard_log n tr (unat (shard_id p))) \<and>
        run_orders step_books (take (unat (consumer_offset q)) (shard_log n tr (unat (shard_id p)))) Map.empty =
          Some (engines p)) \<and>
     (\<forall>ev. cl_allowed kills base n ev w \<longrightarrow>
        (\<exists>out w'. cl_step base n ev w = Some (out, w') \<and> cl_run kills base n (tr @ out) w'))"
proof -
  have inv: "cluster_inv base n tr w" by (rule cl_run_inv [OF assms])
  note D = cluster_invD [OF inv]
  have "unat (consumer_offset q) \<le> length (shard_log n tr (unat (shard_id p))) \<and>
      run_orders step_books (take (unat (consumer_offset q)) (shard_log n tr (unat (shard_id p)))) Map.empty =
        Some (engines p)" if "cl_engines w i = Some (q, p)" for i q p
    using node_orders(3) [OF D(6) [OF that] D(4)] D(6) [OF that] by (simp add: node_ok_def)
  moreover have "\<exists>out w'. cl_step base n ev w = Some (out, w') \<and> cl_run kills base n (tr @ out) w'"
    if "cl_allowed kills base n ev w" for ev
    using cl_ok_step_all [OF inv assms(2) that] cl_run.step [OF assms(1) that]
    by (auto simp: cl_ok_step_def split: option.splits)
  ultimately show ?thesis using D(4) by blast
qed

theorem cluster_consistent_witness:
  "\<exists>w w' q p. cl_step ''m'' 4 (Gw_begin 0) cl_init = Some ([], w) \<and>
     cl_step ''m'' 4 (En_begin 1 2 ''r0'' (Some 5)) w = Some ([], w') \<and>
     cl_engines w' 1 = Some (q, p) \<and> engines p = Map.empty \<and> cl_run True ''m'' 4 [] w'"
proof -
  have n: "(4 :: u32) \<noteq> 0" by simp
  have "cl_allowed True ''m'' 4 (Gw_begin 0) cl_init" by simp
  then obtain out w where s1: "cl_step ''m'' 4 (Gw_begin 0) cl_init = Some (out, w)" and r1: "cl_run True ''m'' 4 ([] @ out) w"
    using cluster_consistent [OF cl_run.empty n, THEN conjunct2, THEN conjunct2, rule_format] by blast
  have o: "out = []" "cl_engines w = Map.empty"
    using s1 by (auto simp: cl_init_def split: sum.splits prod.splits)
  have "keeps_others ''m'' empty_disk (cl_disk w)"
    using s1 make_shards_keeps [of "''m''" 0 4 empty_disk]
    by (auto simp: cl_init_def make_router_def split: sum.splits prod.splits)
  then have "files (cl_disk w) (offset_file (shard_base ''m'' 2) ''r0'') = None"
    using offset_file_not_log by (auto simp: keeps_others_def empty_disk_def)
  then have "cl_allowed True ''m'' 4 (En_begin 1 2 ''r0'' (Some 5)) w" using o by simp
  then obtain out' w' where s2: "cl_step ''m'' 4 (En_begin 1 2 ''r0'' (Some 5)) w = Some (out', w')"
    and r2: "cl_run True ''m'' 4 (out @ out') w'"
    using cluster_consistent [OF r1 n, THEN conjunct2, THEN conjunct2, rule_format] by fastforce
  then obtain q p owner d where st: "engine_start ''m'' 2 4 ''r0'' (Some 5) (cl_owner w 2) (cl_disk w) = Inr (q, p, owner, d)"
    and w': "out' = []" "cl_engines w' 1 = Some (q, p)"
    by (auto split: sum.splits)
  have "engines p = Map.empty" using engine_start_facts(2) [OF st] .
  with s1 s2 w' o(1) r2 show ?thesis by auto
qed

end
