(* ===== verification/ClusterTopic.thy ===== *)
theory ClusterTopic
  imports Cluster
begin

text \<open>
  What the cluster of \<open>Cluster\<close> publishes.  The replicas of each shard, seen alone, are the
  processes of \<open>Replicas\<close>, so that at most one of them is active.  A shard's trade log is the
  concatenation of the trades that the specification gives for the log positions handled by
  active replicas.  Without failures these positions are \<open>0, 1, 2, ...\<close>, each once; after a
  failure they continue where the new active replica happens to be.
\<close>

section \<open>The replicas of one shard\<close>

definition procs_of :: "u32 \<Rightarrow> cluster \<Rightarrow> shard_procs" where
  "procs_of k w =
     \<lparr>procs = (\<lambda>i. case cl_engines w i of
                     None \<Rightarrow> None
                   | Some (q, p) \<Rightarrow> if shard_id p = k then Some p else None),
      file_owner = cl_owner w (unat k)\<rparr>"

definition topic_of :: "string \<Rightarrow> u32 \<Rightarrow> TradeLog" where
  "topic_of base k = \<lparr>tl_path = trades_file (shard_base base (unat k))\<rparr>"

lemma procs_of_Some: "(procs (procs_of k w) i = Some p) = (\<exists>q. cl_engines w i = Some (q, p) \<and> shard_id p = k)"
  by (auto simp: procs_of_def split: option.splits)

lemma procs_of_same: "cl_engines w' = cl_engines w \<Longrightarrow> cl_owner w' = cl_owner w \<Longrightarrow> procs_of k w' = procs_of k w"
  by (simp add: procs_of_def)

lemma unat_u32_inj [simp]: "(unat (a :: u32) = unat b) = (a = b)"
  by (simp add: word_unat_eq_iff)

lemma procs_of_other:
  assumes "shard_id p \<noteq> k" and "procs (procs_of k w) i = None"
  shows "procs_of k (w\<lparr>cl_engines := (cl_engines w)(i \<mapsto> (q, p)),
           cl_owner := (cl_owner w)(unat (shard_id p) := owner), cl_disk := d\<rparr>) = procs_of k w"
  using assms by (auto simp: procs_of_def fun_eq_iff split: option.splits)

lemma procs_of_update:
  "procs_of (shard_id p) (w\<lparr>cl_engines := (cl_engines w)(i \<mapsto> (q, p)),
     cl_owner := (cl_owner w)(unat (shard_id p) := owner), cl_disk := d\<rparr>) =
   \<lparr>procs = (procs (procs_of (shard_id p) w))(i \<mapsto> p), file_owner = owner\<rparr>"
  by (auto simp: procs_of_def fun_eq_iff)

lemma procs_of_kill:
  "procs_of k (w\<lparr>cl_engines := (cl_engines w)(i := None), cl_owner := f\<rparr>) =
   \<lparr>procs = (procs (procs_of k w))(i := None), file_owner = f (unat k)\<rparr>"
  by (auto simp: procs_of_def fun_eq_iff)

lemma en_begin_procs:
  assumes r: "procs_reachable k n (topic_of base k) (procs_of k w)"
    and ok: "cl_allowed kills base n (En_begin i k' rid fd) w"
    and st: "cl_step base n (En_begin i k' rid fd) w = Some (out, w')"
  shows "procs_reachable k n (topic_of base k) (procs_of k w')"
proof -
  obtain q p owner d where e: "engine_start base k' n rid fd (cl_owner w (unat k')) (cl_disk w) = Inr (q, p, owner, d)"
    and w': "w' = w\<lparr>cl_engines := (cl_engines w)(i \<mapsto> (q, p)), cl_owner := (cl_owner w)(unat k' := owner), cl_disk := d\<rparr>"
    using st by (auto split: sum.splits)
  note new = engine_start_new [OF e]
  have none: "procs (procs_of k w) i = None" using ok by (simp add: procs_of_def)
  show ?thesis
  proof (cases "k' = k")
    case True
    have "trade_topic p = topic_of base k" using engine_start_split [OF e] True by (auto simp: topic_of_def)
    then have "proc_step k n (topic_of base k) (Begin i fd) (procs_of k w) = Some (procs_of k w')"
      using new(1,4) True procs_of_update [where p = p and w = w and i = i and q = q and owner = owner and d = d] w' by (simp add: procs_of_def)
    moreover have "ll_fd (leader p2) \<noteq> fd" if "fd \<noteq> None" "procs (procs_of k w) j = Some p2" for j p2
      using ok True that by (auto simp: procs_of_Some)
    then have "fresh_fd fd (locks_of (procs_of k w))"
      by (fastforce simp: fresh_fd_def locks_of_def ran_def)
    ultimately show ?thesis by (rule procs_reachable.begins [OF r none, rotated])
  next
    case False
    then show ?thesis using r w' new(1) procs_of_other [where p = p and k = k and w = w and i = i and q = q and owner = owner and d = d] none by simp
  qed
qed

lemma en_turn_procs:
  assumes r: "procs_reachable k n (topic_of base k) (procs_of k w)"
    and st: "cl_step base n (En_turn i) w = Some (out, w')"
  shows "procs_reachable k n (topic_of base k) (procs_of k w')"
proof (cases "w' = w")
  case True
  then show ?thesis using r by simp
next
  case False
  obtain q p x q' d' where e: "cl_engines w i = Some (q, p)" "log_pop (q, cl_disk w) = (Popped x, q', d')"
    "turn_handle i x q q' p d' w = Some (out, w')"
    using st False by (auto split: option.splits pop_result.splits prod.splits)
  obtain ts p' owner where core: "engine_core x p (cl_owner w (unat (shard_id p))) = Some (ts, p', owner)"
    and w': "w' = w\<lparr>cl_engines := (cl_engines w)(i \<mapsto> (q', p')),
      cl_owner := (cl_owner w)(unat (shard_id p) := owner), cl_disk := publish_all ts (trade_topic p') d'\<rparr>"
    using e(3) by (auto simp: turn_handle_def Let_def split: option.splits)
  have sh: "shard_id p' = shard_id p" using engine_core_shard [OF core] by simp
  show ?thesis
  proof (cases "shard_id p = k")
    case True
    then have "proc_step k n (topic_of base k) (Handle i x) (procs_of k w) = Some (procs_of k w')"
      using core e(1) sh w' procs_of_update [where p = p' and w = w and i = i and q = q' and owner = owner] by (simp add: procs_of_def)
    then show ?thesis by (rule procs_reachable.handles [OF r])
  next
    case False
    then have "procs (procs_of k w) i = None" using e(1) by (simp add: procs_of_def)
    then show ?thesis using r w' sh False procs_of_other [where p = p' and k = k and w = w and i = i and q = q' and owner = owner] by simp
  qed
qed

lemma en_kill_procs:
  assumes r: "procs_reachable k n (topic_of base k) (procs_of k w)"
    and st: "cl_step base n (En_kill i) w = Some (out, w')"
  shows "procs_reachable k n (topic_of base k) (procs_of k w')"
proof (cases "cl_engines w i")
  case None
  then show ?thesis using r st by simp
next
  case (Some e)
  obtain q p where e: "cl_engines w i = Some (q, p)" using Some by (cases e) simp
  let ?f = "(cl_owner w)(unat (shard_id p) := destroy_leader_lock (leader p) (cl_owner w (unat (shard_id p))))"
  have w': "w' = w\<lparr>cl_engines := (cl_engines w)(i := None), cl_owner := ?f\<rparr>" using st e by simp
  show ?thesis
  proof (cases "shard_id p = k")
    case True
    then have "proc_step k n (topic_of base k) (Crash i) (procs_of k w) = Some (procs_of k w')"
      using e by (simp add: w' procs_of_kill) (simp add: procs_of_def)
    then show ?thesis by (rule procs_reachable.crashes [OF r])
  next
    case False
    then have "procs (procs_of k w) i = None" using e by (simp add: procs_of_def)
    then have "procs_of k w' = procs_of k w"
      using False unfolding w' procs_of_kill by (simp add: procs_of_def fun_upd_idem)
    then show ?thesis using r by simp
  qed
qed

lemma cl_run_procs: "cl_run kills base n tr w \<Longrightarrow> procs_reachable k n (topic_of base k) (procs_of k w)"
proof (induction rule: cl_run.induct)
  case empty
  have "procs_of k cl_init = \<lparr>procs = Map.empty, file_owner = None\<rparr>" by (simp add: procs_of_def cl_init_def)
  then show ?case by (simp add: procs_reachable.none)
next
  case (step tr w ev out w')
  show ?case
  proof (cases ev)
    case (Gw_begin g)
    then have "cl_engines w' = cl_engines w" "cl_owner w' = cl_owner w"
      using step.hyps(3) by (auto split: sum.splits)
    then show ?thesis using step.IH procs_of_same by metis
  next
    case (Gw_order g pad x)
    then have "cl_engines w' = cl_engines w" "cl_owner w' = cl_owner w"
      using step.hyps(3) by (auto split: option.splits)
    then show ?thesis using step.IH procs_of_same by metis
  next
    case (Gw_end g)
    then have "cl_engines w' = cl_engines w" "cl_owner w' = cl_owner w" using step.hyps(3) by auto
    then show ?thesis using step.IH procs_of_same by metis
  next
    case (En_begin i k' rid fd)
    then show ?thesis using en_begin_procs [OF step.IH] step.hyps(2,3) by blast
  next
    case (En_turn i)
    then show ?thesis using en_turn_procs [OF step.IH] step.hyps(3) by blast
  next
    case (En_kill i)
    then show ?thesis using en_kill_procs [OF step.IH] step.hyps(3) by blast
  qed
qed

text \<open>A replica is active exactly if it owns the lock file of its shard.\<close>

lemma cl_active_owner:
  assumes "cl_run kills base n tr w" and "cl_engines w i = Some (q, p)"
  shows "active p = (ll_fd (leader p) \<noteq> None \<and> ll_fd (leader p) = cl_owner w (unat (shard_id p)))"
    and "active p = ll_held (leader p)"
proof -
  note s = procs_simulated [OF cl_run_procs [OF assms(1), of "shard_id p"]]
  have p: "procs (procs_of (shard_id p) w) i = Some p" using assms(2) by (simp add: procs_of_Some)
  show a: "active p = ll_held (leader p)" using s p flags_okD by blast
  have "held_inv (locks_of (procs_of (shard_id p) w))" using s lock_inv_reachable by (simp add: lock_inv_def)
  then show "active p = (ll_fd (leader p) \<noteq> None \<and> ll_fd (leader p) = cl_owner w (unat (shard_id p)))"
    using p a unfolding held_inv_def by (auto simp: locks_of_def procs_of_def)
qed

lemma cl_fds_distinct:
  assumes "cl_run kills base n tr w" and "cl_engines w i = Some (q, p)" and "cl_engines w j = Some (q', p')"
    and "shard_id p = shard_id p'" and "ll_fd (leader p) \<noteq> None" and "ll_fd (leader p) = ll_fd (leader p')"
  shows "i = j"
proof -
  note s = procs_simulated [OF cl_run_procs [OF assms(1), of "shard_id p"]]
  have "fds_inv (locks_of (procs_of (shard_id p) w))" using s lock_inv_reachable by (simp add: lock_inv_def)
  then show ?thesis using assms(2-6) unfolding fds_inv_def by (auto simp: locks_of_def procs_of_def)
qed

section \<open>One turn of a replica\<close>

text \<open>The trades the specification gives for position \<open>j\<close> of a log.\<close>

definition spec_trades :: "Order list \<Rightarrow> nat \<Rightarrow> Trade list" where
  "spec_trades L j =
     (case run_orders step_books (take j L) Map.empty of None \<Rightarrow> [] | Some m \<Rightarrow> book_trades (L ! j) m)"

lemma spec_trades_append: "j < length L \<Longrightarrow> spec_trades (L @ L') j = spec_trades L j"
  by (simp add: spec_trades_def nth_append cong: option.case_cong)

lemma run_trades_spec:
  assumes "run_orders step_books L Map.empty \<noteq> None"
  shows "run_trades L Map.empty = concat (map (spec_trades L) [0 ..< length L])"
proof -
  have "run_trades xs m = concat (map (spec_trades (ys @ xs)) [length ys ..< length ys + length xs])"
    if "run_orders step_books ys Map.empty = Some m" "run_orders step_books xs m \<noteq> None" for xs ys m
    using that
  proof (induction xs arbitrary: ys m)
    case (Cons x xs)
    then obtain m' where m': "step_books x m = Some m'" by (auto split: option.splits)
    have "run_trades xs m' = concat (map (spec_trades ((ys @ [x]) @ xs)) [length (ys @ [x]) ..< length (ys @ [x]) + length xs])"
      using Cons m' by (intro Cons.IH) (simp_all add: run_orders_append)
    moreover have "spec_trades (ys @ x # xs) (length ys) = book_trades x m"
      using Cons.prems(1) by (simp add: spec_trades_def)
    moreover have "[length ys ..< length ys + length (x # xs)] =
        length ys # [Suc (length ys) ..< Suc (length ys) + length xs]"
      using upt_rec [of "length ys" "length ys + length (x # xs)"] by simp
    ultimately show ?case using m' by simp
  qed simp
  from this [of "[]" Map.empty L] assms show ?thesis by simp
qed

text \<open>The turn of a replica that has an order to read, in full.\<close>

lemma turn_result:
  assumes run: "cl_run kills base n tr w" and n: "n \<noteq> 0" and e: "cl_engines w i = Some (q, p)"
    and lt: "unat (consumer_offset q) < length (shard_log n tr (unat (shard_id p)))"
  shows "\<exists>p' owner d. cl_step base n (En_turn i) w =
      Some ([Handled i (unat (shard_id p)) (unat (consumer_offset q)) (active p')
               (if active p' then spec_trades (shard_log n tr (unat (shard_id p))) (unat (consumer_offset q)) else [])],
            w\<lparr>cl_engines := (cl_engines w)(i \<mapsto> (q\<lparr>consumer_offset := consumer_offset q + 1\<rparr>, p')),
              cl_owner := (cl_owner w)(unat (shard_id p) := owner), cl_disk := d\<rparr>) \<and>
      shard_id p' = shard_id p \<and> promote p (cl_owner w (unat (shard_id p))) = (fst (promote p (cl_owner w (unat (shard_id p)))), owner) \<and>
      active p' = active (fst (promote p (cl_owner w (unat (shard_id p))))) \<and>
      leader p' = leader (fst (promote p (cl_owner w (unat (shard_id p))))) \<and>
      unat (consumer_offset q + 1) = Suc (unat (consumer_offset q)) \<and>
      (\<forall>k. file_bytes (trades_file (shard_base base k)) d =
         file_bytes (trades_file (shard_base base k)) (cl_disk w) @
         (if k = unat (shard_id p) \<and> active p'
          then concat (map enc_trade (spec_trades (shard_log n tr k) (unat (consumer_offset q)))) else []))"
proof -
  let ?k = "unat (shard_id p)" and ?j = "unat (consumer_offset q)"
  let ?L = "shard_log n tr ?k"
  let ?q = "q\<lparr>consumer_offset := consumer_offset q + 1\<rparr>"
  have inv: "cluster_inv base n tr w" by (rule cl_run_inv [OF run n])
  have node: "node_ok base n (shard_log n tr) (cl_disk w) q p" by (rule cluster_invD(6) [OF inv e])
  obtain d' ts p' owner where pop: "log_pop (q, cl_disk w) = (Popped (?L ! ?j), ?q, d')"
    and core: "engine_core (?L ! ?j) p (cl_owner w ?k) = Some (ts, p', owner)"
    and ts: "ts = (if active p' then book_trades (?L ! ?j) (engines p) else [])"
    and s: "unat (consumer_offset q + 1) = Suc ?j"
    using turn_pops [OF inv e lt] by blast
  have ts': "ts = (if active p' then spec_trades ?L ?j else [])"
    using ts node by (simp add: spec_trades_def node_ok_def)
  have lock: "leader p' = leader (fst (promote p (cl_owner w ?k)))" "active p' = active (fst (promote p (cl_owner w ?k)))"
    "owner = snd (promote p (cl_owner w ?k))"
    using engine_core_lock [OF core] by simp_all
  let ?d = "publish_all ts (trade_topic p') d'"
  have tp: "tl_path (trade_topic p') = trades_file (shard_base base ?k)"
    using engine_core_topic [OF core] node by (simp add: node_ok_def)
  have b: "file_bytes (trades_file (shard_base base k)) ?d =
      file_bytes (trades_file (shard_base base k)) (cl_disk w) @ (if k = ?k then concat (map enc_trade ts) else [])" for k
  proof -
    have ne: "trades_file (shard_base base k) \<noteq> checkpoint_path q" using node_paths(2) [OF node] by metis
    have "file_bytes (trades_file (shard_base base k)) d' = file_bytes (trades_file (shard_base base k)) (cl_disk w)"
      using log_pop_frame [OF pop, of "trades_file (shard_base base k)"] ne by blast
    then show ?thesis
      using publish_all_bytes [of "trades_file (shard_base base k)" ts "trade_topic p'" d'] tp
        trades_file_inj [of base k ?k] by (cases "k = ?k") auto
  qed
  have "cl_step base n (En_turn i) w =
      Some ([Handled i ?k ?j (active p') ts],
            w\<lparr>cl_engines := (cl_engines w)(i \<mapsto> (?q, p')), cl_owner := (cl_owner w)(?k := owner), cl_disk := ?d\<rparr>)"
    using e pop core by (simp add: turn_handle_def Let_def)
  then show ?thesis
    using ts' b s lock engine_core_shard [OF core] by (intro exI [of _ p'] exI [of _ owner] exI [of _ ?d]) auto
qed

lemma turn_idle:
  assumes run: "cl_run kills base n tr w" and n: "n \<noteq> 0"
    and "\<And>q p. cl_engines w i = Some (q, p) \<Longrightarrow>
           length (shard_log n tr (unat (shard_id p))) \<le> unat (consumer_offset q)"
  shows "cl_step base n (En_turn i) w = Some ([], w)"
proof (cases "cl_engines w i")
  case (Some e)
  obtain q p where e: "cl_engines w i = Some (q, p)" using Some by (cases e) simp
  have inv: "cluster_inv base n tr w" by (rule cl_run_inv [OF run n])
  have node: "node_ok base n (shard_log n tr) (cl_disk w) q p" by (rule cluster_invD(6) [OF inv e])
  have "log_pop (q, cl_disk w) = (Waiting, q, cl_disk w)"
    using log_pop_end [of q "cl_disk w"] node_orders(1) [OF node cluster_invD(4) [OF inv]] node assms(3) [OF e]
    by (simp add: node_ok_def)
  then show ?thesis using e by simp
qed simp

section \<open>The trade log of a shard\<close>

text \<open>The log positions that active replicas of a shard have handled, in the order of handling.\<close>

fun positions :: "nat \<Rightarrow> cl_out list \<Rightarrow> nat list" where
  "positions k [] = []"
| "positions k (Took x # tr) = positions k tr"
| "positions k (Handled i k' j a ts # tr) = (if k' = k \<and> a then [j] else []) @ positions k tr"

lemma positions_append [simp]: "positions k (tr @ tr') = positions k tr @ positions k tr'"
  by (induction k tr rule: positions.induct) simp_all

text \<open>A step other than a turn handles nothing and leaves the trade logs as they are.\<close>

lemma silent_step:
  assumes inv: "cluster_inv base n tr w" and n: "n \<noteq> 0" and st: "cl_step base n ev w = Some (out, w')"
    and ev: "\<forall>i. ev \<noteq> En_turn i"
  shows "positions k out = [] \<and>
     file_bytes (trades_file (shard_base base k)) (cl_disk w') = file_bytes (trades_file (shard_base base k)) (cl_disk w)"
proof (cases ev)
  case (Gw_begin g)
  obtain qs d where "make_shards base 0 (unat n) (cl_disk w) = Inr (qs, d)"
    "\<And>path. file_bytes path d = file_bytes path (cl_disk w)"
    using make_shards_total [of "cl_disk w" base 0 "unat n"] cluster_invD(1) [OF inv] by blast
  then show ?thesis using st Gw_begin by (auto simp: make_router_def)
next
  case (Gw_order g pad x)
  show ?thesis
  proof (cases "cl_gateways w g")
    case (Some r)
    obtain r' where "router_push pad x (r, cl_disk w) =
        Some (r', fwrite_end (log_file (shard_base base (shard_of n x))) (enc_order pad x) (cl_disk w))"
      using router_push_step [OF cluster_invD(3) [OF inv Some] n] by blast
    then show ?thesis
      using st Gw_order Some trades_file_not_shard_log [of base k "shard_of n x"] by (auto simp: fwrite_end_def)
  qed (use st Gw_order in simp)
next
  case (En_begin i k' rid fd)
  then show ?thesis using st engine_start_new(3) by (auto split: sum.splits)
next
  case (En_kill i)
  then show ?thesis using st by (auto split: option.splits)
qed (use st ev in auto)

definition topics_ok :: "string \<Rightarrow> u32 \<Rightarrow> cl_out list \<Rightarrow> cluster \<Rightarrow> bool" where
  "topics_ok base n tr w =
     (\<forall>k. list_all (\<lambda>j. j < length (shard_log n tr k)) (positions k tr) \<and>
          file_bytes (trades_file (shard_base base k)) (cl_disk w) =
            concat (map enc_trade (concat (map (spec_trades (shard_log n tr k)) (positions k tr)))))"

lemma topics_ok_grow:
  assumes "topics_ok base n tr w" and "positions k out = []"
    and "file_bytes (trades_file (shard_base base k)) (cl_disk w') = file_bytes (trades_file (shard_base base k)) (cl_disk w)"
  shows "list_all (\<lambda>j. j < length (shard_log n (tr @ out) k)) (positions k (tr @ out)) \<and>
     file_bytes (trades_file (shard_base base k)) (cl_disk w') =
       concat (map enc_trade (concat (map (spec_trades (shard_log n (tr @ out) k)) (positions k (tr @ out)))))"
proof -
  have l: "\<forall>j \<in> set (positions k tr). j < length (shard_log n tr k)"
    using assms(1) by (simp add: topics_ok_def list_all_iff)
  then have "map (spec_trades (shard_log n (tr @ out) k)) (positions k tr) =
      map (spec_trades (shard_log n tr k)) (positions k tr)"
    by (simp add: shard_log_append spec_trades_append)
  moreover have "file_bytes (trades_file (shard_base base k)) (cl_disk w) =
      concat (map enc_trade (concat (map (spec_trades (shard_log n tr k)) (positions k tr))))"
    using assms(1) by (simp add: topics_ok_def)
  moreover have "\<forall>j \<in> set (positions k tr). j < length (shard_log n (tr @ out) k)"
    using l by (auto simp: shard_log_append)
  ultimately show ?thesis using assms(2,3) by (simp only: positions_append append_Nil2 list_all_iff)
qed

lemma topics_ok_turn:
  assumes run: "cl_run kills base n tr w" and n: "n \<noteq> 0" and ok: "topics_ok base n tr w"
    and st: "cl_step base n (En_turn i) w = Some (out, w')"
  shows "topics_ok base n (tr @ out) w'"
proof (cases "\<exists>q p. cl_engines w i = Some (q, p) \<and>
    unat (consumer_offset q) < length (shard_log n tr (unat (shard_id p)))")
  case False
  then have "cl_step base n (En_turn i) w = Some ([], w)"
    by (intro turn_idle [OF run n]) (use not_less in blast)
  then show ?thesis using st ok by simp
next
  case True
  then obtain q p where e: "cl_engines w i = Some (q, p)"
    and lt: "unat (consumer_offset q) < length (shard_log n tr (unat (shard_id p)))" by blast
  let ?k = "unat (shard_id p)" and ?j = "unat (consumer_offset q)"
  obtain p' owner d where r: "cl_step base n (En_turn i) w =
      Some ([Handled i ?k ?j (active p') (if active p' then spec_trades (shard_log n tr ?k) ?j else [])],
            w\<lparr>cl_engines := (cl_engines w)(i \<mapsto> (q\<lparr>consumer_offset := consumer_offset q + 1\<rparr>, p')),
              cl_owner := (cl_owner w)(?k := owner), cl_disk := d\<rparr>)"
    and b: "\<And>k. file_bytes (trades_file (shard_base base k)) d =
         file_bytes (trades_file (shard_base base k)) (cl_disk w) @
         (if k = ?k \<and> active p' then concat (map enc_trade (spec_trades (shard_log n tr k) ?j)) else [])"
    using turn_result [OF run n e lt] by blast
  have log: "shard_log n (tr @ out) = shard_log n tr" using st r by (intro shard_log_silent) simp
  show ?thesis
    unfolding topics_ok_def log
  proof (intro allI)
    fix k
    have "positions k out = (if k = ?k \<and> active p' then [?j] else [])" "cl_disk w' = d"
      using st r by auto
    then show "list_all (\<lambda>j. j < length (shard_log n tr k)) (positions k (tr @ out)) \<and>
        file_bytes (trades_file (shard_base base k)) (cl_disk w') =
          concat (map enc_trade (concat (map (spec_trades (shard_log n tr k)) (positions k (tr @ out)))))"
      using ok lt b [of k] by (auto simp: topics_ok_def)
  qed
qed

lemma cl_run_topics: "cl_run kills base n tr w \<Longrightarrow> n \<noteq> 0 \<Longrightarrow> topics_ok base n tr w"
proof (induction rule: cl_run.induct)
  case empty
  then show ?case by (simp add: topics_ok_def cl_init_def empty_disk_def file_bytes_def)
next
  case (step tr w ev out w')
  show ?case
  proof (cases "\<exists>i. ev = En_turn i")
    case True
    then show ?thesis using topics_ok_turn step by blast
  next
    case False
    note silent = silent_step [OF cl_run_inv [OF step.hyps(1) step.prems] step.prems step.hyps(3)]
    have "topics_ok base n tr w" using step.IH step.prems by blast
    from topics_ok_grow [OF this, where out = out and w' = w'] silent False show ?thesis
      unfolding topics_ok_def by blast
  qed
qed

section \<open>Without failures\<close>

text \<open>
  While no replica is killed: as long as the lock of a shard has no owner, nobody can take it
  any more but a replica that starts; its owner has been active from the first order on.
\<close>

definition first_active :: "cl_out list \<Rightarrow> cluster \<Rightarrow> nat \<Rightarrow> bool" where
  "first_active tr w k =
     (case cl_owner w k of
        None \<Rightarrow> positions k tr = [] \<and>
          (\<forall>i q p. cl_engines w i = Some (q, p) \<longrightarrow> unat (shard_id p) = k \<longrightarrow> ll_fd (leader p) = None)
      | Some fd \<Rightarrow> \<exists>i q p. cl_engines w i = Some (q, p) \<and> unat (shard_id p) = k \<and>
          ll_fd (leader p) = Some fd \<and> positions k tr = [0 ..< unat (consumer_offset q)])"

lemma promote_idle:
  assumes "\<not> active p" and "\<not> ll_held (leader p)"
    and "ll_fd (leader p) = None \<or> (owner \<noteq> None \<and> ll_fd (leader p) \<noteq> owner)"
  shows "\<not> active (fst (promote p owner))" and "leader (fst (promote p owner)) = leader p"
    and "snd (promote p owner) = owner"
  using assms by (auto simp: promote_def try_acquire_def flock_nb_def Let_def split: option.splits)

lemma make_proc_lock:
  assumes "make_proc k n (make_leader_lock fd) lg owner = (p, owner')"
  shows "ll_fd (leader p) = fd" and "owner' = (if owner = None then fd else owner)"
    and "shard_id p = k"
  using assms
  by (auto simp: make_proc_def make_leader_lock_def try_acquire_def flock_nb_def Let_def
      split: option.splits if_splits)

lemma first_active_begin:
  assumes run: "cl_run False base n tr w" and n: "n \<noteq> 0" and IH: "first_active tr w k"
    and ok: "cl_allowed False base n (En_begin i k' rid fd) w"
    and st: "cl_step base n (En_begin i k' rid fd) w = Some (out, w')"
  shows "first_active (tr @ out) w' k"
proof -
  obtain q p owner d where e: "engine_start base k' n rid fd (cl_owner w (unat k')) (cl_disk w) = Inr (q, p, owner, d)"
    and z: "consumer_offset q = 0"
    using node_ok_start [OF cl_run_inv [OF run n] ok] by blast
  have w': "out = []" "cl_engines w' = (cl_engines w)(i \<mapsto> (q, p))" "cl_owner w' = (cl_owner w)(unat k' := owner)"
    using st e by auto
  note lock = make_proc_lock [OF engine_start_new(4) [OF e]]
  have old: "cl_engines w j = Some e \<Longrightarrow> j \<noteq> i" for j e using ok by auto
  show ?thesis
  proof (cases "cl_owner w k")
    case None
    have pos: "positions k tr = []"
      and free: "\<And>j q2 p2. cl_engines w j = Some (q2, p2) \<Longrightarrow> unat (shard_id p2) = k \<Longrightarrow> ll_fd (leader p2) = None"
      using IH None by (simp_all add: first_active_def)
    show ?thesis
    proof (cases "unat k' = k \<and> fd \<noteq> None")
      case True
      then obtain f where f: "fd = Some f" "unat k' = k" by blast
      then show ?thesis
        using w' lock z pos None by (auto simp: first_active_def)
    next
      case False
      then have o': "cl_owner w' k = None" using w'(3) lock(2) None by auto
      have "ll_fd (leader p2) = None" if "cl_engines w' j = Some (q2, p2)" "unat (shard_id p2) = k" for j q2 p2
        using that w'(2) free lock(1,3) False by (cases "j = i") auto
      then show ?thesis using o' pos w'(1) by (simp add: first_active_def)
    qed
  next
    case (Some f)
    then obtain j q2 p2 where j: "cl_engines w j = Some (q2, p2)" "unat (shard_id p2) = k"
      "ll_fd (leader p2) = Some f" "positions k tr = [0 ..< unat (consumer_offset q2)]"
      using IH by (auto simp: first_active_def)
    moreover have "cl_owner w' k = Some f" using w'(3) lock(2) Some by auto
    ultimately show ?thesis using w'(1,2) old [OF j(1)] by (auto simp: first_active_def)
  qed
qed

text \<open>The state after a turn, and the turn of the owner of the lock, of another replica, of another shard.\<close>

definition turned :: "nat \<Rightarrow> LogBackedOrderQueue \<Rightarrow> engine_proc \<Rightarrow> engine_proc \<Rightarrow> cl_out list \<Rightarrow> cluster \<Rightarrow> cluster \<Rightarrow> bool" where
  "turned i q p p' out w w' =
     (let k = unat (shard_id p); pr = promote p (cl_owner w k)
      in cl_engines w' = (cl_engines w)(i \<mapsto> (q\<lparr>consumer_offset := consumer_offset q + 1\<rparr>, p')) \<and>
         cl_owner w' = (cl_owner w)(k := snd pr) \<and> shard_id p' = shard_id p \<and>
         active p' = active (fst pr) \<and> leader p' = leader (fst pr) \<and>
         unat (consumer_offset q + 1) = Suc (unat (consumer_offset q)) \<and>
         took out = [] \<and>
         (\<forall>j. positions j out = (if j = k \<and> active p' then [unat (consumer_offset q)] else [])))"

lemma turn_turned:
  assumes "cl_run kills base n tr w" and "n \<noteq> 0" and "cl_engines w i = Some (q, p)"
    and "unat (consumer_offset q) < length (shard_log n tr (unat (shard_id p)))"
    and "cl_step base n (En_turn i) w = Some (out, w')"
  shows "\<exists>p'. turned i q p p' out w w'"
proof -
  let ?k = "unat (shard_id p)" and ?j = "unat (consumer_offset q)"
  obtain p' owner d where r: "cl_step base n (En_turn i) w =
      Some ([Handled i ?k ?j (active p') (if active p' then spec_trades (shard_log n tr ?k) ?j else [])],
            w\<lparr>cl_engines := (cl_engines w)(i \<mapsto> (q\<lparr>consumer_offset := consumer_offset q + 1\<rparr>, p')),
              cl_owner := (cl_owner w)(?k := owner), cl_disk := d\<rparr>)"
    and p': "shard_id p' = shard_id p" "owner = snd (promote p (cl_owner w ?k))"
      "active p' = active (fst (promote p (cl_owner w ?k)))" "leader p' = leader (fst (promote p (cl_owner w ?k)))"
    and s: "unat (consumer_offset q + 1) = Suc ?j"
    using turn_result [OF assms(1-4)] by (metis snd_conv)
  then show ?thesis using assms(5) by (intro exI [of _ p']) (auto simp: turned_def Let_def)
qed

lemma first_active_other:
  assumes "first_active tr w k" and e: "cl_engines w i = Some (q, p)" and t: "turned i q p p' out w w'"
    and "k \<noteq> unat (shard_id p)"
  shows "first_active (tr @ out) w' k"
proof -
  have old: "(cl_engines w' j = Some (q2, p2) \<and> unat (shard_id p2) = k) =
      (cl_engines w j = Some (q2, p2) \<and> unat (shard_id p2) = k)" for j q2 p2
    using t e assms(4) by (auto simp: turned_def Let_def)
  have "cl_owner w' k = cl_owner w k" "positions k (tr @ out) = positions k tr"
    using t assms(4) by (simp_all add: turned_def Let_def)
  then show ?thesis
    using assms(1) unfolding first_active_def by (simp only: conj_assoc [symmetric] imp_conjL [symmetric] old)
qed

lemma first_active_owner:
  assumes run: "cl_run kills base n tr w" and IH: "first_active tr w (unat (shard_id p))"
    and e: "cl_engines w i = Some (q, p)" and t: "turned i q p p' out w w'" and act: "active p"
  shows "first_active (tr @ out) w' (unat (shard_id p))"
proof -
  let ?k = "unat (shard_id p)"
  obtain f where f: "cl_owner w ?k = Some f" "ll_fd (leader p) = Some f"
    using cl_active_owner(1) [OF run e] act by (cases "cl_owner w ?k") auto
  obtain j q2 p2 where j: "cl_engines w j = Some (q2, p2)" "unat (shard_id p2) = ?k"
    "ll_fd (leader p2) = Some f" "positions ?k tr = [0 ..< unat (consumer_offset q2)]"
    using IH f by (auto simp: first_active_def)
  have "i = j" using cl_fds_distinct [OF run e j(1)] j(2,3) f(2) by simp
  then have "positions ?k tr = [0 ..< unat (consumer_offset q)]" using j e by simp
  moreover have "promote p (cl_owner w ?k) = (p, cl_owner w ?k)" using act by (simp add: promote_def)
  ultimately show ?thesis using t act f by (auto simp: first_active_def turned_def Let_def)
qed

lemma first_active_standby:
  assumes run: "cl_run kills base n tr w" and IH: "first_active tr w (unat (shard_id p))"
    and e: "cl_engines w i = Some (q, p)" and t: "turned i q p p' out w w'" and act: "\<not> active p"
  shows "first_active (tr @ out) w' (unat (shard_id p))"
proof -
  let ?k = "unat (shard_id p)"
  note owner = cl_active_owner [OF run e]
  have "ll_fd (leader p) = None \<or> (cl_owner w ?k \<noteq> None \<and> ll_fd (leader p) \<noteq> cl_owner w ?k)"
    using IH e owner(1) act by (cases "cl_owner w ?k") (auto simp: first_active_def)
  note idle = promote_idle [OF act _ this]
  have same: "cl_owner w' ?k = cl_owner w ?k" "positions ?k (tr @ out) = positions ?k tr"
    "leader p' = leader p" "cl_engines w' = (cl_engines w)(i \<mapsto> (q\<lparr>consumer_offset := consumer_offset q + 1\<rparr>, p'))"
    using t idle act owner(2) by (simp_all add: turned_def Let_def)
  show ?thesis
  proof (cases "cl_owner w ?k")
    case None
    have "ll_fd (leader p2) = None" if "cl_engines w' j = Some (q2, p2)" "unat (shard_id p2) = ?k" for j q2 p2
    proof -
      have free: "cl_engines w i = Some (q, p) \<Longrightarrow> unat (shard_id p) = ?k \<Longrightarrow> ll_fd (leader p) = None" for i q p
        using IH None unfolding first_active_def by auto
      have "ll_fd (leader p') = None" using free [OF e] same(3) by simp
      then show ?thesis using that same(4) free [of j q2 p2] by (auto split: if_splits)
    qed
    then show ?thesis using None IH same(1,2) by (simp add: first_active_def)
  next
    case (Some f)
    then obtain j q2 p2 where j: "cl_engines w j = Some (q2, p2)" "unat (shard_id p2) = ?k"
      "ll_fd (leader p2) = Some f" "positions ?k tr = [0 ..< unat (consumer_offset q2)]"
      using IH by (auto simp: first_active_def)
    have "j \<noteq> i" using j e Some owner(1) act by auto
    then show ?thesis using j same Some by (auto simp: first_active_def)
  qed
qed

lemma first_active_turn:
  assumes run: "cl_run kills base n tr w" and n: "n \<noteq> 0" and IH: "first_active tr w k"
    and st: "cl_step base n (En_turn i) w = Some (out, w')"
  shows "first_active (tr @ out) w' k"
proof (cases "\<exists>q p. cl_engines w i = Some (q, p) \<and>
    unat (consumer_offset q) < length (shard_log n tr (unat (shard_id p)))")
  case False
  then have "cl_step base n (En_turn i) w = Some ([], w)"
    by (intro turn_idle [OF run n]) (use not_less in blast)
  then show ?thesis using st IH by simp
next
  case True
  then obtain q p where e: "cl_engines w i = Some (q, p)"
    and lt: "unat (consumer_offset q) < length (shard_log n tr (unat (shard_id p)))" by blast
  obtain p' where t: "turned i q p p' out w w'" using turn_turned [OF run n e lt st] by blast
  show ?thesis
    using first_active_other [OF IH e t] first_active_owner [OF run _ e t] first_active_standby [OF run _ e t] IH
    by (cases "k = unat (shard_id p)"; cases "active p") auto
qed

lemma cl_run_first_active: "cl_run False base n tr w \<Longrightarrow> n \<noteq> 0 \<Longrightarrow> first_active tr w k"
proof (induction rule: cl_run.induct)
  case empty
  then show ?case by (simp add: first_active_def cl_init_def)
next
  case (step tr w ev out w')
  note IH = step.IH [OF step.prems] and run = step.hyps(1)
  have gw: "first_active (tr @ out) w' k"
    if "cl_engines w' = cl_engines w" "cl_owner w' = cl_owner w" "positions k out = []"
    using IH that unfolding first_active_def by (simp only: positions_append append_Nil2)
  show ?case
  proof (cases ev)
    case (Gw_begin g)
    then show ?thesis using step.hyps(3) by (intro gw) (auto split: sum.splits)
  next
    case (Gw_order g pad x)
    then show ?thesis using step.hyps(3) by (intro gw) (auto split: option.splits)
  next
    case (Gw_end g)
    then show ?thesis using step.hyps(3) by (intro gw) auto
  next
    case (En_begin i k' rid fd)
    then show ?thesis using first_active_begin [OF run step.prems IH] step.hyps(2,3) by blast
  next
    case (En_turn i)
    then show ?thesis using first_active_turn [OF run step.prems IH] step.hyps(3) by blast
  next
    case (En_kill i)
    then show ?thesis using step.hyps(2) by simp
  qed
qed

end
