(* ===== verification/ClusterProps.thy ===== *)
theory ClusterProps
  imports ClusterTopic
begin

text \<open>
  What subscribers can rely on: trades are those of the specification, each once and in order
  while no replica dies.  And what happens at a failover: the standby of a shard reads the log at
  its own pace, and nothing relates its position to the last order whose trades the old active
  replica published.  The runs that show it are constructed here: for any two positions there
  is a schedule in which the active replica is killed at the first while the standby is at the
  second.
\<close>

section \<open>Extending a run\<close>

lemma cl_run_progress:
  assumes "cl_run kills base n tr w" and "n \<noteq> 0" and "cl_allowed kills base n ev w"
  shows "\<exists>out w'. cl_step base n ev w = Some (out, w') \<and> cl_run kills base n (tr @ out) w'"
  using cl_ok_step_all [OF cl_run_inv [OF assms(1,2)] assms(2,3)] cl_run.step [OF assms(1,3)]
  by (auto simp: cl_ok_step_def split: option.splits)

text \<open>A gateway takes a sequence of orders.\<close>

lemma orders_taken:
  assumes n: "n \<noteq> 0"
  shows "cl_run kills base n tr w \<Longrightarrow> cl_gateways w g = Some r \<Longrightarrow>
     list_all order_wf xs \<Longrightarrow> list_all valid_order xs \<Longrightarrow> length (took tr) + length xs < 2 ^ 57 \<Longrightarrow>
     \<exists>w'. cl_run kills base n (tr @ map Took xs) w' \<and> cl_engines w' = cl_engines w \<and> cl_owner w' = cl_owner w"
proof (induction xs arbitrary: tr w r)
  case Nil
  then show ?case by auto
next
  case (Cons x xs)
  let ?k = "shard_of n x"
  have inv: "cluster_inv base n tr w" by (rule cl_run_inv [OF Cons.prems(1) n])
  have "shard_holds base ?k (shard_log n tr ?k) (cl_disk w)"
    using cluster_invD(4) [OF inv] shard_of_less [OF n] by blast
  then have "length (file_bytes (log_file (shard_base base ?k)) (cl_disk w)) = length (shard_log n tr ?k) * 64"
    by (simp add: shard_holds_def log_holds_def sizeof_Order_value)
  moreover have "length (shard_log n tr ?k) \<le> length (took tr)" by (simp add: shard_log_def)
  ultimately have ok: "cl_allowed kills base n (Gw_order g 0 x) w"
    using Cons.prems(3-5) by (simp add: sizeof_Order_value)
  obtain out w1 where s: "cl_step base n (Gw_order g 0 x) w = Some (out, w1)" "cl_run kills base n (tr @ out) w1"
    using cl_run_progress [OF Cons.prems(1) n ok] by blast
  then obtain r1 where w1: "out = [Took x]" "cl_gateways w1 g = Some r1" "cl_engines w1 = cl_engines w"
    "cl_owner w1 = cl_owner w"
    using Cons.prems(2) by (auto split: option.splits)
  obtain w' where "cl_run kills base n ((tr @ [Took x]) @ map Took xs) w'" "cl_engines w' = cl_engines w1"
    "cl_owner w' = cl_owner w1"
    using Cons.IH [of "tr @ [Took x]" w1 r1] s w1 Cons.prems(3-5) by auto
  then show ?case using w1 by auto
qed

lemma took_map [simp]: "took (map Took xs) = xs" "positions k (map Took xs) = []"
  by (induction xs) simp_all

text \<open>What \<open>m\<close> turns of replica \<open>i\<close> lead to, with the positions they handle as active replica.\<close>

definition after_turns ::
  "bool \<Rightarrow> string \<Rightarrow> u32 \<Rightarrow> nat \<Rightarrow> nat \<Rightarrow> nat list \<Rightarrow> cl_out list \<Rightarrow> cluster \<Rightarrow> cluster \<Rightarrow> LogBackedOrderQueue \<Rightarrow>
     engine_proc \<Rightarrow> cl_out list \<Rightarrow> bool" where
  "after_turns kills base n i off js tr w w' q' p' out =
     (cl_run kills base n (tr @ out) w' \<and> took out = [] \<and> positions (unat (shard_id p')) out = js \<and>
      cl_engines w' = (cl_engines w)(i \<mapsto> (q', p')) \<and> unat (consumer_offset q') = off)"

lemma turns_active:
  assumes n: "n \<noteq> 0"
  shows "cl_run kills base n tr w \<Longrightarrow> cl_engines w i = Some (q, p) \<Longrightarrow>
     active (fst (promote p (cl_owner w (unat (shard_id p))))) \<Longrightarrow>
     unat (consumer_offset q) + m \<le> length (shard_log n tr (unat (shard_id p))) \<Longrightarrow>
     \<exists>out w' q' p'. after_turns kills base n i (unat (consumer_offset q) + m)
         [unat (consumer_offset q) ..< unat (consumer_offset q) + m] tr w w' q' p' out \<and>
       shard_id p' = shard_id p \<and> active (fst (promote p' (cl_owner w' (unat (shard_id p))))) \<and>
       (active p \<longrightarrow> active p')"
proof (induction m arbitrary: tr w q p)
  case 0
  then show ?case
    by (intro exI [of _ "[]"] exI [of _ w] exI [of _ q] exI [of _ p]) (simp add: after_turns_def fun_upd_idem)
next
  case (Suc m)
  let ?k = "unat (shard_id p)" and ?j = "unat (consumer_offset q)"
  have lt: "?j < length (shard_log n tr ?k)" using Suc.prems(4) by simp
  obtain out w1 where s: "cl_step base n (En_turn i) w = Some (out, w1)" and r1: "cl_run kills base n (tr @ out) w1"
    using cl_run_progress [OF Suc.prems(1) n, of "En_turn i"] by auto
  obtain p1 where t: "turned i q p p1 out w w1" using turn_turned [OF Suc.prems(1) n Suc.prems(2) lt s] by blast
  let ?q = "q\<lparr>consumer_offset := consumer_offset q + 1\<rparr>"
  have p1: "active p1" "shard_id p1 = shard_id p" "took out = []" "positions ?k out = [?j]"
    "cl_engines w1 = (cl_engines w)(i \<mapsto> (?q, p1))" "unat (consumer_offset ?q) = Suc ?j"
    using t Suc.prems(3) by (simp_all add: turned_def Let_def)
  then have e1: "cl_engines w1 i = Some (?q, p1)" by simp
  have a1: "active (fst (promote p1 (cl_owner w1 (unat (shard_id p1)))))" using p1(1) by (simp add: promote_def)
  have l1: "unat (consumer_offset ?q) + m \<le> length (shard_log n (tr @ out) (unat (shard_id p1)))"
    using Suc.prems(4) p1(2,3,6) by simp
  obtain out' w' q' p' where IH: "after_turns kills base n i (Suc ?j + m) [Suc ?j ..< Suc ?j + m] (tr @ out) w1 w' q' p' out'"
    "shard_id p' = shard_id p1" "active (fst (promote p' (cl_owner w' (unat (shard_id p1)))))" "active p'"
    using Suc.IH [OF r1 e1 a1 l1] p1(1) unfolding p1(6) by blast
  have "?j # [Suc ?j ..< Suc ?j + m] = [?j ..< ?j + Suc m]" using upt_conv_Cons [of ?j "?j + Suc m"] by simp
  then show ?case
    using IH p1 by (intro exI [of _ "out @ out'"] exI [of _ w'] exI [of _ q'] exI [of _ p'])
      (simp add: after_turns_def)
qed

lemma turns_standby:
  assumes n: "n \<noteq> 0"
  shows "cl_run kills base n tr w \<Longrightarrow> cl_engines w i = Some (q, p) \<Longrightarrow> \<not> active p \<Longrightarrow>
     cl_owner w (unat (shard_id p)) \<noteq> None \<Longrightarrow>
     unat (consumer_offset q) + m \<le> length (shard_log n tr (unat (shard_id p))) \<Longrightarrow>
     \<exists>out w' q' p'. after_turns kills base n i (unat (consumer_offset q) + m) [] tr w w' q' p' out \<and>
       shard_id p' = shard_id p \<and> \<not> active p' \<and> leader p' = leader p \<and> cl_owner w' = cl_owner w"
proof (induction m arbitrary: tr w q p)
  case 0
  then show ?case
    by (intro exI [of _ "[]"] exI [of _ w] exI [of _ q] exI [of _ p]) (simp add: after_turns_def fun_upd_idem)
next
  case (Suc m)
  let ?k = "unat (shard_id p)" and ?j = "unat (consumer_offset q)"
  have lt: "?j < length (shard_log n tr ?k)" using Suc.prems(5) by simp
  obtain out w1 where s: "cl_step base n (En_turn i) w = Some (out, w1)" and r1: "cl_run kills base n (tr @ out) w1"
    using cl_run_progress [OF Suc.prems(1) n, of "En_turn i"] by auto
  obtain p1 where t: "turned i q p p1 out w w1" using turn_turned [OF Suc.prems(1) n Suc.prems(2) lt s] by blast
  let ?q = "q\<lparr>consumer_offset := consumer_offset q + 1\<rparr>"
  note own = cl_active_owner [OF Suc.prems(1,2)]
  have idle: "\<not> active (fst (promote p (cl_owner w ?k)))" "leader (fst (promote p (cl_owner w ?k))) = leader p"
    "snd (promote p (cl_owner w ?k)) = cl_owner w ?k"
    using promote_idle [of p "cl_owner w ?k"] own Suc.prems(3,4) by auto
  have p1: "\<not> active p1" "shard_id p1 = shard_id p" "leader p1 = leader p" "took out = []" "positions ?k out = []"
    "cl_engines w1 = (cl_engines w)(i \<mapsto> (?q, p1))" "unat (consumer_offset ?q) = Suc ?j" "cl_owner w1 = cl_owner w"
    using t idle by (simp_all add: turned_def Let_def)
  then have e1: "cl_engines w1 i = Some (?q, p1)" by simp
  have o1: "cl_owner w1 (unat (shard_id p1)) \<noteq> None" using p1 Suc.prems(4) by simp
  have l1: "unat (consumer_offset ?q) + m \<le> length (shard_log n (tr @ out) (unat (shard_id p1)))"
    using Suc.prems(5) p1 by simp
  obtain out' w' q' p' where IH: "after_turns kills base n i (Suc ?j + m) [] (tr @ out) w1 w' q' p' out'"
    "shard_id p' = shard_id p1" "\<not> active p'" "leader p' = leader p1" "cl_owner w' = cl_owner w1"
    using Suc.IH [OF r1 e1 p1(1) o1 l1] unfolding p1(7) by blast
  then show ?case
    using p1 by (intro exI [of _ "out @ out'"] exI [of _ w'] exI [of _ q'] exI [of _ p'])
      (simp add: after_turns_def)
qed

section \<open>Two replicas and a gateway\<close>

lemma begin_replica:
  assumes run: "cl_run kills base n tr w" and n: "n \<noteq> 0" and ok: "cl_allowed kills base n (En_begin i k rid fd) w"
  shows "\<exists>w' q p. cl_run kills base n tr w' \<and> cl_engines w' = (cl_engines w)(i \<mapsto> (q, p)) \<and>
     cl_owner w' (unat k) = (if cl_owner w (unat k) = None then fd else cl_owner w (unat k)) \<and>
     shard_id p = k \<and> ll_fd (leader p) = fd \<and> consumer_offset q = 0 \<and>
     checkpoint_path q = offset_file (shard_base base (unat k)) rid \<and>
     (\<forall>rid'. files (cl_disk w') (offset_file (shard_base base (unat k)) rid') =
        files (cl_disk w) (offset_file (shard_base base (unat k)) rid'))"
proof -
  obtain q p owner d where e: "engine_start base k n rid fd (cl_owner w (unat k)) (cl_disk w) = Inr (q, p, owner, d)"
    and z: "consumer_offset q = 0"
    using node_ok_start [OF cl_run_inv [OF run n] ok] by blast
  note lock = make_proc_lock [OF engine_start_new(4) [OF e]] and fr = engine_start_frame [OF e]
  let ?w = "w\<lparr>cl_engines := (cl_engines w)(i \<mapsto> (q, p)), cl_owner := (cl_owner w)(unat k := owner), cl_disk := d\<rparr>"
  have "cl_run kills base n (tr @ []) ?w" by (rule cl_run.step [OF run ok]) (simp add: e)
  moreover have "files d (offset_file (shard_base base (unat k)) rid') =
      files (cl_disk w) (offset_file (shard_base base (unat k)) rid')" for rid'
    by (rule fr(3)) (rule offset_file_not_log, rule offset_file_not_trades)
  ultimately show ?thesis
    using lock fr(2) z by (intro exI [of _ ?w] exI [of _ q] exI [of _ p]) auto
qed

lemma two_replicas:
  "\<exists>w q0 p0 q1 p1 r. cl_run kills base 1 [] w \<and> cl_engines w = [0 \<mapsto> (q0, p0), 1 \<mapsto> (q1, p1)] \<and>
     shard_id p0 = 0 \<and> shard_id p1 = 0 \<and> consumer_offset q0 = 0 \<and> consumer_offset q1 = 0 \<and>
     ll_fd (leader p0) = Some 0 \<and> ll_fd (leader p1) = Some 1 \<and> cl_owner w 0 = Some 0 \<and> cl_gateways w 0 = Some r"
proof -
  have n: "(1 :: u32) \<noteq> 0" by simp
  have ok0: "cl_allowed kills base 1 (En_begin 0 0 ''a'' (Some 0)) cl_init"
    by (simp add: cl_init_def empty_disk_def)
  obtain w1 q0 p0 where r1: "cl_run kills base 1 [] w1" and e1: "cl_engines w1 = (cl_engines cl_init)(0 \<mapsto> (q0, p0))"
    and o1: "cl_owner w1 (unat (0 :: u32)) =
      (if cl_owner cl_init (unat (0 :: u32)) = None then Some 0 else cl_owner cl_init (unat (0 :: u32)))"
    and p0: "shard_id p0 = 0" "ll_fd (leader p0) = Some 0" "consumer_offset q0 = 0"
    and c0: "checkpoint_path q0 = offset_file (shard_base base (unat (0 :: u32))) ''a''"
    and f0: "\<forall>rid. files (cl_disk w1) (offset_file (shard_base base (unat (0 :: u32))) rid) =
      files (cl_disk cl_init) (offset_file (shard_base base (unat (0 :: u32))) rid)"
    using begin_replica [OF cl_run.empty n ok0] by blast
  have "offset_file b ''a'' \<noteq> offset_file b ''b''" for b by (simp add: offset_file_def)
  then have ok1: "cl_allowed kills base 1 (En_begin 1 0 ''b'' (Some 1)) w1"
    using e1 c0 f0 p0(2) by (auto simp: cl_init_def empty_disk_def)
  obtain w2 q1 p1 where r2: "cl_run kills base 1 [] w2" and e2: "cl_engines w2 = (cl_engines w1)(1 \<mapsto> (q1, p1))"
    and o2: "cl_owner w2 (unat (0 :: u32)) =
      (if cl_owner w1 (unat (0 :: u32)) = None then Some 1 else cl_owner w1 (unat (0 :: u32)))"
    and p1: "shard_id p1 = 0" "ll_fd (leader p1) = Some 1" "consumer_offset q1 = 0"
    using begin_replica [OF r1 n ok1] by blast
  obtain out w3 where s3: "cl_step base 1 (Gw_begin 0) w2 = Some (out, w3)" "cl_run kills base 1 ([] @ out) w3"
    using cl_run_progress [OF r2 n, of "Gw_begin 0"] by auto
  then obtain r where "out = []" "cl_engines w3 = cl_engines w2" "cl_owner w3 = cl_owner w2" "cl_gateways w3 0 = Some r"
    by (auto split: sum.splits)
  then show ?thesis
    using s3(2) e1 e2 o1 o2 p0 p1
    by (intro exI [of _ w3] exI [of _ q0] exI [of _ p0] exI [of _ q1] exI [of _ p1] exI [of _ r])
      (simp add: cl_init_def)
qed

text \<open>Killing the owner of the lock frees it.\<close>

lemma kill_owner:
  assumes run: "cl_run True base n tr w" and e: "cl_engines w i = Some (q, p)" and act: "active p"
  shows "\<exists>w'. cl_run True base n tr w' \<and> cl_engines w' = (cl_engines w)(i := None) \<and>
     cl_owner w' (unat (shard_id p)) = None"
proof -
  let ?w = "w\<lparr>cl_engines := (cl_engines w)(i := None), cl_owner := (cl_owner w)(unat (shard_id p) :=
              destroy_leader_lock (leader p) (cl_owner w (unat (shard_id p))))\<rparr>"
  have "cl_run True base n (tr @ []) ?w"
    by (rule cl_run.step [OF run, where ev = "En_kill i"]) (simp_all add: e)
  moreover have "destroy_leader_lock (leader p) (cl_owner w (unat (shard_id p))) = None"
    using cl_active_owner(1) [OF run e] act
    by (auto simp: destroy_leader_lock_def close_fd_def split: option.splits)
  ultimately show ?thesis by (intro exI [of _ ?w]) simp
qed

section \<open>One shard with two replicas\<close>

lemma shard_of_one: "shard_of 1 x = 0"
  using shard_of_less [of 1 x] by simp

text \<open>The standby has handled \<open>m'\<close> orders, then the active replica handles \<open>m\<close>.\<close>

lemma before_kill:
  assumes xs: "list_all order_wf xs" "list_all valid_order xs" "length xs < 2 ^ 57"
    and m: "m \<le> length xs" and m': "m' \<le> length xs"
  shows "\<exists>tr w q p q' p'. cl_run kills base 1 tr w \<and> took tr = xs \<and> positions 0 tr = [0 ..< m] \<and>
     cl_engines w = [0 \<mapsto> (q, p), 1 \<mapsto> (q', p')] \<and> shard_id p = 0 \<and> shard_id p' = 0 \<and> active p \<and>
     \<not> active p' \<and> ll_fd (leader p') = Some 1 \<and> unat (consumer_offset q) = m \<and> unat (consumer_offset q') = m'"
proof -
  have n: "(1 :: u32) \<noteq> 0" by simp
  obtain w0 q0 p0 q1 p1 r where r0: "cl_run kills base 1 [] w0"
    and e0: "cl_engines w0 = [0 \<mapsto> (q0, p0), 1 \<mapsto> (q1, p1)]"
    and p: "shard_id p0 = 0" "shard_id p1 = 0" "consumer_offset q0 = 0" "consumer_offset q1 = 0"
      "ll_fd (leader p0) = Some 0" "ll_fd (leader p1) = Some 1" "cl_owner w0 0 = Some 0" "cl_gateways w0 0 = Some r"
    using two_replicas [of kills base] by blast
  have "length (took []) + length xs < 2 ^ 57" using xs(3) by simp
  from orders_taken [OF n r0 p(8) xs(1,2) this] obtain w1 where r1: "cl_run kills base 1 ([] @ map Took xs) w1"
    and e1: "cl_engines w1 = cl_engines w0" "cl_owner w1 = cl_owner w0" by blast
  let ?t1 = "[] @ map Took xs"
  have L: "took tr = [] \<Longrightarrow> shard_log 1 (?t1 @ tr) 0 = xs" for tr by (simp add: shard_log_def shard_of_one)
  have "\<not> active p1" using cl_active_owner(1) [OF r1, of 1 q1 p1] e0 e1 p by simp
  then obtain o2 w2 q2 p2 where t2: "after_turns kills base 1 1 m' [] ?t1 w1 w2 q2 p2 o2"
    and p2: "shard_id p2 = 0" "leader p2 = leader p1" "\<not> active p2" "cl_owner w2 = cl_owner w1"
    using turns_standby [OF n r1, of 1 q1 p1 m'] e0 e1 p m' L [of "[]"] by auto
  have e2: "cl_engines w2 = [0 \<mapsto> (q0, p0), 1 \<mapsto> (q2, p2)]" and r2: "cl_run kills base 1 (?t1 @ o2) w2"
    using t2 e0 e1 by (simp_all add: after_turns_def)
  have a2: "active p0" using cl_active_owner(1) [OF r2, of 0 q0 p0] e2 e1 p2 p by simp
  obtain o3 w3 q3 p3 where t3: "after_turns kills base 1 0 m [0 ..< m] (?t1 @ o2) w2 w3 q3 p3 o3"
    and p3: "shard_id p3 = 0" "active p3"
    using turns_active [OF n r2, of 0 q0 p0 m] a2 e2 p m L [of o2] t2 by (auto simp: after_turns_def promote_def)
  have "cl_engines w3 = [0 \<mapsto> (q3, p3), 1 \<mapsto> (q2, p2)]"
    using t3 unfolding after_turns_def e2 by (simp add: fun_upd_twist)
  then show ?thesis
    using t2 t3 p p2 p3
    by (intro exI [of _ "?t1 @ o2 @ o3"] exI [of _ w3] exI [of _ q3] exI [of _ p3] exI [of _ q2] exI [of _ p2])
      (auto simp: after_turns_def)
qed

lemma sample_spec_trades:
  "spec_trades [ask_100, bid_100] 0 = []" "spec_trades [ask_100, bid_100] (Suc 0) = [trade_3]"
  using sample_books by (simp_all add: spec_trades_def)

lemma cluster_sample_run:
  "\<exists>tr w q p. cl_run kills ''m'' 1 tr w \<and> shard_log 1 tr 0 = [ask_100, bid_100] \<and> positions 0 tr = [0, 1] \<and>
     cl_engines w 0 = Some (q, p) \<and> active p \<and> shard_id p = 0 \<and> unat (consumer_offset q) = 2"
proof -
  have xs: "list_all order_wf [ask_100, bid_100]" "list_all valid_order [ask_100, bid_100]"
    "length [ask_100, bid_100] < 2 ^ 57" "2 \<le> length [ask_100, bid_100]" "0 \<le> length [ask_100, bid_100]"
    using sample_orders_wf sample_orders_valid by simp_all
  have u: "[0 ..< 2] = [0, 1 :: nat]" by (simp add: upt_rec)
  obtain tr w q p q' p' where "cl_run kills ''m'' 1 tr w" "took tr = [ask_100, bid_100]" "positions 0 tr = [0, 1]"
    "cl_engines w = [0 \<mapsto> (q, p), 1 \<mapsto> (q', p')]" "active p" "shard_id p = 0" "unat (consumer_offset q) = 2"
    using before_kill [OF xs, of kills "''m''"] unfolding u by blast
  then show ?thesis
    by (intro exI [of _ tr] exI [of _ w] exI [of _ q] exI [of _ p]) (simp add: shard_log_def shard_of_one)
qed

section \<open>What subscribers can rely on\<close>



text \<open>
  C6: As long as no replica of the cluster is killed, publication is exactly-once and in
  order, however many gateways, shards and standbys there are and however their steps
  interleave: the active replica of a shard has handled the positions \<open>0, 1, 2, ...\<close> up to its
  own, and the shard's trade log holds the trades of the specification on exactly that part of
  the log, each once.
\<close>

theorem topic_exactly_once:
  assumes "cl_run False base n tr w" and "n \<noteq> 0" and "cl_engines w i = Some (q, p)" and "active p"
  shows "positions (unat (shard_id p)) tr = [0 ..< unat (consumer_offset q)] \<and>
     file_bytes (trades_file (shard_base base (unat (shard_id p)))) (cl_disk w) =
       concat (map enc_trade (run_trades (take (unat (consumer_offset q)) (shard_log n tr (unat (shard_id p)))) Map.empty))"
proof -
  let ?k = "unat (shard_id p)" and ?m = "unat (consumer_offset q)"
  let ?L = "shard_log n tr ?k"
  obtain f where f: "cl_owner w ?k = Some f" "ll_fd (leader p) = Some f"
    using cl_active_owner(1) [OF assms(1,3)] assms(4) by (cases "cl_owner w ?k") auto
  obtain j q2 p2 where j: "cl_engines w j = Some (q2, p2)" "unat (shard_id p2) = ?k"
    "ll_fd (leader p2) = Some f" "positions ?k tr = [0 ..< unat (consumer_offset q2)]"
    using cl_run_first_active [OF assms(1,2), of ?k] f by (auto simp: first_active_def)
  have "i = j" using cl_fds_distinct [OF assms(1,3) j(1)] j(2,3) f(2) by simp
  then have pos: "positions ?k tr = [0 ..< ?m]" using j(1,4) assms(3) by simp
  have inv: "cluster_inv base n tr w" by (rule cl_run_inv [OF assms(1,2)])
  have node: "node_ok base n (shard_log n tr) (cl_disk w) q p" by (rule cluster_invD(6) [OF inv assms(3)])
  have m: "?m \<le> length ?L" by (rule node_orders(3) [OF node cluster_invD(4) [OF inv]])
  have "run_trades (take ?m ?L) Map.empty = concat (map (spec_trades (take ?m ?L)) [0 ..< ?m])"
    using run_trades_spec [of "take ?m ?L"] node m by (simp add: node_ok_def min_def)
  also have "map (spec_trades (take ?m ?L)) [0 ..< ?m] = map (spec_trades ?L) [0 ..< ?m]"
    using spec_trades_append [of _ "take ?m ?L" "drop ?m ?L"] m by simp
  finally show ?thesis using cl_run_topics [OF assms(1,2)] pos by (simp add: topics_ok_def)
qed

theorem topic_exactly_once_witness:
  "\<exists>tr w q p. cl_run False ''m'' 1 tr w \<and> cl_engines w 0 = Some (q, p) \<and> active p \<and>
     file_bytes (trades_file (shard_base ''m'' 0)) (cl_disk w) = enc_trade trade_3"
proof -
  obtain tr w q p where r: "cl_run False ''m'' 1 tr w" "cl_engines w 0 = Some (q, p)" "active p"
    and s: "shard_log 1 tr 0 = [ask_100, bid_100]" "shard_id p = 0" "unat (consumer_offset q) = 2"
    using cluster_sample_run by blast
  have "run_trades [ask_100, bid_100] Map.empty = [trade_3]" by (simp add: sample_books)
  then have "file_bytes (trades_file (shard_base ''m'' 0)) (cl_disk w) = enc_trade trade_3"
    using topic_exactly_once [OF r(1) _ r(2,3)] s by simp
  with r show ?thesis by blast
qed

section \<open>Failover\<close>

lemma failover_positions:
  assumes xs: "list_all order_wf xs" "list_all valid_order xs" "length xs < 2 ^ 57"
    and m: "m \<le> length xs" and m': "m' \<le> length xs"
  shows "\<exists>tr w. cl_run True base 1 tr w \<and> shard_log 1 tr 0 = xs \<and> positions 0 tr = [0 ..< m] @ [m' ..< length xs]"
proof -
  have n: "(1 :: u32) \<noteq> 0" by simp
  obtain tr w q p q' p' where run: "cl_run True base 1 tr w" and tr: "took tr = xs" "positions 0 tr = [0 ..< m]"
    and e: "cl_engines w = [0 \<mapsto> (q, p), 1 \<mapsto> (q', p')]"
    and p: "shard_id p = 0" "shard_id p' = 0" "active p" "\<not> active p'" "ll_fd (leader p') = Some 1"
    and off: "unat (consumer_offset q') = m'"
    using before_kill [OF assms, of True base] by blast
  obtain w1 where r1: "cl_run True base 1 tr w1" and e1: "cl_engines w1 = (cl_engines w)(0 := None)"
    and o1: "cl_owner w1 0 = None"
    using kill_owner [OF run, of 0 q p] e p by auto
  have e1': "cl_engines w1 1 = Some (q', p')" using e e1 by simp
  have "ll_held (leader p') = False" using cl_active_owner(2) [OF r1 e1'] p(4) by simp
  then have "leader p' = \<lparr>ll_fd = Some 1, ll_held = False\<rparr>" using p(5) by (cases "leader p'") simp
  then have act: "active (fst (promote p' (cl_owner w1 (unat (shard_id p')))))"
    using promote_free [of p' 1] o1 p(2) by simp
  have L: "took tr' = [] \<Longrightarrow> shard_log 1 (tr @ tr') 0 = xs" for tr'
    using tr(1) by (simp add: shard_log_def shard_of_one)
  have "unat (consumer_offset q') + (length xs - m') \<le> length (shard_log 1 tr (unat (shard_id p')))"
    using off m' L [of "[]"] p(2) by simp
  from turns_active [OF n r1 e1' act this] obtain out w2 q2 p2 where
    "after_turns True base 1 1 (length xs) [m' ..< length xs] tr w1 w2 q2 p2 out" "shard_id p2 = 0"
    using off m' p(2) by auto
  then show ?thesis using tr(2) L [of out] by (intro exI [of _ "tr @ out"] exI [of _ w2]) (simp add: after_turns_def)
qed

text \<open>
  C33: At a failover trades are published twice or never.  For any log of valid orders and any
  two positions there is a run in which the active replica is killed after \<open>m\<close> orders while the
  standby is at position \<open>m'\<close>, and the standby, promoted, goes on from there: the shard's trade log
  ends up with the trades of the positions below \<open>m\<close>, followed by those from \<open>m'\<close> on.  If \<open>m' < m\<close> the
  trades of the positions in between are published a second time, if \<open>m < m'\<close> those in between are
  lost; only with equal positions is the log right.
\<close>

theorem failover_repeats_or_skips:
  assumes "list_all order_wf xs" and "list_all valid_order xs" and "length xs < 2 ^ 57"
    and "m \<le> length xs" and "m' \<le> length xs"
  shows "\<exists>tr w. cl_run True base 1 tr w \<and> shard_log 1 tr 0 = xs \<and>
     file_bytes (trades_file (shard_base base 0)) (cl_disk w) =
       concat (map enc_trade (concat (map (spec_trades xs) ([0 ..< m] @ [m' ..< length xs]))))"
proof -
  obtain tr w where run: "cl_run True base 1 tr w" and tr: "shard_log 1 tr 0 = xs"
    "positions 0 tr = [0 ..< m] @ [m' ..< length xs]"
    using failover_positions [OF assms] by blast
  have "topics_ok base 1 tr w" using cl_run_topics [OF run] by simp
  then have "file_bytes (trades_file (shard_base base 0)) (cl_disk w) =
      concat (map enc_trade (concat (map (spec_trades (shard_log 1 tr 0)) (positions 0 tr))))"
    unfolding topics_ok_def by blast
  then show ?thesis using run tr by metis
qed

text \<open>A trade that is published twice, and one that is never published.\<close>

theorem failover_repeats_or_skips_witness:
  "(\<exists>tr w. cl_run True ''m'' 1 tr w \<and> shard_log 1 tr 0 = [ask_100, bid_100] \<and>
      file_bytes (trades_file (shard_base ''m'' 0)) (cl_disk w) = enc_trade trade_3 @ enc_trade trade_3) \<and>
   (\<exists>tr w. cl_run True ''m'' 1 tr w \<and> shard_log 1 tr 0 = [ask_100, bid_100] \<and>
      file_bytes (trades_file (shard_base ''m'' 0)) (cl_disk w) = [])"
proof -
  have xs: "list_all order_wf [ask_100, bid_100]" "list_all valid_order [ask_100, bid_100]"
    "length [ask_100, bid_100] < 2 ^ 57"
    using sample_orders_wf sample_orders_valid by simp_all
  have u: "[0 ..< 2] = [0, Suc 0]" by (simp add: upt_rec)
  show ?thesis
    using failover_repeats_or_skips [OF xs, of 2 0 "''m''"] failover_repeats_or_skips [OF xs, of 0 2 "''m''"]
    by (simp add: u sample_spec_trades)
qed

end
