(* ===== verification/ClusterLive.thy ===== *)
theory ClusterLive
  imports ClusterProps
begin

text \<open>
  Progress of the cluster: no order is forgotten.  A replica that is behind catches up with the
  log, as it was when one starts to count, with as many turns of its own as it is behind,
  whatever the other processes do in between.
\<close>

section \<open>Schedules of events\<close>

fun cl_path ::
  "bool \<Rightarrow> string \<Rightarrow> u32 \<Rightarrow> cl_event list \<Rightarrow> cl_out list \<Rightarrow> cluster \<Rightarrow> (cl_out list \<times> cluster) option" where
  "cl_path kills base n [] tr w = Some (tr, w)"
| "cl_path kills base n (ev # evs) tr w =
     (if cl_allowed kills base n ev w
      then (case cl_step base n ev w of
              None \<Rightarrow> None
            | Some (out, w') \<Rightarrow> cl_path kills base n evs (tr @ out) w')
      else None)"

lemma cl_path_run:
  "cl_run kills base n tr w \<Longrightarrow> cl_path kills base n evs tr w = Some (tr', w') \<Longrightarrow> cl_run kills base n tr' w'"
  by (induction evs arbitrary: tr w) (auto split: if_splits option.splits prod.splits dest: cl_run.step)

text \<open>A replica stays as it is in the steps of the others.\<close>

lemma other_step:
  assumes "cl_allowed kills base n ev w" and "cl_step base n ev w = Some (out, w')" and "cl_engines w i \<noteq> None"
    and "ev \<noteq> En_turn i" and "ev \<noteq> En_kill i"
  shows "cl_engines w' i = cl_engines w i"
  using assms
  by (cases ev) (auto simp: turn_handle_def Let_def split: option.splits sum.splits prod.splits pop_result.splits)

lemma cl_path_extends: "cl_path kills base n evs tr w = Some (tr', w') \<Longrightarrow> prefix tr tr'"
  by (induction evs arbitrary: tr w)
    (auto split: if_splits option.splits prod.splits dest: append_prefixD)

lemma turns_possible:
  assumes "n \<noteq> 0"
  shows "cl_run kills base n tr w \<Longrightarrow> \<exists>tr' w'. cl_path kills base n (map En_turn is) tr w = Some (tr', w')"
proof (induction "is" arbitrary: tr w)
  case (Cons i "is")
  then obtain out w1 where "cl_step base n (En_turn i) w = Some (out, w1)" "cl_run kills base n (tr @ out) w1"
    using cl_run_progress [OF Cons.prems assms, of "En_turn i"] by auto
  then show ?case using Cons.IH by simp
qed simp

section \<open>Catching up\<close>

lemma not_its_turn:
  assumes run: "cl_run kills base n tr w" and "n \<noteq> 0" and ok: "cl_allowed kills base n ev w"
    and s: "cl_step base n ev w = Some (out, w')" and e: "cl_engines w i = Some (q, p)" and "ev \<noteq> En_kill i"
    and "ev = En_turn i \<Longrightarrow> length (shard_log n tr (unat (shard_id p))) \<le> unat (consumer_offset q)"
  shows "cl_engines w' i = Some (q, p)"
proof (cases "ev = En_turn i")
  case True
  then have "cl_step base n ev w = Some ([], w)" using turn_idle [OF run assms(2), of i] assms(7) e by auto
  then show ?thesis using s e by simp
next
  case False
  then show ?thesis using other_step [OF ok s _ False assms(6)] e by simp
qed

lemma catches_up:
  assumes n: "n \<noteq> 0"
  shows "cl_run kills base n tr w \<Longrightarrow> cl_engines w i = Some (q, p) \<Longrightarrow>
     cl_path kills base n evs tr w = Some (tr', w') \<Longrightarrow> En_kill i \<notin> set evs \<Longrightarrow>
     m \<le> length (shard_log n tr (unat (shard_id p))) \<Longrightarrow>
     m - unat (consumer_offset q) \<le> count_list evs (En_turn i) \<Longrightarrow>
     \<exists>q' p'. cl_engines w' i = Some (q', p') \<and> shard_id p' = shard_id p \<and> m \<le> unat (consumer_offset q') \<and>
       (active p \<longrightarrow> active p' \<and> {unat (consumer_offset q) ..< m} \<subseteq> set (positions (unat (shard_id p)) tr'))"
proof (induction evs arbitrary: tr w q p)
  case Nil
  then show ?case by auto
next
  case (Cons ev evs)
  let ?k = "unat (shard_id p)" and ?j = "unat (consumer_offset q)"
  obtain out w1 where ok: "cl_allowed kills base n ev w" and s: "cl_step base n ev w = Some (out, w1)"
    and rest: "cl_path kills base n evs (tr @ out) w1 = Some (tr', w')"
    using Cons.prems(3) by (auto split: if_splits option.splits)
  have r1: "cl_run kills base n (tr @ out) w1" by (rule cl_run.step [OF Cons.prems(1) ok s])
  have m1: "m \<le> length (shard_log n (tr @ out) ?k)" using Cons.prems(5) by (simp add: shard_log_append)
  show ?case
  proof (cases "ev = En_turn i \<and> ?j < length (shard_log n tr ?k)")
    case True
    let ?q = "q\<lparr>consumer_offset := consumer_offset q + 1\<rparr>"
    obtain p1 where t: "turned i q p p1 out w w1"
      using turn_turned [OF Cons.prems(1) n Cons.prems(2)] True s by blast
    then have e1: "cl_engines w1 i = Some (?q, p1)" "shard_id p1 = shard_id p" "unat (consumer_offset ?q) = Suc ?j"
      and act: "active p \<Longrightarrow> active p1" "active p1 \<Longrightarrow> positions ?k out = [?j]"
      by (auto simp: turned_def Let_def promote_def)
    have c1: "m - unat (consumer_offset ?q) \<le> count_list evs (En_turn i)"
      using Cons.prems(6) True e1(3) by (auto split: if_splits)
    obtain q' p' where IH: "cl_engines w' i = Some (q', p')" "shard_id p' = shard_id p" "m \<le> unat (consumer_offset q')"
      "active p1 \<longrightarrow> active p' \<and> {Suc ?j ..< m} \<subseteq> set (positions ?k tr')"
      using Cons.IH [OF r1 e1(1) rest _ _ c1] Cons.prems(4) m1 e1 by auto
    have "?j \<in> set (positions ?k tr')" if "active p"
      using cl_path_extends [OF rest] act that by (auto elim!: prefixE)
    then show ?thesis using IH act(1) by (auto simp: Suc_le_eq nat_less_le subset_iff)
  next
    case False
    have "ev \<noteq> En_kill i" using Cons.prems(4) by auto
    then have e1: "cl_engines w1 i = Some (q, p)"
      by (rule not_its_turn [OF Cons.prems(1) n ok s Cons.prems(2)]) (use False in simp)
    have "m - ?j \<le> count_list evs (En_turn i)" using Cons.prems(5,6) False by (auto split: if_splits)
    then show ?thesis using Cons.IH [OF r1 e1 rest] Cons.prems(4) m1 by auto
  qed
qed



end
