(* ===== verification/Spec2Isabelle.thy ===== *)
theory Spec2Isabelle
  imports EngineProps ServerSession AcceptLoop OrderPool CommandLine BookDump WireClient ShortWrites LockFreeWeak
    LockFreeProgress ClusterLive
begin

text \<open>
  A verification library for a small exchange in C++17: a price-time-priority matching engine
  behind a price collar, the queues that feed it, and the processes that distribute it over
  symbols and replicas.  Paths below are under \<open>src/\<close> of the repository.

  \<^bold>\<open>The program\<close>

  A client sends fixed-size binary orders over TCP.  \<open>TCPFeedHandler\<close> (\<open>src/tcp_feed_handler.cpp\<close>)
  cuts the byte streams into orders and pushes them into an \<open>IOrderQueue\<close>
  (\<open>include/order_queue.hpp\<close>).  In the single-process server (\<open>src/server_main.cpp\<close>) that queue is a
  \<open>MutexOrderQueue\<close>, and a second thread pops orders into one \<open>MatchingEngine\<close>.  In the distributed
  set-up the gateway (\<open>src/gateway_main.cpp\<close>) has a \<open>ShardRouterQueue\<close>, which appends each order to the
  \<open>LogBackedOrderQueue\<close> of the shard its symbol hashes to; an engine process
  (\<open>src/engine_main.cpp\<close>) reads one shard's log into one \<open>MatchingEngine\<close> per symbol, and if it holds
  the \<open>ShardLeaderLock\<close> it appends the trades to a \<open>TradeLog\<close>, which any number of subscribers read
  (\<open>src/trades_subscriber_main.cpp\<close>).  \<open>LockFreeOrderQueue\<close> and \<open>OrderPool\<close> serve the
  benchmarks and the threaded tests.  The Python clients (\<open>client/\<close>) write the binary orders.

  \<^bold>\<open>The theories\<close>

  \<^item> \<open>Prelude\<close>: the word types, their arithmetic, little-endian byte lists, shared list lemmas.
  \<^item> \<open>Binary64\<close>: \<open>double\<close> as 64-bit patterns with IEEE comparison and correctly rounded
    addition, subtraction, multiplication and division.
  \<^item> \<open>Decimal\<close>: numbers as text: \<open>std::to_string\<close>, output with two decimals, \<open>std::atoi\<close>.
  \<^item> \<open>Std_Map\<close>: \<open>std::map\<close> as a sorted association list, with the locale \<open>key_order\<close> for its comparator.
  \<^item> \<open>Orders\<close>: \<open>include/order.hpp\<close>.  \<open>OrderBook\<close>: the two price-level maps and the cancel index of
    \<open>src/order_book.cpp\<close>, with the invariants \<open>book_ok\<close> and \<open>index_ok\<close>; \<open>BookDump\<close>: its text, with a
    reader that gets back what it shows.  \<open>PriceCollar\<close>:
    \<open>src/price_collar.cpp\<close>.  \<open>MatchingEngine\<close>: the matching loop, submission and cancellation of
    \<open>src/matching_engine.cpp\<close>.
  \<^item> \<open>EngineSpec\<close>: an abstract exchange, two lists in priority order, which the engine refines
    (submission, cancellation), and the invariant of all reachable states.  \<open>EngineProps\<close>: what traders
    rely on: priority, maximal fills, conservation of quantity, limits, timestamps, rejections.
    \<open>Samples\<close>: one short run on which the theorems are instantiated.
  \<^item> \<open>OrderQueue\<close>: the interface as the locale \<open>order_queue\<close>, with the laws a queue promises and what
    its clients get from them: first in, first out, and a consumer's loop that drains it; the
    locale \<open>total_queue\<close> extends it for queues with room.
    \<open>MutexQueue\<close>, \<open>LockFreeQueue\<close> and \<open>LogQueue\<close> interpret it on the three implementations.
  \<^item> \<open>MutexQueue\<close> and \<open>LockFreeConcurrent\<close> also model the threads: executable step functions over
    lists of events, one event per critical section, notification, atomic load or store, with
    invariants over all interleavings.  \<open>LockFreeProgress\<close>: within how many steps of its own a call
    on the ring completes.  \<open>LockFreeWeak\<close>: the same accesses with the memory orders the code names,
    in a release/acquire memory with messages and views, in which a data race is an outcome.
  \<^item> \<open>StructLayout\<close>: sizes, alignments and member offsets of the structures, computed from their
    declarations.  \<open>Layout\<close>: the bytes of \<open>Order\<close> and \<open>Trade\<close> objects; the locale \<open>record_codec\<close> gives the laws of a
    file of fixed-size records.  \<open>LogQueue\<close>: the log and checkpoint files of
    \<open>include/log_backed_order_queue.hpp\<close> on a model of the disk, restart and failure.  \<open>TradeLog\<close>:
    publisher, subscribers and the subscriber process.  \<open>ShortWrites\<close>: what readers make of a log
    behind a record that was written only in part.
  \<^item> \<open>Sharding\<close>, \<open>ShardRouter\<close>, \<open>LeaderLock\<close>, \<open>OrderPool\<close>: the headers of those names.
  \<^item> \<open>TcpFeed\<close>: wire format, framing and event loop, with interrupted and failing waits.
    \<open>TcpSockets\<close>: the same class's descriptors, with the system calls that may fail; \<open>AcceptLoop\<close>: its
    accepting loop against a kernel with a limit on descriptors.  \<open>WireClient\<close>: the
    Python clients' packing of an order, and the order generator's stream against the handler.
  \<^item> \<open>Processes\<close>: the engine process and its specification \<open>step_books\<close>.  \<open>Replicas\<close>: the processes of
    a shard around one lock file, simulated by the steps of \<open>LeaderLock\<close>.  \<open>Server\<close>, \<open>Gateway\<close>: the
    other two programs.  \<open>CommandLine\<close>: the programs from their arguments to their exit code, with
    the lines they print.  \<open>ServerSession\<close>: the server from its start to the text on the console, in a
    session with \<open>client/manual_test.py\<close>.
  \<^item> \<open>Cluster\<close>: gateways and engine replicas of all shards as one system on one disk, one step per
    order taken or handled, with processes that start and are killed at any time; its invariant,
    and that no allowed step fails.  \<open>ClusterTopic\<close>: leadership in the cluster, by projection to
    \<open>Replicas\<close>, and the contents of the trade logs.  \<open>ClusterProps\<close>: what subscribers can rely on, and
    the runs that show what a failover does.  \<open>ClusterLive\<close>: a replica that gets its turns catches up.
  \<^item> This theory: the path from the clients' sockets to the books, and the three programs run one
    after the other.

  \<^bold>\<open>How the code is rendered\<close>

  Classes and structs are records with the members' names, enumerations are datatypes, a
  reference parameter is passed and returned.  Integers keep their width.  Whatever C++ leaves
  undefined, and every failed assertion, is \<open>None\<close>; exceptions are values of a sum or of
  \<open>pop_result\<close>.  A blocking call is one attempt: \<open>Waiting\<close>, or \<open>None\<close> for a \<open>push\<close> into a full ring, means
  that it has not returned.  The disk is the record \<open>fs\<close>: it outlives the processes, so that a
  restart is a new object on the disk as it is.  The symbol maps and the connection table are
  maps; the order of iteration is never used by the code.

  \<^bold>\<open>Termination and bounds\<close>

  The matching loop, the framing loop and all list recursions are total functions with their
  measures; that the matching loop never meets an empty deque is part of the refinement.  The
  ring's rounding loop and the accepting loop are partial functions, and their theorems say
  exactly when they return.  The consumers' loops wait for other processes and take the number of calls of \<open>pop\<close> as
  fuel; one more than the queue's length is proved to be enough.  A log must stay below \<open>2 ^ 63\<close>
  bytes, the range of file offsets, and the lock-free counters below \<open>2 ^ 64\<close>; what happens at that
  wrap-around is a theorem of its own.

  \<^bold>\<open>Assumptions\<close>

  Limit prices are not NaN (\<open>valid_order\<close>), which nothing in the code checks; the exactness of the
  cancel index needs the ids of resting orders to be distinct.  Outside
  \<open>ShortWrites\<close>, writes to an open file succeed and a record is written as a whole; there, the device
  takes a part and the stream discards the rest, as the C library does.  \<open>fopen\<close> may fail.
  \<open>flock\<close> is granted to at most one open description and freed when that is closed.  In the cluster each replica id is used once per
  shard (a reused id is the restart treated in \<open>Processes\<close>), and live processes have different
  lock descriptors.  \<open>LockFreeConcurrent\<close> and \<open>LockFreeProgress\<close> interleave the accesses in one memory
  in which a load returns the last store; \<open>LockFreeWeak\<close> does without that assumption for the safety
  of the ring.  Both have one producer and one consumer, as the class asks for.

  \<^bold>\<open>What the properties show\<close>

  C1 to C40 are stated at the theorems.  They fall into: refinement and invariants of the engine;
  its contract to traders; the queues, in one thread, in all interleavings and in a weak memory,
  with their progress; durability and restart; routing, replication and leadership, in the
  cluster as a whole, with its progress; layouts, framing, descriptors, the whole pipeline and a
  session of the server; and what the code does that its comments or its users would
  not expect (trades repeated or lost at a failover, a lost wake-up at shutdown, orders dropped
  when the peer closes, replay after a crash in the checkpoint, books lost at restart, logs shifted
  by a short write, an accepting loop that spins without descriptors, arguments that are
  accepted and break the programs, and others).

  \<^bold>\<open>Not modelled\<close>

  The wording of the printed lines of engine, gateway and subscriber (these lines are data,
  and the engine's trades and rejections come without the symbol before them; the text
  of \<open>dump\<close> and of the server is modelled character by character), line buffering, and the
  system calls that install signal handlers, whose bodies are modelled.  Accessors that return a
  member are the record's selectors, and destructors that only close a file have no effect on the
  disk.  Time, and with it the sleeping and yielding in the waiting loops.  Progress of the ring in
  the weak memory, where C++ promises only that a store becomes visible in finite time.  In the
  cluster a process dies between two steps; a death inside one, between the truncation and the
  write of a checkpoint, is treated in \<open>LogQueue\<close>, and one in the middle of a record leaves what
  \<open>ShortWrites\<close> starts from.  The sockets, timing and arguments of the Python clients.  The benchmark
  and the tests, which hold no logic of the system; what the threaded test compares is a theorem
  of \<open>LockFreeWeak\<close>.
\<close>

section \<open>From the clients' sockets to the books\<close>

lemma shard_symbol_filter:
  assumes "shard_for_symbol s n = Some k"
  shows "filter (\<lambda>x. symbol_str x = s) (filter (\<lambda>x. shard_of n x = unat k) xs) =
           filter (\<lambda>x. symbol_str x = s) xs"
  using assms by (induction xs) (auto simp: shard_of_def)

lemma arrivals_valid:
  assumes "\<forall>fd. from_client fd arr = map received (os fd)" and "\<forall>fd. list_all valid_order (os fd)"
  shows "list_all valid_order (map snd arr)"
  unfolding list_all_iff
proof
  fix x assume "x \<in> set (map snd arr)"
  then obtain fd where "x \<in> set (from_client fd arr)" by (force simp: from_client_def)
  then show "valid_order x" using assms by (auto simp: list_all_iff received_def valid_order_def)
qed

text \<open>An engine that starts on the disk a gateway left.\<close>

lemma engine_after_gateway:
  assumes "keeps_others base empty_disk d" and "n \<noteq> 0" and "list_all valid_order xs"
    and "shard_holds base (unat k) xs d" and "length xs < 2 ^ 57" and "length xs < fuel"
  shows "\<exists>q p owner2 d2 q' p' owner3 d3.
     engine_start base k n rid (Some c) None d = Inr (q, p, owner2, d2) \<and>
     engine_loop fuel (q\<lparr>lq_done := True\<rparr>) p owner2 d2 = Some (q', p', owner3, d3) \<and>
     run_orders step_books xs Map.empty = Some (engines p') \<and>
     file_bytes (trades_file (shard_base base (unat k))) d3 =
       file_bytes (trades_file (shard_base base (unat k))) d @
       concat (map enc_trade (run_trades xs Map.empty)) \<and>
     can_open d3 = can_open d \<and>
     (\<forall>path. path \<noteq> log_file (shard_base base (unat k)) \<longrightarrow> path \<noteq> offset_file (shard_base base (unat k)) rid \<longrightarrow>
        path \<noteq> trades_file (shard_base base (unat k)) \<longrightarrow> files d3 path = files d path)"
proof -
  have d: "can_open d path" "files d (offset_file (shard_base base (unat k)) rid) = None" for path
    using assms(1) offset_file_not_log by (auto simp: keeps_others_def empty_disk_def)
  have "length xs * sizeof_Order < 2 ^ 63" using assms(5) by (simp add: sizeof_Order_value)
  from first_start [OF d assms(4) [unfolded shard_holds_def] this, of n "Some c" None]
  obtain q p owner2 d2 where st: "engine_start base k n rid (Some c) None d = Inr (q, p, owner2, d2)"
    and inv: "log_inv (q, d2)" and xs: "log_contents (q, d2) = xs" and act: "active p"
    and b: "file_bytes (tl_path (trade_topic p)) d2 = file_bytes (trades_file (shard_base base (unat k))) d"
    by auto
  have "loop_result xs q p d2 (engine_loop fuel (q\<lparr>lq_done := True\<rparr>) p owner2 d2)"
    using started_loop_result [OF st assms(2) inv, of fuel] assms(3,6) xs by simp
  then obtain q' p' owner3 d3 where
    run: "engine_loop fuel (q\<lparr>lq_done := True\<rparr>) p owner2 d2 = Some (q', p', owner3, d3)"
    and res: "loop_result xs q p d2 (Some (q', p', owner3, d3))"
    by (cases "engine_loop fuel (q\<lparr>lq_done := True\<rparr>) p owner2 d2") (auto simp: loop_result_def)
  have t: "tl_path (trade_topic p) = trades_file (shard_base base (unat k))" "engines p = Map.empty"
    using engine_start_split [OF st] by auto
  note fr = engine_start_frame [OF st]
  have "files d3 path = files d path" if "path \<noteq> log_file (shard_base base (unat k))"
    "path \<noteq> offset_file (shard_base base (unat k)) rid" "path \<noteq> trades_file (shard_base base (unat k))" for path
    using engine_loop_frame [OF run, of path] fr that t by simp
  then show ?thesis
    using st act b run res t fr(1) by (auto simp: loop_result_def)
qed


text \<open>One client that sends a sell and a buy in one read, to a gateway with one shard.\<close>

definition one_client_orders :: "nat \<Rightarrow> Order list" where
  "one_client_orders fd = (if fd = 5 then [ask_100, bid_100] else [])"

definition one_client_reads :: "(nat \<times> u8 list list) list" where
  "one_client_reads = [(5, [enc_wire 0 ask_100 @ enc_wire 0 bid_100])]"

lemma one_client_stream:
  "\<forall>fd. list_all order_wf (one_client_orders fd) \<and>
        stream fd one_client_reads = concat (map (enc_wire 0) (one_client_orders fd))"
  "\<forall>fd. list_all valid_order (one_client_orders fd)"
  using sample_orders_wf sample_orders_valid
  by (simp_all add: one_client_orders_def one_client_reads_def stream_def)

lemma received_runs:
  "run_orders submit_step (filter (\<lambda>x. symbol_str x = symbol_str ask_100) [received ask_100, received bid_100])
     (make_engine lit_10) = Some engine_2"
  using run_sell run_buy
  by (simp add: submit_step_def engine_0_def sample_symbol submit_received symbol_received)


section \<open>The three programs on one disk\<close>

lemma subscriber_file_fresh:
  "shard_base base k @ ''_trades.'' @ sid @ ''.offset'' \<noteq> log_file b"
  "shard_base base k @ ''_trades.'' @ sid @ ''.offset'' \<noteq> offset_file (shard_base base k) rid"
  "shard_base base k @ ''_trades.'' @ sid @ ''.offset'' \<noteq> trades_file (shard_base base k)"
  using arg_cong [of "shard_base base k @ ''_trades.'' @ sid @ ''.offset''" "log_file b" last]
    arg_cong [of "shard_base base k @ ''_trades.'' @ sid @ ''.offset''" "trades_file (shard_base base k)" last]
  by (auto simp: log_file_def offset_file_def trades_file_def)

text \<open>What a subscriber that reads the trades \<open>ts\<close> from the start prints, until it is stopped.\<close>

definition subscriber_lines :: "string \<Rightarrow> nat \<Rightarrow> string \<Rightarrow> Trade list \<Rightarrow> console list" where
  "subscriber_lines base k sid ts =
     [Attached_line \<lparr>so_base = shard_base base k, so_id = sid\<rparr> 0] @
     map (\<lambda>(t, off). Saw_line sid t off) (numbered 0 ts) @ [Stopped_line sid (of_nat (length ts))]"

lemma subscriber_after_engine:
  assumes "\<And>path. can_open d path" and "files d (shard_base base k @ ''_trades.'' @ sid @ ''.offset'') = None"
    and "file_bytes (trades_file (shard_base base k)) d = concat (map enc_trade ts)"
    and "length ts < 2 ^ 57" and "length ts \<le> rounds"
  shows "fst (subscriber_program rounds [u, to_string_nat k, base, sid] d) = subscriber_lines base k sid ts"
proof -
  obtain s d' where m: "make_subscriber (shard_base base k) sid d = Inr (s, d')"
    using assms(1) by (auto simp: make_subscriber_def fopen_append_def Let_def)
  have "log_holds dec_trade sizeof_Trade ts (file_bytes (shard_base base k @ ''_trades.log'') d)"
    using assms(3) trade_codec.holds_all [of ts] by (simp add: trades_file_def list_all_iff)
  moreover have "length ts * sizeof_Trade < 2 ^ 63" using assms(4) by (simp add: sizeof_Trade_value)
  ultimately obtain s' d2 where "sub_offset s = 0" "subscriber_loop rounds s d' = (numbered 0 ts, None, s', d2)"
    "sub_offset s' = of_nat (length ts)"
    using new_subscriber_replays_history [OF m assms(2,1) _ _ assms(5)] by blast
  then show ?thesis
    using m by (simp add: subscriber_program_def subscriber_args_given subscriber_lines_def)
qed

text \<open>The engine and the subscriber, started one after the other on the disk a gateway left.\<close>

lemma programs_after_gateway:
  assumes kn: "k < n" "n < 2 ^ 31" and keep: "keeps_others base empty_disk d"
    and v: "list_all valid_order xs" and h: "shard_holds base k xs d"
    and len: "length xs < 2 ^ 57" "length xs < m" and lt: "length (run_trades xs Map.empty) < 2 ^ 57"
  shows "\<exists>d2. snd (engine_program m [e, to_string_nat k, base, to_string_nat n, rid] (Some c) None d) = Exit 0 d2 \<and>
     (length (run_trades xs Map.empty) \<le> rounds \<longrightarrow>
        fst (subscriber_program rounds [u, to_string_nat k, base, sid] d2) =
          subscriber_lines base k sid (run_trades xs Map.empty))"
proof -
  let ?n = "of_nat n :: u32" and ?k = "of_nat k :: u32" and ?b = "shard_base base k" and ?ts = "run_trades xs Map.empty"
  have u: "unat ?n = n" "unat ?k = k" using kn by (simp_all add: unat_u32_of_nat)
  then have n0: "?n \<noteq> 0" using kn(1) by (metis not_less_zero unat_0)
  have h': "shard_holds base (unat ?k) xs d" using h u by simp
  from engine_after_gateway [OF keep n0 v h' len, of rid c] obtain q p owner2 d2 q' p' owner3 d3 where
    st: "engine_start base ?k ?n rid (Some c) None d = Inr (q, p, owner2, d2)"
    "engine_loop m (q\<lparr>lq_done := True\<rparr>) p owner2 d2 = Some (q', p', owner3, d3)"
    and f: "file_bytes (trades_file ?b) d3 = file_bytes (trades_file ?b) d @ concat (map enc_trade ?ts)"
    and o: "can_open d3 = can_open d"
    and fr: "\<And>path. path \<noteq> log_file ?b \<Longrightarrow> path \<noteq> offset_file ?b rid \<Longrightarrow> path \<noteq> trades_file ?b \<Longrightarrow>
               files d3 path = files d path"
    unfolding u by blast
  have e: "snd (engine_program m [e, to_string_nat k, base, to_string_nat n, rid] (Some c) None d) = Exit 0 d3"
    using st kn by (simp add: engine_program_def engine_args_given engine_signal_handler_def log_shutdown_def)
  have can: "can_open d3 path" for path using keep o by (simp add: keeps_others_def empty_disk_def)
  have none: "files d path = None" if "\<forall>i. path \<noteq> log_file (shard_base base i)" for path
    using keep that by (simp add: keeps_others_def empty_disk_def)
  have "file_bytes (trades_file ?b) d = []"
    using none [of "trades_file ?b"] trades_file_not_shard_log by (simp add: file_bytes_def)
  then have "fst (subscriber_program rounds [u, to_string_nat k, base, sid] d3) = subscriber_lines base k sid ?ts"
    if "length ?ts \<le> rounds"
    using subscriber_after_engine [OF can _ _ lt that, of base k sid u] f
      fr [of "?b @ ''_trades.'' @ sid @ ''.offset''"] none [of "?b @ ''_trades.'' @ sid @ ''.offset''"]
      subscriber_file_fresh by simp
  with e show ?thesis by blast
qed


lemma received_trades:
  "run_trades [received ask_100, received bid_100] Map.empty = [trade_3]"
proof -
  have "step_books (received x) = step_books x" "book_trades (received x) = book_trades x" for x
    unfolding step_books_def book_trades_def fun_eq_iff submit_received symbol_received by simp_all
  then show ?thesis by (simp add: sample_books)
qed


end
